(* ===== verification/Prelude.thy ===== *)
theory Prelude
  imports Main "HOL-Library.Word"
begin

text \<open>
  Shared ground of the development: machine-integer types, the faults a C program can run
  into and the result type that carries them, checked signed arithmetic, a calculus of
  memory-safe computations, and the transition systems in which the concurrent parts are
  stated.
\<close>

section \<open>Machine integers\<close>

unbundle bit_operations_syntax

type_synonym u32 = "32 word"
type_synonym u64 = "64 word"

section \<open>Faults and results\<close>

text \<open>
  What can end a C function other than a return: undefined behaviour of the listed kinds, a
  failed \<open>assert\<close>, or a call of \<open>exit\<close>. A fallible operation returns the fault or its
  value; a fault ends the computation, as in the program.
\<close>

datatype fault =
    OutOfBounds
  | UninitRead
  | NullDeref
  | SignedOverflow
  | DivByZero
  | AssertFailed
  | ExitWith int

type_synonym 'a res = "fault + 'a"

named_theorems res_simps \<open>rewriting of fallible computations\<close>

definition rbind :: "'a res \<Rightarrow> ('a \<Rightarrow> 'b res) \<Rightarrow> 'b res" where
  "rbind m f = (case m of Inl e \<Rightarrow> Inl e | Inr x \<Rightarrow> f x)"

definition guard_res :: "bool \<Rightarrow> fault \<Rightarrow> unit res" where
  "guard_res b e = (if b then Inr () else Inl e)"

lemma rbind_Inr [simp, res_simps]: "rbind (Inr x) f = f x"
  by (simp add: rbind_def)

lemma rbind_Inl [simp, res_simps]: "rbind (Inl e) f = Inl e"
  by (simp add: rbind_def)

lemma rbind_eq_Inr [res_simps]: "rbind m f = Inr y \<longleftrightarrow> (\<exists>x. m = Inr x \<and> f x = Inr y)"
  by (cases m) auto

lemma rbind_assoc: "rbind (rbind m f) g = rbind m (\<lambda>x. rbind (f x) g)"
  by (cases m) auto

lemma rbind_cong [fundef_cong]:
  "m = m' \<Longrightarrow> (\<And>x. m' = Inr x \<Longrightarrow> f x = f' x) \<Longrightarrow> rbind m f = rbind m' f'"
  by (cases m') auto

lemma guard_res_True [simp]: "guard_res True e = Inr ()"
  by (simp add: guard_res_def)

lemma guard_res_False [simp]: "guard_res False e = Inl e"
  by (simp add: guard_res_def)

lemma guard_res_eq_Inr [res_simps]: "guard_res b e = Inr u \<longleftrightarrow> b"
  by (simp add: guard_res_def)

text \<open>A counted loop: the body runs on each element in order until one faults.\<close>

fun fold_res :: "('x \<Rightarrow> 'a \<Rightarrow> 'a res) \<Rightarrow> 'x list \<Rightarrow> 'a \<Rightarrow> 'a res" where
  "fold_res f [] acc = Inr acc"
| "fold_res f (x # xs) acc = rbind (f x acc) (fold_res f xs)"

lemma fold_res_Inr:
  assumes "\<And>x acc. x \<in> set xs \<Longrightarrow> f x acc = Inr (g x acc)"
  shows "fold_res f xs acc = Inr (fold g xs acc)"
  using assms by (induction xs arbitrary: acc) simp_all

lemma fold_res_append: "fold_res f (xs @ ys) acc = rbind (fold_res f xs acc) (fold_res f ys)"
proof (induction xs arbitrary: acc)
  case (Cons x xs)
  then show ?case by (cases "f x acc") simp_all
qed simp

text \<open>Access to an array by index.\<close>

definition idx :: "'a list \<Rightarrow> nat \<Rightarrow> 'a res" where
  "idx xs i = (if i < length xs then Inr (xs ! i) else Inl OutOfBounds)"

definition upd :: "'a list \<Rightarrow> nat \<Rightarrow> 'a \<Rightarrow> 'a list res" where
  "upd xs i x = (if i < length xs then Inr (xs[i := x]) else Inl OutOfBounds)"

section \<open>Checked signed arithmetic\<close>

text \<open>Overflow of a signed C type is undefined behaviour; \<open>w\<close> is the width in bits.\<close>

definition fits :: "nat \<Rightarrow> int \<Rightarrow> bool" where
  "fits w x \<longleftrightarrow> - (2 ^ (w - 1)) \<le> x \<and> x < 2 ^ (w - 1)"

definition sadd :: "nat \<Rightarrow> int \<Rightarrow> int \<Rightarrow> int res" where
  "sadd w x y = (if fits w (x + y) then Inr (x + y) else Inl SignedOverflow)"

lemma sadd_eq_Inr [res_simps]: "sadd w x y = Inr z \<longleftrightarrow> fits w (x + y) \<and> z = x + y"
  by (auto simp: sadd_def)

lemma sadd_fits: "sadd w x y = Inr z \<Longrightarrow> fits w z"
  by (auto simp: sadd_def split: if_splits)

section \<open>Memory-safe computations\<close>

text \<open>
  A computation that accesses nothing outside an array and follows no null pointer, and whose
  value, if it has one, satisfies \<open>P\<close>; with one rule for each way of building computations.
\<close>

definition sat :: "'a res \<Rightarrow> ('a \<Rightarrow> bool) \<Rightarrow> bool" where
  "sat m P \<longleftrightarrow> (case m of Inl e \<Rightarrow> e \<noteq> OutOfBounds \<and> e \<noteq> NullDeref | Inr x \<Rightarrow> P x)"

lemma sat_Inr [simp]: "sat (Inr x) P \<longleftrightarrow> P x"
  by (simp add: sat_def)

lemma sat_Inl [simp]: "sat (Inl e) P \<longleftrightarrow> e \<noteq> OutOfBounds \<and> e \<noteq> NullDeref"
  by (simp add: sat_def)

lemma sat_rbind: "sat m Q \<Longrightarrow> (\<And>x. Q x \<Longrightarrow> sat (f x) P) \<Longrightarrow> sat (rbind m f) P"
  by (cases m) simp_all

lemma sat_weaken: "sat m Q \<Longrightarrow> (\<And>x. Q x \<Longrightarrow> P x) \<Longrightarrow> sat m P"
  by (cases m) simp_all

lemma sat_any: "sat m P \<Longrightarrow> sat m (\<lambda>_. True)"
  by (cases m) simp_all

lemma sat_fold_res:
  assumes "\<And>x acc. x \<in> set xs \<Longrightarrow> P acc \<Longrightarrow> sat (f x acc) P" and "P acc"
  shows "sat (fold_res f xs acc) P"
  using assms by (induction xs arbitrary: acc) (auto intro: sat_rbind)

lemma sat_idx: "i < length xs \<Longrightarrow> sat (idx xs i) (\<lambda>x. x = xs ! i)"
  by (simp add: idx_def)

lemma sat_upd: "i < length xs \<Longrightarrow> sat (upd xs i y) (\<lambda>ys. ys = xs[i := y])"
  by (simp add: upd_def)

lemma sat_sadd: "sat (sadd w x y) (\<lambda>_. True)"
  by (simp add: sadd_def)

section \<open>Transition systems\<close>

inductive reach :: "('s \<Rightarrow> bool) \<Rightarrow> ('s \<Rightarrow> 's \<Rightarrow> bool) \<Rightarrow> 's \<Rightarrow> bool"
  for init :: "'s \<Rightarrow> bool" and step :: "'s \<Rightarrow> 's \<Rightarrow> bool" where
  reach_init: "init s \<Longrightarrow> reach init step s"
| reach_step: "reach init step s \<Longrightarrow> step s t \<Longrightarrow> reach init step t"

lemma reach_mono:
  assumes "reach init step s" and "\<And>s t. step s t \<Longrightarrow> step' s t"
  shows "reach init step' s"
  using assms(1) by induction (auto intro: reach.intros assms(2))

lemma reach_rtranclp: "reach init step s \<Longrightarrow> step\<^sup>*\<^sup>* s t \<Longrightarrow> reach init step t"
  by (rotate_tac, induction rule: rtranclp_induct) (auto intro: reach_step)

lemma one_step_exI: "step s t \<Longrightarrow> P t \<Longrightarrow> \<exists>t. step\<^sup>*\<^sup>* s t \<and> P t"
  by blast

lemma two_step_exI: "step s t \<Longrightarrow> step t u \<Longrightarrow> P u \<Longrightarrow> \<exists>u. step\<^sup>*\<^sup>* s u \<and> P u"
  by (meson converse_rtranclp_into_rtranclp r_into_rtranclp)

text \<open>
  The contract of a machine with an invariant: it holds initially and every step keeps it.
  The clients of the contract get the invariant in every reachable state.
\<close>

locale transition_system =
  fixes init :: "'s \<Rightarrow> bool"
    and step :: "'s \<Rightarrow> 's \<Rightarrow> bool"
    and inv :: "'s \<Rightarrow> bool"
  assumes init_inv: "init s \<Longrightarrow> inv s"
    and step_inv: "inv s \<Longrightarrow> step s t \<Longrightarrow> inv t"
begin

lemma reach_inv: "reach init step s \<Longrightarrow> inv s"
  by (induction rule: reach.induct) (auto intro: init_inv step_inv)

lemma run_inv: "step\<^sup>*\<^sup>* s t \<Longrightarrow> inv s \<Longrightarrow> inv t"
  by (induction rule: rtranclp_induct) (auto intro: step_inv)

lemma reach_cases_inv: "reach init step s \<Longrightarrow> (inv s \<Longrightarrow> P s) \<Longrightarrow> P s"
  by (blast intro: reach_inv)

end

end
