(* ===== verification/DeviceModel.thy ===== *)
theory DeviceModel
  imports Prelude
begin

text \<open>
  What the two character-device drivers have in common: the calls a module makes on the
  kernel when it is loaded and removed, the numbers the kernel headers provide, and the
  contract of an \<open>unlocked_ioctl\<close> entry point. The kernel is not part of the repository:
  its calls appear as events of a trace, in the order the module issues them and with what
  the kernel answered, and its macros as fields of a record the model is parameterised by.
\<close>

section \<open>Calls on the kernel\<close>

text \<open>
  Interrupt numbers and device numbers are 32-bit; a class is known by the pointer
  \<open>class_create\<close> returned, \<open>None\<close> where that is an error pointer.
\<close>

datatype kcall =
    AllocChrdevRegion u32 u32 string u32       \<comment> \<open>first minor, count, name; the number granted\<close>
  | ClassCreate string "u64 option"            \<comment> \<open>name; the class\<close>
  | CdevInit
  | CdevSetOwner
  | CdevAdd u32 u32 int                        \<comment> \<open>device number, count; the result\<close>
  | DeviceCreate "u64 option" u32 string bool  \<comment> \<open>class, number, name; whether it was made\<close>
  | DeviceDestroy "u64 option" u32
  | ClassDestroy "u64 option"
  | UnregisterChrdevRegion u32 u32             \<comment> \<open>device number, count\<close>
  | WarnOn bool                                \<comment> \<open>\<open>WARN_ON\<close> with the value of its condition\<close>
  | InitWaitqueueHead
  | CreateFwspecMapping u32 u32                \<comment> \<open>hardware interrupt; its Linux number, 0 for none\<close>
  | RequestPercpuIrq u32 int                   \<comment> \<open>interrupt; the result\<close>
  | EnablePercpuIrq u32 nat                    \<comment> \<open>interrupt, on that CPU\<close>
  | DisablePercpuIrq u32 nat
  | FreePercpuIrq u32
  | IrqDisposeMapping u32

text \<open>The device-number macros of the kernel headers.\<close>

record kdev =
  MAJOR :: "u32 \<Rightarrow> u32"
  MKDEV :: "u32 \<Rightarrow> u32 \<Rightarrow> u32"
  MINORMASK :: u32

text \<open>
  What the kernel answers while a driver is loaded. \<open>alloc_chrdev_region\<close> writes the device
  number only where it succeeds; the variable is not initialised otherwise.
\<close>

record load_env =
  alloc_ret :: "u32 option"
  class_ret :: "u64 option"
  cdev_ret :: int
  device_ret :: bool

text \<open>The static variables of a driver that its removal reads.\<close>

record chardev =
  dev_major :: u32
  mychardev_class :: "u64 option"

definition read_var :: "'a option \<Rightarrow> 'a res" where
  "read_var v = (case v of None \<Rightarrow> Inl UninitRead | Some x \<Rightarrow> Inr x)"

lemma read_var_simps [simp]: "read_var None = Inl UninitRead" "read_var (Some x) = Inr x"
  by (simp_all add: read_var_def)

text \<open>The value Linux gives \<open>EINVAL\<close>.\<close>

definition EINVAL :: int where
  "EINVAL = 22"

section \<open>What a module still holds\<close>

text \<open>
  A ledger of the resources a trace of calls has taken and not given back, with what Linux
  documents of each call: a call that failed takes nothing; a range of device numbers is
  given back by its first number and its exact count only; a per-CPU interrupt handler is
  not removed while a CPU still has the interrupt enabled.
\<close>

record ledger =
  l_regions :: "(u32 \<times> u32) list"
  l_classes :: "u64 list"
  l_cdevs :: "u32 list"
  l_devices :: "(u64 \<times> u32) list"
  l_handlers :: "u32 list"
  l_mappings :: "u32 list"
  l_enabled :: "(u32 \<times> nat) list"

definition empty_ledger :: ledger where
  "empty_ledger = \<lparr>l_regions = [], l_classes = [], l_cdevs = [], l_devices = [],
     l_handlers = [], l_mappings = [], l_enabled = []\<rparr>"

fun ledger_step :: "kcall \<Rightarrow> ledger \<Rightarrow> ledger" where
  "ledger_step (AllocChrdevRegion _ n _ d) L = L\<lparr>l_regions := (d, n) # l_regions L\<rparr>"
| "ledger_step (UnregisterChrdevRegion d n) L = L\<lparr>l_regions := remove1 (d, n) (l_regions L)\<rparr>"
| "ledger_step (ClassCreate _ c) L =
     (case c of None \<Rightarrow> L | Some p \<Rightarrow> L\<lparr>l_classes := p # l_classes L\<rparr>)"
| "ledger_step (ClassDestroy c) L =
     (case c of None \<Rightarrow> L | Some p \<Rightarrow> L\<lparr>l_classes := remove1 p (l_classes L)\<rparr>)"
| "ledger_step (CdevAdd d _ r) L = (if r < 0 then L else L\<lparr>l_cdevs := d # l_cdevs L\<rparr>)"
| "ledger_step (DeviceCreate c d _ made) L =
     (case c of None \<Rightarrow> L | Some p \<Rightarrow> if made then L\<lparr>l_devices := (p, d) # l_devices L\<rparr> else L)"
| "ledger_step (DeviceDestroy c d) L =
     (case c of None \<Rightarrow> L | Some p \<Rightarrow> L\<lparr>l_devices := remove1 (p, d) (l_devices L)\<rparr>)"
| "ledger_step (RequestPercpuIrq i r) L =
     (if r < 0 then L else L\<lparr>l_handlers := i # l_handlers L\<rparr>)"
| "ledger_step (FreePercpuIrq i) L =
     (if i \<in> fst ` set (l_enabled L) then L else L\<lparr>l_handlers := remove1 i (l_handlers L)\<rparr>)"
| "ledger_step (CreateFwspecMapping _ i) L =
     (if i = 0 then L else L\<lparr>l_mappings := i # l_mappings L\<rparr>)"
| "ledger_step (IrqDisposeMapping i) L =
     (if i = 0 then L else L\<lparr>l_mappings := remove1 i (l_mappings L)\<rparr>)"
| "ledger_step (EnablePercpuIrq i c) L = L\<lparr>l_enabled := List.insert (i, c) (l_enabled L)\<rparr>"
| "ledger_step (DisablePercpuIrq i c) L = L\<lparr>l_enabled := removeAll (i, c) (l_enabled L)\<rparr>"
| "ledger_step CdevInit L = L"
| "ledger_step CdevSetOwner L = L"
| "ledger_step (WarnOn _) L = L"
| "ledger_step InitWaitqueueHead L = L"

definition ledger_of :: "kcall list \<Rightarrow> ledger \<Rightarrow> ledger" where
  "ledger_of tr L = fold ledger_step tr L"

lemma ledger_of_Nil [simp]: "ledger_of [] L = L"
  by (simp add: ledger_of_def)

lemma ledger_of_Cons [simp]: "ledger_of (c # tr) L = ledger_of tr (ledger_step c L)"
  by (simp add: ledger_of_def)

lemma ledger_of_append [simp]: "ledger_of (tr @ us) L = ledger_of us (ledger_of tr L)"
  by (simp add: ledger_of_def)

text \<open>
  The class a load creates is new: no device is listed under it. And no range of the odd
  length with which the drivers unregister theirs is registered.
\<close>

definition fresh_load :: "kdev \<Rightarrow> 'a load_env_scheme \<Rightarrow> ledger \<Rightarrow> bool" where
  "fresh_load D env L \<longleftrightarrow>
     (\<forall>p \<in> set_option (class_ret env). p \<notin> fst ` set (l_devices L)) \<and>
     MINORMASK D \<notin> snd ` set (l_regions L) \<and> MINORMASK D \<noteq> 1"

lemma remove1_head: "remove1 y (y # ys) = ys"
  by simp

lemma fresh_region:
  "fresh_load D env L \<Longrightarrow> remove1 (x, MINORMASK D) ((dev, 1) # l_regions L) = (dev, 1) # l_regions L"
  by (intro remove1_idem) (force simp: fresh_load_def)

lemma fresh_class:
  "fresh_load D env L \<Longrightarrow> class_ret env = Some p \<Longrightarrow> remove1 (p, x) (l_devices L) = l_devices L"
  by (intro remove1_idem) (force simp: fresh_load_def)

text \<open>Linux's device numbers, and a kernel that grants a given one.\<close>

definition linux_kdev :: kdev where
  "linux_kdev = \<lparr>MAJOR = drop_bit 20, MKDEV = (\<lambda>ma mi. push_bit 20 ma OR mi), MINORMASK = 0xFFFFF\<rparr>"

definition sample_load :: "u32 \<Rightarrow> int \<Rightarrow> load_env" where
  "sample_load dev r = \<lparr>alloc_ret = Some dev, class_ret = Some 0xFFFF8000, cdev_ret = r, device_ret = True\<rparr>"

section \<open>The contract of an ioctl entry point\<close>

text \<open>
  An ioctl entry point gets a command and an argument; what it does to the processor is
  appended to a list of effects. A supported command returns 0 and has exactly its own
  effect, any other is refused and has none.
\<close>

fun ioctl_all ::
  "(u32 \<Rightarrow> u64 \<Rightarrow> 'e list \<Rightarrow> int \<times> 'e list) \<Rightarrow> (u32 \<times> u64) list \<Rightarrow> 'e list \<Rightarrow> int list \<times> 'e list"
where
  "ioctl_all f [] es = ([], es)"
| "ioctl_all f ((c, a) # rs) es =
     (let (r, es1) = f c a es; (rets, es2) = ioctl_all f rs es1 in (r # rets, es2))"

locale ioctl_device =
  fixes ioctl :: "u32 \<Rightarrow> u64 \<Rightarrow> 'e list \<Rightarrow> int \<times> 'e list"
    and supported :: "u32 \<Rightarrow> bool"
    and effect :: "u32 \<Rightarrow> u64 \<Rightarrow> 'e"
  assumes ioctl_supported: "supported c \<Longrightarrow> ioctl c a es = (0, es @ [effect c a])"
    and ioctl_refused: "\<not> supported c \<Longrightarrow> ioctl c a es = (- EINVAL, es)"
begin

lemma ioctl_eq:
  "ioctl c a es = (if supported c then (0, es @ [effect c a]) else (- EINVAL, es))"
  by (simp add: ioctl_supported ioctl_refused)

lemma ioctl_ret_zero: "fst (ioctl c a es) = 0 \<longleftrightarrow> supported c"
  by (simp add: ioctl_eq EINVAL_def)

lemma ioctl_all_effects:
  "snd (ioctl_all ioctl rs es) =
     es @ map (\<lambda>(c, a). effect c a) (filter (\<lambda>(c, a). supported c) rs)"
  by (induction rs arbitrary: es) (auto simp: ioctl_eq case_prod_unfold Let_def)

lemma ioctl_all_rets:
  "fst (ioctl_all ioctl rs es) = map (\<lambda>(c, a). if supported c then 0 else - EINVAL) rs"
  by (induction rs arbitrary: es) (auto simp: ioctl_eq case_prod_unfold Let_def)

end

end
