(* ===== verification/EnzianMemory.thy ===== *)
theory EnzianMemory
  imports DeviceModel
begin

text \<open>
  The driver \<open>enzian_memory.c\<close> of \<open>/dev/fpgamem\<close>: the L2-cache ioctls, the mmap and
  huge-page fault path that maps the FPGA memory, and module load and removal.
\<close>

section \<open>L2 cache control\<close>

text \<open>One \<open>sys #op1, Cn, Cm, #op2, Xt\<close> instruction with the value in its register.\<close>

datatype sys_insn = SYS (op1: nat) (crn: nat) (crm: nat) (op2: nat) (xt: u64)

definition enzian_memory_ioctl :: "u32 \<Rightarrow> u64 \<Rightarrow> sys_insn list \<Rightarrow> int \<times> sys_insn list" where
  "enzian_memory_ioctl cmd arg es =
     (if cmd = 0 then (0, es @ [SYS 0 11 0 5 arg])
      else if cmd = 1 then (0, es @ [SYS 0 11 0 6 arg])
      else if cmd = 2 then (0, es @ [SYS 0 11 0 7 arg])
      else if cmd = 3 then (0, es @ [SYS 0 11 1 0 arg])
      else if cmd = 4 then (0, es @ [SYS 0 11 1 1 arg])
      else if cmd = 5 then (0, es @ [SYS 0 11 1 2 arg])
      else if cmd = 6 then (0, es @ [SYS 0 11 1 3 arg])
      else if cmd = 7 then (0, es @ [SYS 0 11 1 4 arg])
      else if cmd = 8 then (0, es @ [SYS 0 11 1 5 arg])
      else if cmd = 9 then (0, es @ [SYS 0 11 1 6 arg])
      else if cmd = 10 then (0, es @ [SYS 0 11 2 0 arg])
      else (- EINVAL, es))"

text \<open>
  The contract of the switch: which commands there are, and where each lands in the
  (CRm, op2) plane of the implementation-defined \<open>sys #0, c11\<close> space.
\<close>

definition l2_supported :: "u32 \<Rightarrow> bool" where
  "l2_supported cmd \<longleftrightarrow> cmd \<le> 10"

definition l2_slot :: "u32 \<Rightarrow> nat" where
  "l2_slot cmd = (if cmd = 10 then 16 else unat cmd + 5)"

definition l2_effect :: "u32 \<Rightarrow> u64 \<Rightarrow> sys_insn" where
  "l2_effect cmd arg = SYS 0 11 (l2_slot cmd div 8) (l2_slot cmd mod 8) arg"

lemma u32_le_10: "(cmd :: u32) \<le> 10 \<longleftrightarrow>
    cmd = 0 \<or> cmd = 1 \<or> cmd = 2 \<or> cmd = 3 \<or> cmd = 4 \<or> cmd = 5 \<or> cmd = 6 \<or> cmd = 7 \<or>
    cmd = 8 \<or> cmd = 9 \<or> cmd = 10"
proof
  assume "cmd \<le> 10"
  then have "unat cmd \<le> 10"
    by (simp add: word_le_nat_alt)
  then have "unat cmd = 0 \<or> unat cmd = 1 \<or> unat cmd = 2 \<or> unat cmd = 3 \<or> unat cmd = 4 \<or>
      unat cmd = 5 \<or> unat cmd = 6 \<or> unat cmd = 7 \<or> unat cmd = 8 \<or> unat cmd = 9 \<or>
      unat cmd = 10"
    by arith
  then show "cmd = 0 \<or> cmd = 1 \<or> cmd = 2 \<or> cmd = 3 \<or> cmd = 4 \<or> cmd = 5 \<or> cmd = 6 \<or> cmd = 7 \<or>
    cmd = 8 \<or> cmd = 9 \<or> cmd = 10"
    by (simp add: word_unat_eq_iff)
qed auto

interpretation l2: ioctl_device enzian_memory_ioctl l2_supported l2_effect
proof
  show "l2_supported c \<Longrightarrow> enzian_memory_ioctl c a es = (0, es @ [l2_effect c a])" for c a es
    unfolding l2_supported_def u32_le_10
    by (elim disjE) (simp_all add: enzian_memory_ioctl_def l2_effect_def l2_slot_def)
  show "\<not> l2_supported c \<Longrightarrow> enzian_memory_ioctl c a es = (- EINVAL, es)" for c a es
    unfolding l2_supported_def u32_le_10
    by (simp add: enzian_memory_ioctl_def)
qed

lemma l2_slot_bounds: "l2_supported cmd \<Longrightarrow> 5 \<le> l2_slot cmd \<and> l2_slot cmd \<le> 16"
  unfolding l2_supported_def u32_le_10 by (elim disjE) (simp_all add: l2_slot_def)

lemma l2_slot_inj:
  assumes "l2_supported c" and "l2_supported d" and "l2_slot c = l2_slot d"
  shows "c = d"
proof -
  have "unat c \<le> 10" and "unat d \<le> 10"
    using assms(1,2) by (simp_all add: l2_supported_def word_le_nat_alt)
  moreover have "c = 10 \<longleftrightarrow> unat c = 10" and "d = 10 \<longleftrightarrow> unat d = 10"
    by (simp_all add: word_unat_eq_iff)
  ultimately have "unat c = unat d"
    using assms(3) by (simp add: l2_slot_def split: if_splits)
  then show ?thesis by (simp add: word_unat_eq_iff)
qed

text \<open>
  C25: on every sequence of ioctl requests the driver executes exactly the cache instructions
  of the supported commands (0 to 10), in order and with their arguments, and answers 0 to
  them and \<open>-EINVAL\<close> to every other request.
\<close>

theorem ioctl_sequence_exact:
  "ioctl_all enzian_memory_ioctl rs es =
     (map (\<lambda>(c, a). if l2_supported c then 0 else - EINVAL) rs,
      es @ map (\<lambda>(c, a). l2_effect c a) (filter (\<lambda>(c, a). l2_supported c) rs))"
  by (rule prod_eqI) (simp_all add: l2.ioctl_all_effects l2.ioctl_all_rets)

text \<open>
  No two supported commands issue the same instruction encoding, so each L2 operation
  is reachable by one command number only.
\<close>

lemma ioctl_encoding_injective:
  assumes "snd (enzian_memory_ioctl c a es) = snd (enzian_memory_ioctl d b es)"
    and "fst (enzian_memory_ioctl c a es) = 0" and "fst (enzian_memory_ioctl d b es) = 0"
  shows "c = d \<and> a = b"
proof -
  from assms(2,3) have sup: "l2_supported c" "l2_supported d"
    by (simp_all add: l2.ioctl_ret_zero)
  with assms(1) have eq: "l2_effect c a = l2_effect d b"
    by (simp add: l2.ioctl_supported)
  then have "l2_slot c div 8 = l2_slot d div 8" and "l2_slot c mod 8 = l2_slot d mod 8"
    by (simp_all add: l2_effect_def)
  then have "l2_slot c = l2_slot d"
    by (metis div_mod_decomp)
  with sup eq show ?thesis
    by (auto simp: l2_effect_def dest: l2_slot_inj)
qed

section \<open>The fault handlers\<close>

text \<open>
  \<open>struct vm_fault\<close>: the fields the driver and the kernel helpers it calls read. The fault
  size comes as an order from Linux 6.6 on and as an enum before.
\<close>

record vm_fault =
  pgoff :: u64
  address :: u64

datatype page_entry_size = PE_SIZE_PTE | PE_SIZE_PMD | PE_SIZE_PUD

datatype fault_size = Order u32 | PeSize page_entry_size

text \<open>
  The memory-management side of the kernel: its constants, the configuration switch
  \<open>CONFIG_HAVE_ARCH_TRANSPARENT_HUGEPAGE_PUD\<close>, and the helpers called on its page
  tables (of type \<open>'k\<close>) with page-frame values (of type \<open>'p\<close>).
\<close>

record ('k, 'p) kernel_mm =
  PAGE_SHIFT :: nat
  PMD_ORDER :: u32
  CONFIG_HAVE_PUD :: bool
  VM_FAULT_SIGBUS :: u32
  VM_FAULT_NOPAGE :: u32
  PFN_DEV_MAP :: u64
  phys_to_pfn_t :: "u64 \<Rightarrow> u64 \<Rightarrow> 'p"
  vmf_insert_pfn_pmd :: "'k \<Rightarrow> vm_fault \<Rightarrow> 'p \<Rightarrow> bool \<Rightarrow> u32 \<times> 'k"
  vmf_insert_pfn_pud :: "'k \<Rightarrow> vm_fault \<Rightarrow> 'p \<Rightarrow> bool \<Rightarrow> u32 \<times> 'k"
  pud_valid :: "'k \<Rightarrow> vm_fault \<Rightarrow> bool"

definition FPGA_MEMORY_ADDRESS :: u64 where
  "FPGA_MEMORY_ADDRESS = 0x10000000000"

text \<open>The driver's view of the kernel state, with a trace of what it does to it.\<close>

datatype 'p mm_event =
    MutexLock | MutexUnlock | PrErr string
  | InsertPmd vm_fault 'p | InsertPud vm_fault 'p

record ('k, 'p) mm_state =
  ptables :: 'k
  mm_trace :: "'p mm_event list"

definition mm_log :: "'p mm_event \<Rightarrow> ('k, 'p) mm_state \<Rightarrow> ('k, 'p) mm_state" where
  "mm_log e st = st\<lparr>mm_trace := mm_trace st @ [e]\<rparr>"

definition enzian_memory_fault :: "('k, 'p) kernel_mm \<Rightarrow> vm_fault \<Rightarrow> u32" where
  "enzian_memory_fault K vmf = VM_FAULT_SIGBUS K"

definition fault_phys :: "('k, 'p) kernel_mm \<Rightarrow> vm_fault \<Rightarrow> u64" where
  "fault_phys K vmf = FPGA_MEMORY_ADDRESS + push_bit (PAGE_SHIFT K) (pgoff vmf)"

definition fault_pfn :: "('k, 'p) kernel_mm \<Rightarrow> vm_fault \<Rightarrow> 'p" where
  "fault_pfn K vmf = phys_to_pfn_t K (fault_phys K vmf) (PFN_DEV_MAP K)"

definition enzian_memory_pmd_fault ::
  "('k, 'p) kernel_mm \<Rightarrow> vm_fault \<Rightarrow> ('k, 'p) mm_state \<Rightarrow> u32 \<times> ('k, 'p) mm_state" where
  "enzian_memory_pmd_fault K vmf st =
     (let pfn = fault_pfn K vmf;
          (r, k) = vmf_insert_pfn_pmd K (ptables st) vmf pfn True
      in (r, mm_log (InsertPmd vmf pfn) (st\<lparr>ptables := k\<rparr>)))"

definition enzian_memory_pud_fault ::
  "('k, 'p) kernel_mm \<Rightarrow> vm_fault \<Rightarrow> ('k, 'p) mm_state \<Rightarrow> u32 \<times> ('k, 'p) mm_state" where
  "enzian_memory_pud_fault K vmf st =
     (let pfn = fault_pfn K vmf
      in if \<not> pud_valid K (ptables st) vmf
         then (let (r, k) = vmf_insert_pfn_pud K (ptables st) vmf pfn True
               in (r, mm_log (InsertPud vmf pfn) (st\<lparr>ptables := k\<rparr>)))
         else (0, st))"

definition is_pmd_size :: "('k, 'p) kernel_mm \<Rightarrow> fault_size \<Rightarrow> bool" where
  "is_pmd_size K sz = (case sz of Order n \<Rightarrow> n = PMD_ORDER K | PeSize p \<Rightarrow> p = PE_SIZE_PMD)"

definition enzian_memory_huge_fault ::
  "('k, 'p) kernel_mm \<Rightarrow> vm_fault \<Rightarrow> fault_size \<Rightarrow> ('k, 'p) mm_state \<Rightarrow> u32 \<times> ('k, 'p) mm_state"
where
  "enzian_memory_huge_fault K vmf sz st =
     (let st = mm_log MutexLock st;
          (r, st) =
            (if is_pmd_size K sz then enzian_memory_pmd_fault K vmf st
             else if CONFIG_HAVE_PUD K then enzian_memory_pud_fault K vmf st
             else (VM_FAULT_SIGBUS K, mm_log (PrErr ''Unsupported page size!'') st))
      in (r, mm_log MutexUnlock st))"

subsection \<open>What one fault does\<close>

lemmas fault_defs = enzian_memory_huge_fault_def enzian_memory_pmd_fault_def
  enzian_memory_pud_fault_def mm_log_def

text \<open>
  The value the handler returns and the page tables it leaves, on every branch. SIGBUS is
  the driver's own answer exactly when 1 GB pages are asked for and not configured.
\<close>

lemma huge_fault_result:
  "(fst (enzian_memory_huge_fault K vmf sz st),
    ptables (snd (enzian_memory_huge_fault K vmf sz st))) =
   (if is_pmd_size K sz then vmf_insert_pfn_pmd K (ptables st) vmf (fault_pfn K vmf) True
    else if \<not> CONFIG_HAVE_PUD K then (VM_FAULT_SIGBUS K, ptables st)
    else if pud_valid K (ptables st) vmf then (0, ptables st)
    else vmf_insert_pfn_pud K (ptables st) vmf (fault_pfn K vmf) True)"
  by (simp add: fault_defs Let_def split: prod.splits)

subsection \<open>The physical address\<close>

lemma unat_push_bit_12:
  fixes p :: u64
  assumes "unat p < 2 ^ 52"
  shows "unat (push_bit 12 p) = 4096 * unat p"
proof -
  have "unat (push_bit 12 p) = (2 ^ 12 * unat p) mod 2 ^ 64"
    by (simp add: push_bit_eq_mult unat_mult_lem unat_word_ariths mult.commute)
  also have "\<dots> = 4096 * unat p"
    using assms by simp
  finally show ?thesis .
qed

lemma unat_fault_phys:
  assumes "PAGE_SHIFT K = 12" and "unat (pgoff vmf) < 2 ^ 51"
  shows "unat (fault_phys K vmf) = 2 ^ 40 + 4096 * unat (pgoff vmf)"
proof -
  have p: "unat (push_bit 12 (pgoff vmf)) = 4096 * unat (pgoff vmf)"
    using assms(2) by (intro unat_push_bit_12) simp
  have "unat (fault_phys K vmf) = (2 ^ 40 + 4096 * unat (pgoff vmf)) mod 2 ^ 64"
    by (simp add: fault_phys_def FPGA_MEMORY_ADDRESS_def assms(1) unat_word_ariths p)
  then show ?thesis using assms(2) by simp
qed

text \<open>
  C32: with 4 KB pages, for every page offset a file offset can produce, the address handed
  to the page tables is the FPGA base plus the byte offset without wrap-around, and it lies in
  the 1 TB FPGA window exactly when the page offset is below \<open>2 ^ 28\<close>. The driver has no test for
  that bound, so a mapping longer than 1 TB reaches beyond the FPGA memory.
\<close>

theorem fault_phys_window:
  assumes "PAGE_SHIFT K = 12" and "unat (pgoff vmf) < 2 ^ 51"
  shows "unat (fault_phys K vmf) = unat FPGA_MEMORY_ADDRESS + 4096 * unat (pgoff vmf) \<and>
    (unat (fault_phys K vmf) < unat FPGA_MEMORY_ADDRESS + 2 ^ 40 \<longleftrightarrow> unat (pgoff vmf) < 2 ^ 28)"
  using unat_fault_phys [OF assms] by (simp add: FPGA_MEMORY_ADDRESS_def)

text \<open>
  C33: the address inserted for a 1 GB entry is 1 GB aligned exactly when the faulting page is
  the first of its gigabyte: the handlers pass the page offset of the faulting page on and do
  not round it down to the entry's size. Below the gigabyte, the address keeps the page's
  own offset.
\<close>

theorem fault_phys_alignment:
  assumes "PAGE_SHIFT K = 12" and "unat (pgoff vmf) < 2 ^ 51"
  shows "unat (fault_phys K vmf) mod 2 ^ 30 = 4096 * (unat (pgoff vmf) mod 2 ^ 18) \<and>
    (2 ^ 30 dvd unat (fault_phys K vmf) \<longleftrightarrow> 2 ^ 18 dvd unat (pgoff vmf))"
proof -
  have "unat (fault_phys K vmf) mod 2 ^ 30 = (4096 * unat (pgoff vmf)) mod (4096 * 2 ^ 18)"
    by (simp add: unat_fault_phys [OF assms] mod_add_left_eq [symmetric] mod_add_eq)
  then have "unat (fault_phys K vmf) mod 2 ^ 30 = 4096 * (unat (pgoff vmf) mod 2 ^ 18)"
    by (simp only: mult_mod_right)
  then show ?thesis
    by (simp add: dvd_eq_mod_eq_0)
qed

subsection \<open>Concurrent faults\<close>

text \<open>
  Several CPUs fault at once. A CPU takes a fault, blocks on the mutex, and inside it tests
  and inserts in separate steps, as \<open>enzian_memory_pud_fault\<close> does. \<open>installed\<close> is a
  ghost field: the faults for which a 1 GB insertion reported success.
\<close>

datatype fault_pc =
    FIdle
  | FLock vm_fault fault_size
  | FHeld vm_fault fault_size
  | FInsert vm_fault
  | FUnlock vm_fault u32

record 'k smp =
  spt :: 'k
  owner :: "nat option"
  pcs :: "nat \<Rightarrow> fault_pc"
  installed :: "vm_fault list"

definition smp_init :: "'k \<Rightarrow> 'k smp \<Rightarrow> bool" where
  "smp_init k s \<longleftrightarrow> s = \<lparr>spt = k, owner = None, pcs = (\<lambda>_. FIdle), installed = []\<rparr>"

inductive fault_step :: "('k, 'p) kernel_mm \<Rightarrow> 'k smp \<Rightarrow> 'k smp \<Rightarrow> bool"
  for K :: "('k, 'p) kernel_mm" where
  take: "pcs s i = FIdle \<Longrightarrow> fault_step K s (s\<lparr>pcs := (pcs s)(i := FLock vmf sz)\<rparr>)"
| lock: "pcs s i = FLock vmf sz \<Longrightarrow> owner s = None \<Longrightarrow>
    fault_step K s (s\<lparr>pcs := (pcs s)(i := FHeld vmf sz), owner := Some i\<rparr>)"
| pmd: "pcs s i = FHeld vmf sz \<Longrightarrow> is_pmd_size K sz \<Longrightarrow>
    vmf_insert_pfn_pmd K (spt s) vmf (fault_pfn K vmf) True = (r, k) \<Longrightarrow>
    fault_step K s (s\<lparr>spt := k, pcs := (pcs s)(i := FUnlock vmf r)\<rparr>)"
| unsupported: "pcs s i = FHeld vmf sz \<Longrightarrow> \<not> is_pmd_size K sz \<Longrightarrow> \<not> CONFIG_HAVE_PUD K \<Longrightarrow>
    fault_step K s (s\<lparr>pcs := (pcs s)(i := FUnlock vmf (VM_FAULT_SIGBUS K))\<rparr>)"
| pud_present: "pcs s i = FHeld vmf sz \<Longrightarrow> \<not> is_pmd_size K sz \<Longrightarrow> CONFIG_HAVE_PUD K \<Longrightarrow>
    pud_valid K (spt s) vmf \<Longrightarrow>
    fault_step K s (s\<lparr>pcs := (pcs s)(i := FUnlock vmf 0)\<rparr>)"
| pud_absent: "pcs s i = FHeld vmf sz \<Longrightarrow> \<not> is_pmd_size K sz \<Longrightarrow> CONFIG_HAVE_PUD K \<Longrightarrow>
    \<not> pud_valid K (spt s) vmf \<Longrightarrow>
    fault_step K s (s\<lparr>pcs := (pcs s)(i := FInsert vmf)\<rparr>)"
| pud_insert: "pcs s i = FInsert vmf \<Longrightarrow>
    vmf_insert_pfn_pud K (spt s) vmf (fault_pfn K vmf) True = (r, k) \<Longrightarrow>
    fault_step K s (s\<lparr>spt := k, pcs := (pcs s)(i := FUnlock vmf r),
      installed := (if r = VM_FAULT_NOPAGE K then installed s @ [vmf] else installed s)\<rparr>)"
| unlock: "pcs s i = FUnlock vmf r \<Longrightarrow>
    fault_step K s (s\<lparr>pcs := (pcs s)(i := FIdle), owner := None\<rparr>)"

text \<open>
  What the kernel documents of the page-table helpers, as long as nothing is unmapped: an
  entry is valid per slot (the gigabyte the address falls in), a 1 GB insertion that returns
  \<open>VM_FAULT_NOPAGE\<close> leaves its slot valid, and no insertion invalidates a slot.
\<close>

definition pud_laws :: "('k, 'p) kernel_mm \<Rightarrow> (vm_fault \<Rightarrow> 's) \<Rightarrow> bool" where
  "pud_laws K slot \<longleftrightarrow>
     (\<forall>k v w. slot v = slot w \<longrightarrow> pud_valid K k v = pud_valid K k w) \<and>
     (\<forall>k v p b k'. vmf_insert_pfn_pud K k v p b = (VM_FAULT_NOPAGE K, k') \<longrightarrow> pud_valid K k' v) \<and>
     (\<forall>k v p b r k' w. vmf_insert_pfn_pud K k v p b = (r, k') \<longrightarrow> pud_valid K k w \<longrightarrow> pud_valid K k' w) \<and>
     (\<forall>k v p b r k' w. vmf_insert_pfn_pmd K k v p b = (r, k') \<longrightarrow> pud_valid K k w \<longrightarrow> pud_valid K k' w)"

definition in_section :: "fault_pc \<Rightarrow> bool" where
  "in_section pc \<longleftrightarrow> (case pc of FIdle \<Rightarrow> False | FLock _ _ \<Rightarrow> False | _ \<Rightarrow> True)"

definition mutex_inv :: "'k smp \<Rightarrow> bool" where
  "mutex_inv s \<longleftrightarrow> (\<forall>i. in_section (pcs s i) \<longleftrightarrow> owner s = Some i)"

definition insert_inv :: "('k, 'p) kernel_mm \<Rightarrow> (vm_fault \<Rightarrow> 's) \<Rightarrow> 'k smp \<Rightarrow> bool" where
  "insert_inv K slot s \<longleftrightarrow>
     (\<forall>i vmf. pcs s i = FInsert vmf \<longrightarrow> \<not> pud_valid K (spt s) vmf) \<and>
     (\<forall>v \<in> set (installed s). pud_valid K (spt s) v) \<and>
     distinct (map slot (installed s))"

definition fault_inv :: "('k, 'p) kernel_mm \<Rightarrow> (vm_fault \<Rightarrow> 's) \<Rightarrow> 'k smp \<Rightarrow> bool" where
  "fault_inv K slot s \<longleftrightarrow> mutex_inv s \<and> (pud_laws K slot \<longrightarrow> insert_inv K slot s)"

lemma in_section_simps [simp]:
  "\<not> in_section FIdle" "\<not> in_section (FLock v z)" "in_section (FHeld v z)"
  "in_section (FInsert v)" "in_section (FUnlock v r)"
  by (simp_all add: in_section_def)

lemma pud_laws_slot:
  "pud_laws K slot \<Longrightarrow> slot v = slot w \<Longrightarrow> pud_valid K k v \<Longrightarrow> pud_valid K k w"
  unfolding pud_laws_def by metis

lemma pud_laws_own:
  "pud_laws K slot \<Longrightarrow> vmf_insert_pfn_pud K k v p b = (VM_FAULT_NOPAGE K, k') \<Longrightarrow>
    pud_valid K k' v"
  unfolding pud_laws_def by blast

lemma pud_laws_keep:
  "pud_laws K slot \<Longrightarrow> vmf_insert_pfn_pud K k v p b = (r, k') \<Longrightarrow> pud_valid K k w \<Longrightarrow>
    pud_valid K k' w"
  unfolding pud_laws_def by blast

lemma pmd_laws_keep:
  "pud_laws K slot \<Longrightarrow> vmf_insert_pfn_pmd K k v p b = (r, k') \<Longrightarrow> pud_valid K k w \<Longrightarrow>
    pud_valid K k' w"
  unfolding pud_laws_def by blast

lemma mutex_inv_keep:
  assumes "mutex_inv s" and "\<And>j. in_section (pcs t j) = in_section (pcs s j)"
    and "owner t = owner s"
  shows "mutex_inv t"
  using assms by (simp add: mutex_inv_def)

lemma mutex_inv_lock:
  assumes "mutex_inv s" and "owner s = None" and "in_section pc"
  shows "mutex_inv (s\<lparr>pcs := (pcs s)(i := pc), owner := Some i\<rparr>)"
  using assms by (simp add: mutex_inv_def)

lemma mutex_inv_unlock:
  assumes "mutex_inv s" and "in_section (pcs s i)"
  shows "mutex_inv (s\<lparr>pcs := (pcs s)(i := FIdle), owner := None\<rparr>)"
proof -
  from assms have "owner s = Some i" by (simp add: mutex_inv_def)
  with assms(1) show ?thesis by (simp add: mutex_inv_def)
qed

lemma mutex_inv_step: "fault_step K s t \<Longrightarrow> mutex_inv s \<Longrightarrow> mutex_inv t"
proof (induction rule: fault_step.induct)
  case lock
  then show ?case by (simp add: mutex_inv_lock)
next
  case unlock
  then show ?case by (simp add: mutex_inv_unlock)
qed (erule mutex_inv_keep; simp)+

lemma only_inserter:
  assumes "mutex_inv s" and "in_section (pcs s i)" and "pcs s j = FInsert w"
  shows "j = i"
proof -
  from assms(3) have "in_section (pcs s j)" by simp
  with assms(1,2) show ?thesis by (simp add: mutex_inv_def)
qed

lemma insert_inv_frame:
  assumes "insert_inv K slot s" and "spt t = spt s" and "installed t = installed s"
    and "\<And>i vmf. pcs t i = FInsert vmf \<Longrightarrow> pcs s i = FInsert vmf \<or> \<not> pud_valid K (spt s) vmf"
  shows "insert_inv K slot t"
  using assms unfolding insert_inv_def by metis

lemma insert_inv_pmd:
  assumes inv: "insert_inv K slot s" and mutex: "mutex_inv s" and laws: "pud_laws K slot"
    and pc: "pcs s i = FHeld vmf sz"
    and ins: "vmf_insert_pfn_pmd K (spt s) vmf p b = (r, k)"
  shows "insert_inv K slot (s\<lparr>spt := k, pcs := (pcs s)(i := FUnlock vmf r)\<rparr>)"
proof -
  have "pcs s j \<noteq> FInsert w" for j w
    using only_inserter [OF mutex, of i j w] pc by auto
  moreover have "pud_valid K k v" if "v \<in> set (installed s)" for v
    using that inv pmd_laws_keep [OF laws ins] by (simp add: insert_inv_def)
  ultimately show ?thesis
    using inv by (simp add: insert_inv_def)
qed

lemma insert_inv_pud:
  assumes inv: "insert_inv K slot s" and mutex: "mutex_inv s" and laws: "pud_laws K slot"
    and pc: "pcs s i = FInsert vmf"
    and ins: "vmf_insert_pfn_pud K (spt s) vmf p b = (r, k)"
  shows "insert_inv K slot (s\<lparr>spt := k, pcs := (pcs s)(i := FUnlock vmf r),
    installed := (if r = VM_FAULT_NOPAGE K then installed s @ [vmf] else installed s)\<rparr>)"
proof -
  have other: "pcs s j \<noteq> FInsert w" if "j \<noteq> i" for j w
    using only_inserter [OF mutex, of i j w] pc that by auto
  have keep: "pud_valid K k v" if "v \<in> set (installed s)" for v
    using that inv pud_laws_keep [OF laws ins] by (simp add: insert_inv_def)
  have new: "slot vmf \<notin> slot ` set (installed s)"
  proof
    assume "slot vmf \<in> slot ` set (installed s)"
    then obtain v where v: "v \<in> set (installed s)" and "slot v = slot vmf"
      by auto
    then have "pud_valid K (spt s) vmf"
      using inv pud_laws_slot [OF laws, of v vmf] by (simp add: insert_inv_def)
    with inv pc show False by (simp add: insert_inv_def)
  qed
  show ?thesis
  proof (cases "r = VM_FAULT_NOPAGE K")
    case True
    with ins have "pud_valid K k vmf"
      using pud_laws_own [OF laws] by simp
    with True inv keep new other show ?thesis by (simp add: insert_inv_def)
  next
    case False
    with inv keep other show ?thesis by (simp add: insert_inv_def)
  qed
qed

lemma insert_inv_step:
  assumes "fault_step K s t" and "mutex_inv s" and "pud_laws K slot" and "insert_inv K slot s"
  shows "insert_inv K slot t"
  using assms
proof (induction rule: fault_step.induct)
  case pmd
  then show ?case by (blast intro: insert_inv_pmd)
next
  case pud_insert
  then show ?case by (blast intro: insert_inv_pud)
qed (erule insert_inv_frame; simp split: if_splits)+

interpretation fault_sys: transition_system "smp_init k" "fault_step K" "fault_inv K slot"
  for k K slot
proof
  show "smp_init k s \<Longrightarrow> fault_inv K slot s" for s
    by (simp add: smp_init_def fault_inv_def mutex_inv_def insert_inv_def)
  show "fault_inv K slot s \<Longrightarrow> fault_step K s t \<Longrightarrow> fault_inv K slot t" for s t
    unfolding fault_inv_def by (blast intro: mutex_inv_step insert_inv_step)
qed

text \<open>
  C17: mutual exclusion. In every reachable state of any number of CPUs faulting at once, at
  most one of them is between \<open>mutex_lock\<close> and \<open>mutex_unlock\<close>.
\<close>

theorem fault_mutual_exclusion:
  assumes "reach (smp_init k) (fault_step K) s"
    and "in_section (pcs s i)" and "in_section (pcs s j)"
  shows "i = j"
proof -
  from assms(1) have "mutex_inv s"
    using fault_sys.reach_inv [of k K s] by (auto simp: fault_inv_def)
  with assms(2,3) show ?thesis by (auto simp: mutex_inv_def)
qed

text \<open>
  C1: however the faults interleave, no gigabyte is installed twice: the test of
  \<open>pud_valid\<close> and the insertion are made under one hold of the mutex.
\<close>

theorem pud_installed_once:
  assumes "pud_laws K slot" and "reach (smp_init k) (fault_step K) s"
  shows "distinct (map slot (installed s))"
proof -
  from assms have "insert_inv K slot s"
    using fault_sys.reach_inv [of k K s slot] by (auto simp: fault_inv_def)
  then show ?thesis by (simp add: insert_inv_def)
qed

text \<open>
  What the whole system may do while CPU \<open>i\<close> stays between its lock and its unlock, and where
  that CPU then is: before its test, between test and insertion, or done with the outcome of
  the sequential handler.
\<close>

definition section_step :: "('k, 'p) kernel_mm \<Rightarrow> nat \<Rightarrow> 'k smp \<Rightarrow> 'k smp \<Rightarrow> bool" where
  "section_step K i s t \<longleftrightarrow> fault_step K s t \<and> in_section (pcs t i)"

definition handler_outcome :: "('k, 'p) kernel_mm \<Rightarrow> vm_fault \<Rightarrow> fault_size \<Rightarrow> 'k \<Rightarrow> u32 \<times> 'k" where
  "handler_outcome K vmf sz k =
     (let (r, st) = enzian_memory_huge_fault K vmf sz \<lparr>ptables = k, mm_trace = []\<rparr> in (r, ptables st))"

definition handler_phase ::
  "('k, 'p) kernel_mm \<Rightarrow> nat \<Rightarrow> vm_fault \<Rightarrow> fault_size \<Rightarrow> 'k \<Rightarrow> 'k smp \<Rightarrow> bool" where
  "handler_phase K i vmf sz k t \<longleftrightarrow>
     (case pcs t i of
        FHeld v z \<Rightarrow> v = vmf \<and> z = sz \<and> spt t = k
      | FInsert v \<Rightarrow> v = vmf \<and> spt t = k \<and>
          handler_outcome K vmf sz k = vmf_insert_pfn_pud K k vmf (fault_pfn K vmf) True
      | FUnlock v r \<Rightarrow> v = vmf \<and> handler_outcome K vmf sz k = (r, spt t)
      | _ \<Rightarrow> False)"

lemma handler_outcome_pmd:
  "is_pmd_size K sz \<Longrightarrow> handler_outcome K vmf sz k = vmf_insert_pfn_pmd K k vmf (fault_pfn K vmf) True"
  by (simp add: handler_outcome_def fault_defs Let_def split: prod.splits)

lemma handler_outcome_unsupported:
  "\<not> is_pmd_size K sz \<Longrightarrow> \<not> CONFIG_HAVE_PUD K \<Longrightarrow> handler_outcome K vmf sz k = (VM_FAULT_SIGBUS K, k)"
  by (simp add: handler_outcome_def fault_defs Let_def)

lemma handler_outcome_present:
  "\<not> is_pmd_size K sz \<Longrightarrow> CONFIG_HAVE_PUD K \<Longrightarrow> pud_valid K k vmf \<Longrightarrow>
    handler_outcome K vmf sz k = (0, k)"
  by (simp add: handler_outcome_def fault_defs Let_def)

lemma handler_outcome_absent:
  "\<not> is_pmd_size K sz \<Longrightarrow> CONFIG_HAVE_PUD K \<Longrightarrow> \<not> pud_valid K k vmf \<Longrightarrow>
    handler_outcome K vmf sz k = vmf_insert_pfn_pud K k vmf (fault_pfn K vmf) True"
  by (simp add: handler_outcome_def fault_defs Let_def split: prod.splits)

lemmas handler_outcomes = handler_outcome_pmd handler_outcome_unsupported
  handler_outcome_present handler_outcome_absent

text \<open>While a CPU is inside, every other CPU can at most take a fault and queue for the lock.\<close>

lemma handler_phase_frame:
  "handler_phase K i vmf sz k s \<Longrightarrow> pcs t i = pcs s i \<Longrightarrow> spt t = spt s \<Longrightarrow> handler_phase K i vmf sz k t"
  by (simp add: handler_phase_def split: fault_pc.splits)

lemma handler_phase_in_section: "handler_phase K i vmf sz k s \<Longrightarrow> in_section (pcs s i)"
  by (cases "pcs s i") (simp_all add: handler_phase_def)

lemma section_owner:
  "mutex_inv s \<Longrightarrow> in_section (pcs s i) \<Longrightarrow> owner s = Some i"
  by (simp add: mutex_inv_def)

lemma section_actor:
  "mutex_inv s \<Longrightarrow> in_section (pcs s i) \<Longrightarrow> pcs s j = pc \<Longrightarrow> in_section pc \<Longrightarrow> j = i"
  using section_owner [of s i] section_owner [of s j] by simp

lemma handler_phase_step:
  assumes "section_step K i s t" and mutex: "mutex_inv s" and phase: "handler_phase K i vmf sz k s"
  shows "handler_phase K i vmf sz k t"
proof -
  note inside = handler_phase_in_section [OF phase]
  note actor = section_actor [OF mutex inside]
  from assms(1) have "fault_step K s t" and stays: "in_section (pcs t i)"
    by (simp_all add: section_step_def)
  then show ?thesis
  proof cases
    case (take j v z)
    with inside have "j \<noteq> i" by auto
    with take(1) show ?thesis by (intro handler_phase_frame [OF phase]) simp_all
  next
    case (lock j v z)
    with section_owner [OF mutex inside] show ?thesis by simp
  next
    case (pmd j v z r k')
    then have "j = i" using actor [of j] by simp
    with pmd phase show ?thesis by (simp add: handler_phase_def handler_outcomes)
  next
    case (unsupported j v z)
    then have "j = i" using actor [of j] by simp
    with unsupported phase show ?thesis by (simp add: handler_phase_def handler_outcomes)
  next
    case (pud_present j v z)
    then have "j = i" using actor [of j] by simp
    with pud_present phase show ?thesis by (simp add: handler_phase_def handler_outcomes)
  next
    case (pud_absent j v z)
    then have "j = i" using actor [of j] by simp
    with pud_absent phase show ?thesis by (simp add: handler_phase_def handler_outcomes)
  next
    case (pud_insert j v r k')
    then have "j = i" using actor [of j] by simp
    with pud_insert phase show ?thesis by (simp add: handler_phase_def)
  next
    case (unlock j v r)
    then have "j = i" using actor [of j] by simp
    with unlock stays show ?thesis by simp
  qed
qed

lemma handler_phase_run:
  "(section_step K i)\<^sup>*\<^sup>* s t \<Longrightarrow> mutex_inv s \<Longrightarrow> handler_phase K i vmf sz k s \<Longrightarrow>
    mutex_inv t \<and> handler_phase K i vmf sz k t"
  by (induction rule: rtranclp_induct)
    (auto intro: handler_phase_step mutex_inv_step simp: section_step_def)

lemma section_stepI: "fault_step K s t \<Longrightarrow> in_section (pcs t i) \<Longrightarrow> section_step K i s t"
  by (simp add: section_step_def)

text \<open>And the CPU can get to its unlock step without the help of any other.\<close>

lemma solo_body:
  assumes held: "pcs s i = FHeld vmf sz"
  shows "\<exists>t. (section_step K i)\<^sup>*\<^sup>* s t \<and> (\<exists>r. pcs t i = FUnlock vmf r)"
proof -
  obtain r k where pmd_rk: "vmf_insert_pfn_pmd K (spt s) vmf (fault_pfn K vmf) True = (r, k)"
    by fastforce
  obtain r' k' where pud_rk: "vmf_insert_pfn_pud K (spt s) vmf (fault_pfn K vmf) True = (r', k')"
    by fastforce
  consider (pmd) "is_pmd_size K sz"
    | (unsup) "\<not> is_pmd_size K sz" "\<not> CONFIG_HAVE_PUD K"
    | (present) "\<not> is_pmd_size K sz" "CONFIG_HAVE_PUD K" "pud_valid K (spt s) vmf"
    | (absent) "\<not> is_pmd_size K sz" "CONFIG_HAVE_PUD K" "\<not> pud_valid K (spt s) vmf"
    by blast
  then show ?thesis
  proof cases
    case pmd
    show ?thesis
      by (rule one_step_exI, rule section_stepI [OF fault_step.pmd [OF held pmd pmd_rk]]) simp_all
  next
    case unsup
    show ?thesis
      by (rule one_step_exI, rule section_stepI [OF fault_step.unsupported [OF held unsup]]) simp_all
  next
    case present
    show ?thesis
      by (rule one_step_exI, rule section_stepI [OF fault_step.pud_present [OF held present]]) simp_all
  next
    case absent
    define s1 where "s1 = s\<lparr>pcs := (pcs s)(i := FInsert vmf)\<rparr>"
    have first: "section_step K i s s1"
      using fault_step.pud_absent [OF held absent] by (simp add: section_step_def s1_def)
    have s1: "pcs s1 i = FInsert vmf"
      "vmf_insert_pfn_pud K (spt s1) vmf (fault_pfn K vmf) True = (r', k')"
      using pud_rk by (simp_all add: s1_def)
    show ?thesis
      by (rule two_step_exI, rule first, rule section_stepI [OF fault_step.pud_insert [OF s1]]) simp_all
  qed
qed

text \<open>
  C14: the handler is atomic. Let a CPU hold the lock for a fault in a reachable state of any
  number of CPUs. However the whole system goes on while that CPU stays inside its section,
  whenever the CPU stands at its unlock it returns what \<open>enzian_memory_huge_fault\<close> run in one
  piece on the page tables it found would return, and the page tables are the ones that
  function leaves; and such a run exists.
\<close>

theorem huge_fault_atomic:
  assumes "reach (smp_init k) (fault_step K) s" and "pcs s i = FHeld vmf sz"
  shows "(\<exists>t r. (section_step K i)\<^sup>*\<^sup>* s t \<and> pcs t i = FUnlock vmf r) \<and>
    (\<forall>t v r. (section_step K i)\<^sup>*\<^sup>* s t \<and> pcs t i = FUnlock v r \<longrightarrow>
      v = vmf \<and> (r, spt t) = handler_outcome K vmf sz (spt s))"
proof -
  have "mutex_inv s"
    using fault_sys.reach_inv [OF assms(1)] by (auto simp: fault_inv_def)
  moreover have "handler_phase K i vmf sz (spt s) s"
    using assms(2) by (simp add: handler_phase_def)
  ultimately have "v = vmf \<and> (r, spt t) = handler_outcome K vmf sz (spt s)"
    if "(section_step K i)\<^sup>*\<^sup>* s t" and "pcs t i = FUnlock v r" for t v r
    using handler_phase_run [OF that(1)] that(2) by (auto simp: handler_phase_def)
  with solo_body [OF assms(2)] show ?thesis by blast
qed

subsection \<open>A reference kernel\<close>

text \<open>
  Page tables as the list of valid gigabyte slots, with the constants of an arm64 kernel with
  4 KB pages: an instance of the parameters on which the statements above are exercised.
\<close>

definition reference_slot :: "vm_fault \<Rightarrow> u64" where
  "reference_slot v = drop_bit 30 (address v)"

definition reference_mm :: "(u64 list, u64) kernel_mm" where
  "reference_mm = \<lparr>PAGE_SHIFT = 12, PMD_ORDER = 9, CONFIG_HAVE_PUD = True,
     VM_FAULT_SIGBUS = 2, VM_FAULT_NOPAGE = 0x100, PFN_DEV_MAP = 0x3000000000000000,
     phys_to_pfn_t = (\<lambda>a f. drop_bit 12 a OR f),
     vmf_insert_pfn_pmd = (\<lambda>k v p w. (0x100, List.insert (reference_slot v) k)),
     vmf_insert_pfn_pud = (\<lambda>k v p w. (0x100, List.insert (reference_slot v) k)),
     pud_valid = (\<lambda>k v. reference_slot v \<in> set k)\<rparr>"

lemma reference_mm_laws: "pud_laws reference_mm reference_slot"
  by (auto simp: pud_laws_def reference_mm_def)

definition sample_fault :: vm_fault where
  "sample_fault = \<lparr>pgoff = 0x40000, address = 0x10040000000\<rparr>"

definition sample_smp :: "u64 list smp" where
  "sample_smp = \<lparr>spt = [0x401], owner = Some 3,
     pcs = (\<lambda>_. FIdle)(3 := FUnlock sample_fault 0x100), installed = [sample_fault]\<rparr>"

lemma sample_slot: "reference_slot sample_fault = 0x401"
  by (simp add: reference_slot_def sample_fault_def)

lemma sample_reach: "reach (smp_init []) (fault_step reference_mm) sample_smp"
proof -
  let ?s = "\<lambda>k ow pc ins. \<lparr>spt = k, owner = ow, pcs = (\<lambda>_. FIdle)(3 := pc), installed = ins\<rparr>"
  let ?R = "reach (smp_init ([] :: u64 list)) (fault_step reference_mm)"
  have "?R (?s [] None FIdle [])"
    by (rule reach_init) (simp add: smp_init_def fun_upd_idem)
  then have "?R (?s [] None (FLock sample_fault (Order 18)) [])"
    using take [of "?s [] None FIdle []" 3 reference_mm sample_fault "Order 18"]
    by (auto intro: reach_step)
  then have "?R (?s [] (Some 3) (FHeld sample_fault (Order 18)) [])"
    using lock [of "?s [] None (FLock sample_fault (Order 18)) []" 3 sample_fault "Order 18" reference_mm]
    by (auto intro: reach_step)
  then have "?R (?s [] (Some 3) (FInsert sample_fault) [])"
    using pud_absent [of "?s [] (Some 3) (FHeld sample_fault (Order 18)) []" 3 sample_fault "Order 18" reference_mm]
    by (auto intro: reach_step simp: is_pmd_size_def reference_mm_def)
  then have "?R (?s [0x401] (Some 3) (FUnlock sample_fault 0x100) [sample_fault])"
    using pud_insert [of "?s [] (Some 3) (FInsert sample_fault) []" 3 sample_fault reference_mm]
    by (auto intro: reach_step simp: reference_mm_def sample_slot)
  then show ?thesis by (simp add: sample_smp_def)
qed

theorem fault_mutual_exclusion_witness:
  "in_section (pcs sample_smp 3) \<and> (3 :: nat) = 3"
  using fault_mutual_exclusion [OF sample_reach, of 3 3] by (simp add: sample_smp_def)

theorem pud_installed_once_witness:
  "installed sample_smp = [sample_fault] \<and> distinct (map reference_slot (installed sample_smp))"
  using pud_installed_once [OF reference_mm_laws sample_reach] by (simp add: sample_smp_def)

theorem fault_phys_window_witness:
  "unat (fault_phys reference_mm sample_fault) = 0x10040000000"
  using fault_phys_window [of reference_mm sample_fault]
  by (simp add: reference_mm_def sample_fault_def FPGA_MEMORY_ADDRESS_def)

theorem fault_phys_alignment_witness:
  "(2 :: nat) ^ 30 dvd unat (fault_phys reference_mm sample_fault)"
  using fault_phys_alignment [of reference_mm sample_fault]
  by (simp add: reference_mm_def sample_fault_def)

text \<open>CPU 3 holds the lock for a fault in a gigabyte that is already mapped, CPU 5 waits.\<close>

definition contended_smp :: "u64 list smp" where
  "contended_smp = \<lparr>spt = [0x401], owner = Some 3,
     pcs = (\<lambda>_. FIdle)(5 := FLock sample_fault (Order 18), 3 := FHeld sample_fault (Order 18)),
     installed = []\<rparr>"

lemma contended_reach: "reach (smp_init [0x401]) (fault_step reference_mm) contended_smp"
proof -
  let ?s = "\<lambda>ow f. \<lparr>spt = [0x401], owner = ow, pcs = f, installed = []\<rparr>"
  let ?R = "reach (smp_init [0x401 :: u64]) (fault_step reference_mm)"
  let ?l = "FLock sample_fault (Order 18)"
  have "?R (?s None (\<lambda>_. FIdle))"
    by (rule reach_init) (simp add: smp_init_def)
  then have "?R (?s None ((\<lambda>_. FIdle)(5 := ?l)))"
    using take [of "?s None (\<lambda>_. FIdle)" 5 reference_mm sample_fault "Order 18"]
    by (auto intro: reach_step)
  then have "?R (?s None ((\<lambda>_. FIdle)(5 := ?l, 3 := ?l)))"
    using take [of "?s None ((\<lambda>_. FIdle)(5 := ?l))" 3 reference_mm sample_fault "Order 18"]
    by (auto intro: reach_step)
  then show ?thesis
    using lock [of "?s None ((\<lambda>_. FIdle)(5 := ?l, 3 := ?l))" 3 sample_fault "Order 18" reference_mm]
    by (auto intro: reach_step simp: contended_smp_def)
qed

theorem huge_fault_atomic_witness:
  "\<exists>t. (section_step reference_mm 3)\<^sup>*\<^sup>* contended_smp t \<and>
    pcs t 3 = FUnlock sample_fault 0 \<and> spt t = [0x401]"
proof -
  have "handler_outcome reference_mm sample_fault (Order 18) [0x401] = (0, [0x401])"
    by (rule handler_outcome_present) (simp_all add: is_pmd_size_def reference_mm_def sample_slot)
  then show ?thesis
    using huge_fault_atomic [OF contended_reach, of 3 sample_fault "Order 18"]
    by (auto simp: contended_smp_def)
qed

section \<open>File and mapping operations\<close>

text \<open>
  \<open>struct vm_area_struct\<close> and \<open>struct inode\<close>: the fields the driver writes. The flag values
  are the kernel's. A mapping is served by the driver's \<open>vm_operations_struct\<close> once
  \<open>enzian_memory_mmap\<close> has installed it, by none before.
\<close>

datatype vm_operations = NoVmOps | EnzianMemoryRemapVmOps

record vm_area =
  vm_flags :: u64
  vm_ops :: vm_operations

record inode =
  i_flags :: u32

definition enzian_memory_open :: "u32 \<Rightarrow> inode \<Rightarrow> int \<times> inode" where
  "enzian_memory_open S_DAX inode = (0, inode\<lparr>i_flags := S_DAX\<rparr>)"

definition enzian_memory_release :: "inode \<Rightarrow> int" where
  "enzian_memory_release inode = 0"

definition enzian_memory_vma_open :: "vm_area \<Rightarrow> vm_area" where
  "enzian_memory_vma_open vma = vma"

definition enzian_memory_vma_close :: "vm_area \<Rightarrow> vm_area" where
  "enzian_memory_vma_close vma = vma"

definition enzian_memory_mmap :: "u64 \<Rightarrow> vm_area \<Rightarrow> int \<times> vm_area" where
  "enzian_memory_mmap VM_PFNMAP vma =
     (let vma = vma\<lparr>vm_flags := vm_flags vma OR VM_PFNMAP\<rparr>;
          vma = vma\<lparr>vm_ops := EnzianMemoryRemapVmOps\<rparr>;
          vma = enzian_memory_vma_open vma
      in (0, vma))"

text \<open>
  \<open>enzian_memory_remap_vm_ops\<close>: which handler answers a fault. A base-page fault comes in
  through \<open>fault\<close>, every larger size through \<open>huge_fault\<close>; without the operations the kernel
  has nobody to ask.
\<close>

datatype vm_request = BaseFault vm_fault | HugeFault vm_fault fault_size

fun enzian_memory_remap_vm_ops ::
  "('k, 'p) kernel_mm \<Rightarrow> vm_request \<Rightarrow> ('k, 'p) mm_state \<Rightarrow> u32 \<times> ('k, 'p) mm_state" where
  "enzian_memory_remap_vm_ops K (BaseFault vmf) st = (enzian_memory_fault K vmf, st)"
| "enzian_memory_remap_vm_ops K (HugeFault vmf sz) st = enzian_memory_huge_fault K vmf sz st"

definition vma_dispatch ::
  "('k, 'p) kernel_mm \<Rightarrow> vm_area \<Rightarrow> vm_request \<Rightarrow> ('k, 'p) mm_state \<Rightarrow>
   (u32 \<times> ('k, 'p) mm_state) option" where
  "vma_dispatch K vma rq st =
     (case vm_ops vma of NoVmOps \<Rightarrow> None
      | EnzianMemoryRemapVmOps \<Rightarrow> Some (enzian_memory_remap_vm_ops K rq st))"

text \<open>
  After \<open>mmap\<close> every fault on the area goes to the driver; a base-page fault is always
  refused with SIGBUS and leaves the page tables alone, so only huge mappings are ever made.
  The flags of the area keep all their bits and gain \<open>VM_PFNMAP\<close>.
\<close>

lemma mmap_serves_huge_only:
  "vma_dispatch K (snd (enzian_memory_mmap F vma)) (BaseFault vmf) st = Some (VM_FAULT_SIGBUS K, st) \<and>
   vma_dispatch K (snd (enzian_memory_mmap F vma)) (HugeFault vmf sz) st =
     Some (enzian_memory_huge_fault K vmf sz st) \<and>
   vm_flags (snd (enzian_memory_mmap F vma)) AND F = F \<and>
   vm_flags (snd (enzian_memory_mmap F vma)) AND vm_flags vma = vm_flags vma"
  by (simp add: enzian_memory_mmap_def enzian_memory_vma_open_def vma_dispatch_def
      enzian_memory_fault_def bit.conj_disj_distrib2 word_bw_comms word_ao_absorbs)

section \<open>Module load and removal\<close>

text \<open>
  The result of \<open>init\<close> is its return value, the static variables it sets and the kernel calls
  made. It never looks at \<open>err\<close>: where no device number was granted it goes on with the
  uninitialised \<open>dev\<close>.
\<close>

definition enzian_memory_init :: "kdev \<Rightarrow> load_env \<Rightarrow> (int \<times> chardev \<times> kcall list) res" where
  "enzian_memory_init D env =
     rbind (read_var (alloc_ret env)) (\<lambda>dev.
       let major = MAJOR D dev;
           cls = class_ret env
       in Inr (0, \<lparr>dev_major = major, mychardev_class = cls\<rparr>,
          [AllocChrdevRegion 0 1 ''fpgamem'' dev, ClassCreate ''fpgamem'' cls, CdevInit,
           CdevSetOwner, CdevAdd (MKDEV D major 0) 1 (cdev_ret env),
           DeviceCreate cls (MKDEV D major 0) ''fpgamem'' (device_ret env)]))"

definition enzian_memory_exit :: "kdev \<Rightarrow> chardev \<Rightarrow> kcall list" where
  "enzian_memory_exit D m =
     [DeviceDestroy (mychardev_class m) (MKDEV D (dev_major m) 0), ClassDestroy (mychardev_class m),
      UnregisterChrdevRegion (MKDEV D (dev_major m) 0) (MINORMASK D)]"

text \<open>Loading and removing the driver again and again, with the kernel's answers to each load.\<close>

definition load_unload :: "kdev \<Rightarrow> load_env \<Rightarrow> ledger \<Rightarrow> ledger res" where
  "load_unload D env L =
     rbind (enzian_memory_init D env) (\<lambda>(ret, m, calls).
       Inr (ledger_of (calls @ enzian_memory_exit D m) L))"

lemma load_unload_result:
  assumes "fresh_load D env L" and "alloc_ret env = Some dev"
  shows "load_unload D env L =
    Inr (L\<lparr>l_regions := (dev, 1) # l_regions L,
      l_cdevs := (if cdev_ret env < 0 then [] else [MKDEV D (MAJOR D dev) 0]) @ l_cdevs L\<rparr>)"
  using fresh_region [OF assms(1)] fresh_class [OF assms(1)] assms(2)
  by (cases "class_ret env"; cases "device_ret env")
    (simp_all add: load_unload_def enzian_memory_init_def enzian_memory_exit_def Let_def
      remove1_head del: remove1.simps(2))

text \<open>
  C30: every cycle of loading and removing the driver leaks one range of device numbers and,
  where \<open>cdev_add\<close> worked, one cdev: after any sequence of cycles exactly these are still
  registered, while classes and device nodes are all gone. \<open>exit\<close> calls no \<open>cdev_del\<close>, and
  it unregisters \<open>MINORMASK\<close> numbers where the one range has a single number. If the kernel
  ever grants no number, \<open>init\<close> reads the uninitialised \<open>dev\<close>.
\<close>

theorem memory_init_exit_ledger:
  assumes "MINORMASK D \<noteq> 1"
  shows "fold_res (load_unload D) envs empty_ledger =
    (if None \<in> alloc_ret ` set envs then Inl UninitRead
     else Inr (empty_ledger\<lparr>
       l_regions := rev (map (\<lambda>env. (the (alloc_ret env), 1)) envs),
       l_cdevs := rev (map (\<lambda>env. MKDEV D (MAJOR D (the (alloc_ret env))) 0)
         (filter (\<lambda>env. 0 \<le> cdev_ret env) envs))\<rparr>))"
proof (induction envs rule: rev_induct)
  case Nil
  then show ?case by (simp add: empty_ledger_def)
next
  case (snoc env envs)
  show ?case
  proof (cases "None \<in> alloc_ret ` set envs")
    case True
    with snoc show ?thesis by (auto simp: fold_res_append)
  next
    case False
    define L where "L = empty_ledger\<lparr>
       l_regions := rev (map (\<lambda>env. (the (alloc_ret env), 1)) envs),
       l_cdevs := rev (map (\<lambda>env. MKDEV D (MAJOR D (the (alloc_ret env))) 0)
         (filter (\<lambda>env. 0 \<le> cdev_ret env) envs))\<rparr>"
    have before: "fold_res (load_unload D) envs empty_ledger = Inr L"
      using snoc False by (simp add: L_def)
    have fresh: "fresh_load D env L"
      using assms by (auto simp: fresh_load_def L_def empty_ledger_def)
    show ?thesis
    proof (cases "alloc_ret env")
      case None
      then have "load_unload D env L = Inl UninitRead"
        by (simp add: load_unload_def enzian_memory_init_def)
      with None before show ?thesis by (simp add: fold_res_append image_iff)
    next
      case (Some dev)
      with False have "None \<notin> alloc_ret ` set (envs @ [env])"
        by auto
      with before load_unload_result [OF fresh Some] Some show ?thesis
        by (simp add: fold_res_append L_def empty_ledger_def)
    qed
  qed
qed

text \<open>Three loads, the last with a failing \<open>cdev_add\<close>.\<close>

theorem memory_init_exit_ledger_witness:
  "fold_res (load_unload linux_kdev)
     [sample_load 0x0EF00000 0, sample_load 0x0EE00000 0, sample_load 0x0ED00000 (- 12)] empty_ledger =
   Inr (empty_ledger\<lparr>l_regions := [(0x0ED00000, 1), (0x0EE00000, 1), (0x0EF00000, 1)],
     l_cdevs := [0x0EE00000, 0x0EF00000]\<rparr>)"
  using memory_init_exit_ledger [of linux_kdev
      "[sample_load 0x0EF00000 0, sample_load 0x0EE00000 0, sample_load 0x0ED00000 (- 12)]"]
  by (simp add: linux_kdev_def sample_load_def)

end
