(* ===== verification/EnzianFpi.thy ===== *)
theory EnzianFpi
  imports DeviceModel
begin

text \<open>
  The driver \<open>enzian_fpi.c\<close> of \<open>/dev/fpi\<close>: sending a software-generated interrupt by ioctl,
  waiting for interrupt 8 by a blocking read that the handler wakes up, and module load and
  removal.
\<close>

section \<open>Opening and closing\<close>

definition enzian_fpi_open :: int where
  "enzian_fpi_open = 0"

definition enzian_fpi_release :: int where
  "enzian_fpi_release = 0"

section \<open>Sending\<close>

text \<open>The one effect of the ioctl: a write of the GIC register \<open>ICC_SGI1R_EL1\<close>.\<close>

datatype gic_write = SGI1R u64

definition enzian_fpi_ioctl :: "u32 \<Rightarrow> u64 \<Rightarrow> gic_write list \<Rightarrow> int \<times> gic_write list" where
  "enzian_fpi_ioctl cmd arg es = (if cmd = 0 then (0, es @ [SGI1R arg]) else (- EINVAL, es))"

interpretation sgi: ioctl_device enzian_fpi_ioctl "\<lambda>cmd. cmd = 0" "\<lambda>_ arg. SGI1R arg"
  by unfold_locales (simp_all add: enzian_fpi_ioctl_def)

text \<open>
  On every sequence of requests the driver writes the argument of each command 0 to the
  interrupt register, in order, and refuses every other command with \<open>-EINVAL\<close> and no write.
\<close>

lemma fpi_ioctl_sequence_exact:
  "ioctl_all enzian_fpi_ioctl rs es =
     (map (\<lambda>(c, a). if c = 0 then 0 else - EINVAL) rs,
      es @ map (\<lambda>(c, a). SGI1R a) (filter (\<lambda>(c, a). c = 0) rs))"
  by (rule prod_eqI) (simp_all add: sgi.ioctl_all_effects sgi.ioctl_all_rets)

section \<open>Waiting\<close>

text \<open>
  A read runs \<open>wait_event_interruptible\<close>, clears the flag and returns 0. The kernel's wait
  tests the condition, sleeps if it is false and tests again each time the queue is woken; a
  signal pending for the reader wakes it and makes it give up where the test fails, and is
  delivered when the read returns. \<open>RClear\<close> is a reader that has left the wait and has not
  yet cleared the flag. The handler sets the flag and then wakes the queue; \<open>waking\<close> counts
  handlers between the two. \<open>irqs\<close>, \<open>signals\<close> and \<open>returns\<close> are ghost counters.
\<close>

datatype reader = ROut | RTest | RSleep | RClear

record fpi =
  wq_flag :: int
  readers :: "nat \<Rightarrow> reader"
  signalled :: "nat \<Rightarrow> bool"
  waking :: nat
  irqs :: nat
  signals :: nat
  returns :: nat

definition fpi_start :: fpi where
  "fpi_start = \<lparr>wq_flag = 0, readers = (\<lambda>_. ROut), signalled = (\<lambda>_. False), waking = 0,
     irqs = 0, signals = 0, returns = 0\<rparr>"

datatype fpi_event =
    ReadCall nat       \<comment> \<open>\<open>enzian_fpi_read\<close> is entered\<close>
  | TestTrue nat       \<comment> \<open>\<open>wq_flag != 0\<close> holds: the wait is over\<close>
  | TestFalse nat      \<comment> \<open>it does not: the reader sleeps\<close>
  | Interrupted nat    \<comment> \<open>it does not, and a signal is pending: the wait gives up\<close>
  | SignalWake nat     \<comment> \<open>a pending signal makes a sleeping reader test again\<close>
  | ClearReturn nat    \<comment> \<open>\<open>wq_flag = 0; return 0\<close>\<close>
  | HandlerSet         \<comment> \<open>\<open>wq_flag = 1\<close> in the handler\<close>
  | HandlerWake        \<comment> \<open>\<open>wake_up_interruptible\<close>\<close>
  | Signal nat         \<comment> \<open>a signal is sent to a thread inside its read\<close>

definition set_reader :: "nat \<Rightarrow> reader \<Rightarrow> fpi \<Rightarrow> fpi" where
  "set_reader i pc s = s\<lparr>readers := (readers s)(i := pc)\<rparr>"

definition fpi_handler_set :: "fpi \<Rightarrow> fpi" where
  "fpi_handler_set s = s\<lparr>wq_flag := 1, waking := Suc (waking s), irqs := Suc (irqs s)\<rparr>"

definition fpi_handler_wake :: "fpi \<Rightarrow> fpi" where
  "fpi_handler_wake s = s\<lparr>waking := waking s - 1,
     readers := (\<lambda>i. if readers s i = RSleep then RTest else readers s i)\<rparr>"

definition read_clear :: "nat \<Rightarrow> fpi \<Rightarrow> fpi" where
  "read_clear i s = set_reader i ROut (s\<lparr>wq_flag := 0, signalled := (signalled s)(i := False),
     returns := Suc (returns s)\<rparr>)"

definition send_signal :: "nat \<Rightarrow> fpi \<Rightarrow> fpi" where
  "send_signal i s = s\<lparr>signalled := (signalled s)(i := True), signals := Suc (signals s)\<rparr>"

fun fpi_next :: "fpi_event \<Rightarrow> fpi \<Rightarrow> fpi option" where
  "fpi_next (ReadCall i) s = (if readers s i = ROut then Some (set_reader i RTest s) else None)"
| "fpi_next (TestTrue i) s =
     (if readers s i = RTest \<and> wq_flag s \<noteq> 0 then Some (set_reader i RClear s) else None)"
| "fpi_next (TestFalse i) s =
     (if readers s i = RTest \<and> wq_flag s = 0 then Some (set_reader i RSleep s) else None)"
| "fpi_next (Interrupted i) s =
     (if readers s i = RTest \<and> wq_flag s = 0 \<and> signalled s i
      then Some (set_reader i RClear s) else None)"
| "fpi_next (SignalWake i) s =
     (if readers s i = RSleep \<and> signalled s i then Some (set_reader i RTest s) else None)"
| "fpi_next (ClearReturn i) s =
     (if readers s i = RClear then Some (read_clear i s) else None)"
| "fpi_next HandlerSet s = Some (fpi_handler_set s)"
| "fpi_next HandlerWake s = (if 0 < waking s then Some (fpi_handler_wake s) else None)"
| "fpi_next (Signal i) s = (if readers s i \<noteq> ROut then Some (send_signal i s) else None)"

fun fpi_run :: "fpi_event list \<Rightarrow> fpi \<Rightarrow> fpi option" where
  "fpi_run [] s = Some s"
| "fpi_run (e # es) s = (case fpi_next e s of None \<Rightarrow> None | Some t \<Rightarrow> fpi_run es t)"

text \<open>The steps open to a system in which only the events of \<open>A\<close> happen.\<close>

definition fpi_step :: "fpi_event set \<Rightarrow> fpi \<Rightarrow> fpi \<Rightarrow> bool" where
  "fpi_step A s t \<longleftrightarrow> (\<exists>e \<in> A. fpi_next e s = Some t)"

lemma readers_set_reader [simp]: "readers (set_reader i pc s) = (readers s)(i := pc)"
  by (simp add: set_reader_def)

lemma set_reader_fields [simp]:
  "wq_flag (set_reader i pc s) = wq_flag s" "waking (set_reader i pc s) = waking s"
  "irqs (set_reader i pc s) = irqs s" "returns (set_reader i pc s) = returns s"
  "signals (set_reader i pc s) = signals s" "signalled (set_reader i pc s) = signalled s"
  by (simp_all add: set_reader_def)

lemmas fpi_effects = fpi_handler_set_def fpi_handler_wake_def read_clear_def send_signal_def

lemma fpi_run_append:
  "fpi_run (es @ fs) s = (case fpi_run es s of None \<Rightarrow> None | Some t \<Rightarrow> fpi_run fs t)"
  by (induction es arbitrary: s) (auto split: option.splits)

lemma fpi_stepI: "fpi_next e s = Some t \<Longrightarrow> e \<in> A \<Longrightarrow> fpi_step A s t"
  by (auto simp: fpi_step_def)

lemma fpi_run_reach:
  "reach I (fpi_step A) s \<Longrightarrow> fpi_run es s = Some t \<Longrightarrow> set es \<subseteq> A \<Longrightarrow> reach I (fpi_step A) t"
proof (induction es arbitrary: s)
  case (Cons e es)
  then obtain u where "fpi_next e s = Some u" and run: "fpi_run es u = Some t"
    by (auto split: option.splits)
  with Cons.prems have "reach I (fpi_step A) u"
    by (auto intro: reach_step fpi_stepI)
  with Cons run show ?case by simp
qed simp

subsection \<open>No lost wake-up\<close>

text \<open>Whoever sleeps while the flag is set is about to be woken.\<close>

definition wakeup_inv :: "fpi \<Rightarrow> bool" where
  "wakeup_inv s \<longleftrightarrow> (\<forall>i. readers s i = RSleep \<longrightarrow> wq_flag s \<noteq> 0 \<longrightarrow> 0 < waking s)"

lemma wakeup_inv_next: "fpi_next e s = Some t \<Longrightarrow> wakeup_inv s \<Longrightarrow> wakeup_inv t"
  by (cases e) (auto simp: wakeup_inv_def fpi_effects split: if_splits)

interpretation wakeup: transition_system "\<lambda>s. s = fpi_start" "fpi_step A" wakeup_inv for A
proof
  show "s = fpi_start \<Longrightarrow> wakeup_inv s" for s
    by (simp add: wakeup_inv_def fpi_start_def)
  show "wakeup_inv s \<Longrightarrow> fpi_step A s t \<Longrightarrow> wakeup_inv t" for s t
    unfolding fpi_step_def by (blast intro: wakeup_inv_next)
qed

text \<open>
  The steps of one reader, and the wake-ups of handlers already running: no new interrupt, no
  signal, no other reader. Each of them brings the reader's return one step nearer.
\<close>

definition own_events :: "nat \<Rightarrow> fpi_event set" where
  "own_events i = {TestTrue i, TestFalse i, ClearReturn i, HandlerWake}"

definition steps_left :: "nat \<Rightarrow> fpi \<Rightarrow> nat" where
  "steps_left i s = waking s +
     (case readers s i of ROut \<Rightarrow> 0 | RClear \<Rightarrow> 1 | RTest \<Rightarrow> 2 | RSleep \<Rightarrow> 2)"

definition releasing :: "nat \<Rightarrow> nat \<Rightarrow> fpi \<Rightarrow> bool" where
  "releasing i n s \<longleftrightarrow> wakeup_inv s \<and>
     (if readers s i = ROut then returns s = Suc n else wq_flag s \<noteq> 0 \<and> returns s = n)"

lemma own_step:
  assumes "fpi_next e s = Some t" and "e \<in> own_events i" and "releasing i n s"
  shows "releasing i n t \<and> steps_left i s = Suc (steps_left i t)"
proof -
  have "wakeup_inv t"
    using assms(1,3) wakeup_inv_next by (auto simp: releasing_def)
  moreover consider "e = TestTrue i" | "e = TestFalse i" | "e = ClearReturn i" | "e = HandlerWake"
    using assms(2) by (auto simp: own_events_def)
  then have "(if readers t i = ROut then returns t = Suc n else wq_flag t \<noteq> 0 \<and> returns t = n) \<and>
    steps_left i s = Suc (steps_left i t)"
  proof cases
    case 4
    with assms(1) have "0 < waking s" and "t = fpi_handler_wake s"
      by (auto split: if_split_asm)
    with assms(3) show ?thesis
      by (cases "readers s i") (auto simp: releasing_def steps_left_def fpi_handler_wake_def)
  qed (use assms(1,3) in \<open>auto simp: releasing_def steps_left_def read_clear_def split: if_split_asm\<close>)
  ultimately show ?thesis by (simp add: releasing_def)
qed

lemma own_run:
  "fpi_run es s = Some t \<Longrightarrow> set es \<subseteq> own_events i \<Longrightarrow> releasing i n s \<Longrightarrow>
    releasing i n t \<and> steps_left i s = length es + steps_left i t"
proof (induction es arbitrary: s)
  case (Cons e es)
  then obtain u where "fpi_next e s = Some u" and run: "fpi_run es u = Some t"
    by (auto split: option.splits)
  with Cons.prems have "releasing i n u \<and> steps_left i s = Suc (steps_left i u)"
    using own_step by auto
  with Cons.IH [OF run] Cons.prems(2) show ?case by simp
qed simp

lemma own_stuck:
  assumes "releasing i n s" and "\<And>e. e \<in> own_events i \<Longrightarrow> fpi_next e s = None"
  shows "readers s i = ROut \<and> returns s = Suc n"
proof (cases "readers s i")
  case RSleep
  with assms(1) have "0 < waking s" by (auto simp: releasing_def wakeup_inv_def)
  with assms(2) [of HandlerWake] show ?thesis by (simp add: own_events_def)
next
  case RTest
  with assms(1) assms(2) [of "TestTrue i"] show ?thesis
    by (simp add: own_events_def releasing_def)
next
  case RClear
  with assms(2) [of "ClearReturn i"] show ?thesis by (simp add: own_events_def)
qed (use assms(1) in \<open>simp add: releasing_def\<close>)

text \<open>
  C2: no wake-up is lost. In every reachable state with an interrupt pending (the flag set), a
  reader that sleeps has a handler about to wake it; and a reader inside the wait gets out
  without another interrupt, signal or reader: every run of its own steps and of the wake-ups
  outstanding is at most two steps longer than those wake-ups, and where it can go no further
  the read has returned, once.
\<close>

theorem pending_interrupt_releases_reader:
  assumes "reach (\<lambda>s. s = fpi_start) (fpi_step A) s"
    and "wq_flag s \<noteq> 0" and "readers s i \<noteq> ROut"
  shows "(readers s i = RSleep \<longrightarrow> 0 < waking s) \<and>
    (\<forall>es t. fpi_run es s = Some t \<and> set es \<subseteq> own_events i \<longrightarrow>
      length es \<le> waking s + 2 \<and>
      ((\<forall>e \<in> own_events i. fpi_next e t = None) \<longrightarrow>
        readers t i = ROut \<and> returns t = Suc (returns s)))"
proof -
  have rel: "releasing i (returns s) s"
    using wakeup.reach_inv [OF assms(1)] assms(2,3) by (simp add: releasing_def)
  have left: "steps_left i s \<le> waking s + 2"
    by (simp add: steps_left_def split: reader.splits)
  have "length es \<le> waking s + 2 \<and>
      ((\<forall>e \<in> own_events i. fpi_next e t = None) \<longrightarrow>
        readers t i = ROut \<and> returns t = Suc (returns s))"
    if "fpi_run es s = Some t" and "set es \<subseteq> own_events i" for es t
    using own_run [OF that rel] left own_stuck [of i "returns s" t] by auto
  moreover have "readers s i = RSleep \<longrightarrow> 0 < waking s"
    using rel assms(3) by (auto simp: releasing_def wakeup_inv_def)
  ultimately show ?thesis by blast
qed

subsection \<open>One reader: every return stands for an interrupt\<close>

text \<open>The events of one reader that no signal ever reaches, with the handler's.\<close>

definition single_reader :: "nat \<Rightarrow> fpi_event set" where
  "single_reader i = {ReadCall i, TestTrue i, TestFalse i, ClearReturn i, HandlerSet, HandlerWake}"

definition credit_inv :: "nat \<Rightarrow> fpi \<Rightarrow> bool" where
  "credit_inv i s \<longleftrightarrow>
     returns s + (if readers s i = RClear \<or> wq_flag s \<noteq> 0 then 1 else 0) \<le> irqs s"

lemma credit_inv_next:
  "fpi_next e s = Some t \<Longrightarrow> e \<in> single_reader i \<Longrightarrow> credit_inv i s \<Longrightarrow> credit_inv i t"
  by (auto simp: single_reader_def credit_inv_def fpi_effects split: if_splits)

interpretation credit: transition_system
  "\<lambda>s. s = fpi_start" "fpi_step (single_reader i)" "credit_inv i" for i
proof
  show "s = fpi_start \<Longrightarrow> credit_inv i s" for s
    by (simp add: credit_inv_def fpi_start_def)
  show "credit_inv i s \<Longrightarrow> fpi_step (single_reader i) s t \<Longrightarrow> credit_inv i t" for s t
    unfolding fpi_step_def by (blast intro: credit_inv_next)
qed

text \<open>
  C11: with a single reader and no signals, reads never return more often than interrupts
  have arrived, and a reader past its wait or a set flag is backed by an interrupt of its own.
\<close>

theorem single_reader_no_spurious_return:
  assumes "reach (\<lambda>s. s = fpi_start) (fpi_step (single_reader i)) s"
  shows "returns s + (if readers s i = RClear \<or> wq_flag s \<noteq> 0 then 1 else 0) \<le> irqs s"
  using credit.reach_inv [OF assms] by (simp add: credit_inv_def)

text \<open>
  A run in which one reader sleeps, is woken by an interrupt, and leaves its wait; and the
  state in its middle, where the handler has set the flag and the reader still sleeps.
\<close>

definition sample_run :: "fpi_event list" where
  "sample_run = [ReadCall 0, TestFalse 0, HandlerSet, HandlerWake, TestTrue 0]"

definition sample_end :: fpi where
  "sample_end = the (fpi_run sample_run fpi_start)"

definition sample_asleep :: fpi where
  "sample_asleep = the (fpi_run (take 3 sample_run) fpi_start)"

lemma sample_run_Some: "fpi_run sample_run fpi_start = Some sample_end"
  by (simp add: sample_end_def sample_run_def fpi_start_def fpi_effects)

lemma sample_asleep_Some: "fpi_run (take 3 sample_run) fpi_start = Some sample_asleep"
  by (simp add: sample_asleep_def sample_run_def fpi_start_def fpi_effects)

lemma sample_end_fields:
  "wq_flag sample_end = 1" "readers sample_end 0 = RClear" "irqs sample_end = 1"
  "returns sample_end = 0"
  by (simp_all add: sample_end_def sample_run_def fpi_start_def fpi_effects)

lemma sample_asleep_fields:
  "wq_flag sample_asleep = 1" "readers sample_asleep 0 = RSleep" "waking sample_asleep = 1"
  "returns sample_asleep = 0"
  by (simp_all add: sample_asleep_def sample_run_def fpi_start_def fpi_effects)

lemma sample_end_reach:
  "reach (\<lambda>s. s = fpi_start) (fpi_step (single_reader 0)) sample_end"
  by (rule fpi_run_reach [OF reach_init sample_run_Some])
    (simp_all add: sample_run_def single_reader_def)

lemma sample_asleep_reach:
  "reach (\<lambda>s. s = fpi_start) (fpi_step UNIV) sample_asleep"
  by (rule fpi_run_reach [OF reach_init sample_asleep_Some]) simp_all

theorem pending_interrupt_releases_reader_witness:
  "0 < waking sample_asleep \<and>
   (\<exists>t. fpi_run [HandlerWake, TestTrue 0, ClearReturn 0] sample_asleep = Some t \<and>
     readers t 0 = ROut \<and> returns t = 1)"
proof -
  let ?es = "[HandlerWake, TestTrue 0, ClearReturn 0]"
  obtain t where t: "fpi_run ?es sample_asleep = Some t"
    by (simp add: sample_asleep_fields fpi_effects)
  then have "\<forall>e \<in> own_events 0. fpi_next e t = None"
    by (auto simp: own_events_def sample_asleep_fields fpi_effects)
  moreover have "set ?es \<subseteq> own_events 0"
    by (simp add: own_events_def)
  moreover have pending: "wq_flag sample_asleep \<noteq> 0" and asleep: "readers sample_asleep 0 \<noteq> ROut"
      "readers sample_asleep 0 = RSleep"
    by (simp_all add: sample_asleep_fields)
  ultimately have "0 < waking sample_asleep \<and> readers t 0 = ROut \<and> returns t = Suc (returns sample_asleep)"
    using pending_interrupt_releases_reader [OF sample_asleep_reach pending asleep(1)] t by blast
  with t show ?thesis
    by (intro conjI exI [of _ t]) (simp_all only: sample_asleep_fields One_nat_def)
qed

theorem single_reader_no_spurious_return_witness:
  "returns sample_end + 1 \<le> irqs sample_end"
  using single_reader_no_spurious_return [OF sample_end_reach]
  by (simp add: sample_end_fields)

subsection \<open>How far the count can go wrong\<close>

text \<open>The events of the readers below \<open>k\<close>, signals to them included.\<close>

definition readers_below :: "nat \<Rightarrow> fpi_event set" where
  "readers_below k = {HandlerSet, HandlerWake} \<union>
     (\<Union>i \<in> {..<k}. {ReadCall i, TestTrue i, TestFalse i, Interrupted i, SignalWake i,
        ClearReturn i, Signal i})"

text \<open>
  The returns a reader may still make without a new interrupt or signal: one if it is past its
  wait or has a signal pending, and one more if it is not past its wait and the flag is set.
\<close>

definition pending_returns :: "fpi \<Rightarrow> nat \<Rightarrow> nat" where
  "pending_returns s j =
     (if readers s j = RClear \<or> signalled s j then 1 else 0) +
     (if wq_flag s \<noteq> 0 \<and> readers s j \<noteq> RClear then 1 else 0)"

definition count_inv :: "nat \<Rightarrow> fpi \<Rightarrow> bool" where
  "count_inv k s \<longleftrightarrow> returns s + (\<Sum>j<k. pending_returns s j) \<le> k * irqs s + signals s"

lemma sum_change:
  fixes f g :: "nat \<Rightarrow> nat"
  assumes "i < k" and "\<And>j. j \<noteq> i \<Longrightarrow> g j \<le> f j" and "g i + d \<le> f i + c"
  shows "(\<Sum>j<k. g j) + d \<le> (\<Sum>j<k. f j) + c"
proof -
  have split: "(\<Sum>j<k. h j) = h i + (\<Sum>j \<in> {..<k} - {i}. h j)" for h :: "nat \<Rightarrow> nat"
    using assms(1) by (intro sum.remove) auto
  have "(\<Sum>j \<in> {..<k} - {i}. g j) \<le> (\<Sum>j \<in> {..<k} - {i}. f j)"
    using assms(2) by (intro sum_mono) auto
  with assms(3) show ?thesis by (simp add: split [of f] split [of g])
qed

lemma count_inv_change:
  assumes "count_inv k s" and "i < k"
    and "\<And>j. j \<noteq> i \<Longrightarrow> pending_returns t j \<le> pending_returns s j"
    and "pending_returns t i + (returns t - returns s) \<le> pending_returns s i + (signals t - signals s)"
    and "returns s \<le> returns t" and "signals s \<le> signals t" and "irqs t = irqs s"
  shows "count_inv k t"
  using sum_change [of i k "pending_returns t" "pending_returns s", OF assms(2-4)] assms(1,5-7) by (simp add: count_inv_def)

lemma count_inv_set: "count_inv k s \<Longrightarrow> count_inv k (fpi_handler_set s)"
proof -
  assume inv: "count_inv k s"
  have "(\<Sum>j<k. pending_returns (fpi_handler_set s) j) \<le> (\<Sum>j<k. pending_returns s j + 1)"
    by (intro sum_mono) (simp add: pending_returns_def fpi_handler_set_def)
  then show ?thesis
    using inv unfolding sum.distrib by (simp add: count_inv_def) (simp add: fpi_handler_set_def)
qed

lemma count_inv_wake: "count_inv k s \<Longrightarrow> count_inv k (fpi_handler_wake s)"
proof -
  have "pending_returns (fpi_handler_wake s) j = pending_returns s j" for j
    by (simp add: pending_returns_def fpi_handler_wake_def)
  then show "count_inv k s \<Longrightarrow> count_inv k (fpi_handler_wake s)"
    by (simp add: count_inv_def) (simp add: fpi_handler_wake_def)
qed

lemma count_inv_next:
  assumes "fpi_next e s = Some t" and "e \<in> readers_below k" and "count_inv k s"
  shows "count_inv k t"
proof -
  consider "e = HandlerSet" | "e = HandlerWake"
    | i where "i < k" "e \<in> {ReadCall i, TestTrue i, TestFalse i, Interrupted i, SignalWake i, ClearReturn i, Signal i}"
    using assms(2) by (auto simp: readers_below_def)
  then show ?thesis
  proof cases
    case 1
    with assms(1) have "t = fpi_handler_set s" by simp
    with assms(3) show ?thesis by (simp add: count_inv_set)
  next
    case 2
    with assms(1,3) show ?thesis by (auto intro: count_inv_wake split: if_split_asm)
  next
    case (3 i)
    have others: "pending_returns t j \<le> pending_returns s j" if "j \<noteq> i" for j
      using 3(2) assms(1) that
      by (elim insertE emptyE) (auto simp: pending_returns_def read_clear_def send_signal_def split: if_split_asm)
    have own: "pending_returns t i + (returns t - returns s) \<le> pending_returns s i + (signals t - signals s)"
      using 3(2) assms(1)
      by (elim insertE emptyE) (auto simp: pending_returns_def read_clear_def send_signal_def split: if_split_asm)
    have "returns s \<le> returns t" "signals s \<le> signals t" "irqs t = irqs s"
      using 3(2) assms(1)
      by (elim insertE emptyE; auto simp: read_clear_def send_signal_def split: if_split_asm)+
    with others show ?thesis
      by (intro count_inv_change [OF assms(3) 3(1) _ own]) auto
  qed
qed

interpretation counting: transition_system
  "\<lambda>s. s = fpi_start" "fpi_step (readers_below k)" "count_inv k" for k
proof
  show "s = fpi_start \<Longrightarrow> count_inv k s" for s
    by (simp add: count_inv_def pending_returns_def fpi_start_def)
  show "count_inv k s \<Longrightarrow> fpi_step (readers_below k) s t \<Longrightarrow> count_inv k t" for s t
    unfolding fpi_step_def by (blast intro: count_inv_next)
qed

text \<open>One interrupt releases every reader that tests the flag before the first one clears it.\<close>

lemma run_calls:
  "readers s = (\<lambda>_. ROut) \<Longrightarrow>
    fpi_run (map ReadCall [0..<k]) s = Some (s\<lparr>readers := (\<lambda>j. if j < k then RTest else ROut)\<rparr>)"
proof (induction k)
  case 0
  then have "s\<lparr>readers := \<lambda>j. ROut\<rparr> = s" by simp
  then show ?case by simp
next
  case (Suc k)
  have "(\<lambda>j. if j < k then RTest else ROut)(k := RTest) = (\<lambda>j. if j < Suc k then RTest else ROut)"
    by (auto simp: fun_eq_iff)
  with Suc show ?case by (simp add: fpi_run_append set_reader_def)
qed

lemma run_tests:
  "readers s = (\<lambda>j. if j < n then RTest else ROut) \<Longrightarrow> wq_flag s \<noteq> 0 \<Longrightarrow> k \<le> n \<Longrightarrow>
    fpi_run (map TestTrue [0..<k]) s =
      Some (s\<lparr>readers := (\<lambda>j. if j < k then RClear else readers s j)\<rparr>)"
proof (induction k)
  case (Suc k)
  have "(\<lambda>j. if j < k then RClear else readers s j)(k := RClear) =
      (\<lambda>j. if j < Suc k then RClear else readers s j)"
    by (auto simp: fun_eq_iff)
  with Suc show ?case by (simp add: fpi_run_append set_reader_def)
qed simp

lemma run_clears:
  "readers s = (\<lambda>j. if j < n then RClear else ROut) \<Longrightarrow> k \<le> n \<Longrightarrow>
    \<exists>t. fpi_run (map ClearReturn [0..<k]) s = Some t \<and> returns t = returns s + k \<and>
      irqs t = irqs s \<and> signals t = signals s \<and>
      readers t = (\<lambda>j. if k \<le> j then readers s j else ROut)"
proof (induction k)
  case (Suc k)
  then obtain t where t: "fpi_run (map ClearReturn [0..<k]) s = Some t" "returns t = returns s + k"
      "irqs t = irqs s" "signals t = signals s" "readers t = (\<lambda>j. if k \<le> j then readers s j else ROut)"
    by auto
  have "(\<lambda>j. if k \<le> j then readers s j else ROut)(k := ROut) =
      (\<lambda>j. if Suc k \<le> j then readers s j else ROut)"
    by (auto simp: fun_eq_iff)
  with t Suc.prems show ?case by (simp add: fpi_run_append read_clear_def)
qed simp

lemma one_interrupt_releases_all:
  "\<exists>es t. fpi_run es fpi_start = Some t \<and> set es \<subseteq> readers_below k \<and>
    irqs t = 1 \<and> signals t = 0 \<and> returns t = k"
proof -
  let ?s = "fpi_handler_set (fpi_start\<lparr>readers := (\<lambda>j. if j < k then RTest else ROut)\<rparr>)"
  let ?u = "?s\<lparr>readers := (\<lambda>j. if j < k then RClear else ROut)\<rparr>"
  let ?es = "map ReadCall [0..<k] @ HandlerSet # map TestTrue [0..<k] @ map ClearReturn [0..<k]"
  have "(\<lambda>j. if j < k then RClear else readers ?s j) = readers ?u"
    by (simp add: fun_eq_iff fpi_handler_set_def)
  then have "fpi_run (map TestTrue [0..<k]) ?s = Some ?u"
    using run_tests [of ?s k k] by (simp add: fpi_handler_set_def)
  moreover obtain t where "fpi_run (map ClearReturn [0..<k]) ?u = Some t" "returns t = returns ?u + k"
      "irqs t = irqs ?u" "signals t = signals ?u"
    using run_clears [of ?u k k] by auto
  ultimately have "fpi_run ?es fpi_start = Some t" and "irqs t = 1 \<and> signals t = 0 \<and> returns t = k"
    using run_calls [of fpi_start k] by (simp_all add: fpi_run_append fpi_start_def fpi_handler_set_def)
  moreover have "set ?es \<subseteq> readers_below k"
    by (auto simp: readers_below_def)
  ultimately show ?thesis by blast
qed

text \<open>A signal makes a read return though no interrupt came.\<close>

lemma run_signals:
  assumes "wq_flag s = 0" and "readers s = (\<lambda>_. ROut)"
  shows "\<exists>t. fpi_run (concat (replicate m [ReadCall 0, Signal 0, Interrupted 0, ClearReturn 0])) s = Some t \<and>
    irqs t = irqs s \<and> signals t = signals s + m \<and> returns t = returns s + m"
  using assms
proof (induction m arbitrary: s)
  case (Suc m)
  define u where "u = s\<lparr>readers := (\<lambda>_. ROut), signalled := (signalled s)(0 := False),
    signals := Suc (signals s), returns := Suc (returns s)\<rparr>"
  have "fpi_run [ReadCall 0, Signal 0, Interrupted 0, ClearReturn 0] s = Some u"
    using Suc.prems by (simp add: u_def set_reader_def send_signal_def read_clear_def fun_upd_idem)
  moreover obtain t where "fpi_run (concat (replicate m [ReadCall 0, Signal 0, Interrupted 0, ClearReturn 0])) u = Some t"
      "irqs t = irqs u" "signals t = signals u + m" "returns t = returns u + m"
    using Suc.IH [of u] Suc.prems by (auto simp: u_def)
  ultimately have "fpi_run ([ReadCall 0, Signal 0, Interrupted 0, ClearReturn 0] @
      concat (replicate m [ReadCall 0, Signal 0, Interrupted 0, ClearReturn 0])) s = Some t"
    unfolding fpi_run_append by simp
  then show ?case
    using \<open>irqs t = irqs u\<close> \<open>signals t = signals u + m\<close> \<open>returns t = returns u + m\<close>
    by (intro exI [of _ t]) (simp only: replicate_Suc concat.simps, simp add: u_def)
qed simp

text \<open>Interrupts that arrive between the test and the clearing of the flag are lost.\<close>

lemma run_sets:
  "fpi_run (replicate m HandlerSet) s =
     Some (s\<lparr>wq_flag := (if m = 0 then wq_flag s else 1), waking := waking s + m, irqs := irqs s + m\<rparr>)"
  by (induction m arbitrary: s) (simp_all add: fpi_handler_set_def)

lemma run_wakes:
  "readers s = (\<lambda>_. ROut) \<Longrightarrow> waking s = m \<Longrightarrow>
    fpi_run (replicate m HandlerWake) s = Some (s\<lparr>waking := 0\<rparr>)"
proof (induction m arbitrary: s)
  case (Suc m)
  have "fpi_handler_wake s = s\<lparr>waking := m\<rparr>"
    using Suc.prems by (simp add: fpi_handler_wake_def)
  with Suc show ?case by simp
qed simp

lemma interrupts_lost:
  assumes "0 < m"
  shows "\<exists>es t. fpi_run es fpi_start = Some t \<and> set es \<subseteq> single_reader 0 \<and>
    irqs t = m \<and> returns t = 1 \<and> wq_flag t = 0 \<and> waking t = 0 \<and> readers t 0 = ROut"
proof -
  let ?pre = "[ReadCall 0, HandlerSet, TestTrue 0]"
  let ?es = "(?pre @ replicate (m - 1) HandlerSet) @ ClearReturn 0 # replicate m HandlerWake"
  define s where "s = fpi_start\<lparr>wq_flag := 1, readers := (\<lambda>_. ROut)(0 := RClear), waking := 1, irqs := 1\<rparr>"
  define u where "u = fpi_start\<lparr>waking := m, irqs := m, returns := 1\<rparr>"
  have "fpi_run ?pre fpi_start = Some s"
    by (simp add: s_def set_reader_def fpi_handler_set_def fpi_start_def)
  moreover have "fpi_run (replicate (m - 1) HandlerSet) s =
      Some (s\<lparr>wq_flag := 1, waking := m, irqs := m\<rparr>)"
    using assms by (simp add: run_sets s_def)
  moreover have "fpi_next (ClearReturn 0) (s\<lparr>wq_flag := 1, waking := m, irqs := m\<rparr>) = Some u"
    by (simp add: s_def u_def read_clear_def set_reader_def fpi_start_def fun_upd_idem)
  moreover have "fpi_run (replicate m HandlerWake) u = Some (u\<lparr>waking := 0\<rparr>)"
    by (rule run_wakes) (simp_all add: u_def fpi_start_def)
  ultimately have "fpi_run ?es fpi_start = Some (u\<lparr>waking := 0\<rparr>)"
    unfolding fpi_run_append by (simp del: fpi_next.simps)
  moreover have "set ?es \<subseteq> single_reader 0"
    by (auto simp: single_reader_def)
  ultimately show ?thesis
    by (intro exI [of _ ?es] exI [of _ "u\<lparr>waking := 0\<rparr>"]) (simp add: u_def fpi_start_def)
qed

text \<open>
  C31: reads and interrupts are not one to one, and this is how far apart they get. With \<open>k\<close>
  readers, reads return at most \<open>k\<close> times per interrupt and once per signal, in every run.
  The bounds are reached: a single interrupt can release all \<open>k\<close> readers, and \<open>m\<close> signals make
  a reader return \<open>m\<close> times with no interrupt at all (the code drops the result of
  \<open>wait_event_interruptible\<close>). In the other direction any number of interrupts can be reported
  by one return, with nothing left pending, even to a single reader without signals.
\<close>

theorem read_counts:
  assumes "reach (\<lambda>s. s = fpi_start) (fpi_step (readers_below k)) s" and "0 < m"
  shows "returns s \<le> k * irqs s + signals s \<and>
    (\<exists>es t. fpi_run es fpi_start = Some t \<and> set es \<subseteq> readers_below k \<and>
      irqs t = 1 \<and> signals t = 0 \<and> returns t = k) \<and>
    (\<exists>es t. fpi_run es fpi_start = Some t \<and> set es \<subseteq> readers_below 1 \<and>
      irqs t = 0 \<and> signals t = m \<and> returns t = m) \<and>
    (\<exists>es t. fpi_run es fpi_start = Some t \<and> set es \<subseteq> single_reader 0 \<and>
      irqs t = m \<and> returns t = 1 \<and> wq_flag t = 0 \<and> waking t = 0 \<and> readers t 0 = ROut)"
proof (intro conjI)
  show "returns s \<le> k * irqs s + signals s"
    using counting.reach_inv [OF assms(1)] by (simp add: count_inv_def)
  let ?es = "concat (replicate m [ReadCall 0, Signal 0, Interrupted 0, ClearReturn 0])"
  obtain t where "fpi_run ?es fpi_start = Some t" "irqs t = 0" "signals t = m" "returns t = m"
    using run_signals [of fpi_start m] by (auto simp: fpi_start_def)
  moreover have "set ?es \<subseteq> readers_below 1"
    by (auto simp: readers_below_def)
  ultimately show "\<exists>es t. fpi_run es fpi_start = Some t \<and> set es \<subseteq> readers_below 1 \<and>
      irqs t = 0 \<and> signals t = m \<and> returns t = m"
    by blast
qed (rule one_interrupt_releases_all interrupts_lost [OF assms(2)])+

lemma sample_end_reach_below:
  "reach (\<lambda>s. s = fpi_start) (fpi_step (readers_below 2)) sample_end"
  by (rule fpi_run_reach [OF reach_init sample_run_Some])
    (simp_all add: sample_run_def readers_below_def)

theorem read_counts_witness:
  "returns sample_end \<le> 2 * irqs sample_end + signals sample_end \<and>
   (\<exists>es t. fpi_run es fpi_start = Some t \<and> irqs t = 5 \<and> returns t = 1 \<and> wq_flag t = 0)"
  using read_counts [OF sample_end_reach_below, of 5] by auto

section \<open>Module load and removal\<close>

















text \<open>What the loads of the character device leave, whatever happens to the interrupt between.\<close>

definition reached :: "nat list \<Rightarrow> (nat \<Rightarrow> int) \<Rightarrow> nat set" where
  "reached cpus errs = {cpu \<in> set cpus. 0 \<le> errs cpu}"

lemma set_filter_reached: "set (filter (\<lambda>cpu. 0 \<le> errs cpu) cpus) = reached cpus errs"
  by (auto simp: reached_def)









end
