(* ===== verification/CLib.thy ===== *)
theory CLib
  imports Prelude
begin

text \<open>
  The part of the C standard library the programs use: number parsing and decimal printing,
  strings in a byte buffer with every access checked, and the destructive tokeniser
  \<open>strtok_r\<close> with the list of tokens it produces.
\<close>

section \<open>Characters and numbers\<close>

abbreviation NUL :: char where "NUL \<equiv> CHR 0x00"
abbreviation LF :: char where "LF \<equiv> CHR 0x0A"
abbreviation CR :: char where "CR \<equiv> CHR 0x0D"

definition isspace :: "char \<Rightarrow> bool" where
  "isspace c \<longleftrightarrow> c = CHR '' '' \<or> (9 \<le> (of_char c :: nat) \<and> (of_char c :: nat) \<le> 13)"

definition digit_of :: "nat \<Rightarrow> char \<Rightarrow> nat option" where
  "digit_of base c =
     (let n = of_char c :: nat;
          d = (if 48 \<le> n \<and> n \<le> 57 then n - 48
               else if 97 \<le> n \<and> n \<le> 122 then n - 87
               else if 65 \<le> n \<and> n \<le> 90 then n - 55
               else base)
      in if d < base then Some d else None)"

fun digits_value :: "nat \<Rightarrow> nat \<Rightarrow> string \<Rightarrow> nat" where
  "digits_value base acc [] = acc"
| "digits_value base acc (c # cs) =
     (case digit_of base c of None \<Rightarrow> acc | Some d \<Rightarrow> digits_value base (acc * base + d) cs)"

text \<open>The subject sequence: leading space, an optional sign, \<open>0x\<close> before hexadecimal digits.\<close>

definition skip_0x :: "nat \<Rightarrow> string \<Rightarrow> string" where
  "skip_0x base s =
     (case s of
        z # x # d # rest \<Rightarrow>
          if base = 16 \<and> z = CHR ''0'' \<and> (x = CHR ''x'' \<or> x = CHR ''X'') \<and> digit_of 16 d \<noteq> None
          then d # rest else s
      | _ \<Rightarrow> s)"

definition strto :: "nat \<Rightarrow> string \<Rightarrow> bool \<times> nat" where
  "strto base s =
     (let s = dropWhile isspace s;
          neg = (case s of c # _ \<Rightarrow> c = CHR ''-'' | [] \<Rightarrow> False);
          s = (case s of c # r \<Rightarrow> if c = CHR ''-'' \<or> c = CHR ''+'' then r else s | [] \<Rightarrow> s)
      in (neg, digits_value base 0 (skip_0x base s)))"

text \<open>\<open>strtoll\<close> saturates at the bounds of \<open>long long\<close>, \<open>strtoull\<close> at its maximum.\<close>

definition strtoll :: "nat \<Rightarrow> string \<Rightarrow> int" where
  "strtoll base s =
     (let (neg, m) = strto base s; v = (if neg then - int m else int m)
      in max (- (2 ^ 63)) (min (2 ^ 63 - 1) v))"

definition strtoull :: "nat \<Rightarrow> string \<Rightarrow> u64" where
  "strtoull base s =
     (let (neg, m) = strto base s
      in if 2 ^ 64 \<le> m then - 1 else if neg then - of_nat m else of_nat m)"

definition atoll :: "string \<Rightarrow> int" where
  "atoll s = strtoll 10 s"

definition atoi :: "string \<Rightarrow> int" where
  "atoi s = signed_take_bit 31 (strtoll 10 s)"

text \<open>\<open>%d\<close>.\<close>

definition digit_char :: "nat \<Rightarrow> char" where
  "digit_char d = char_of (48 + d)"

fun show_nat :: "nat \<Rightarrow> string" where
  "show_nat n = (if n < 10 then [digit_char n] else show_nat (n div 10) @ [digit_char (n mod 10)])"

declare show_nat.simps [simp del]

definition show_int :: "int \<Rightarrow> string" where
  "show_int i = (if i < 0 then CHR ''-'' # show_nat (nat (- i)) else show_nat (nat i))"

lemma strtoll_fits: "fits 64 (strtoll base s)"
  by (auto simp: strtoll_def fits_def Let_def split: prod.split)

lemma digit_of_digit_char:
  assumes "d < 10" shows "digit_of 10 (digit_char d) = Some d"
proof -
  have "of_char (digit_char d) = 48 + d"
    using assms by (simp add: digit_char_def)
  with assms show ?thesis by (simp add: digit_of_def)
qed

lemma digits_value_append:
  "(\<forall>c \<in> set s. digit_of base c \<noteq> None) \<Longrightarrow>
    digits_value base acc (s @ t) = digits_value base (digits_value base acc s) t"
  by (induction s arbitrary: acc) auto

lemma show_nat_digits: "c \<in> set (show_nat n) \<Longrightarrow> \<exists>d < 10. c = digit_char d"
proof (induction n arbitrary: c rule: show_nat.induct)
  case (1 n)
  show ?case
  proof (cases "n < 10")
    case True
    with "1.prems" show ?thesis by (auto simp: show_nat.simps [of n])
  next
    case False
    with "1.prems" consider "c \<in> set (show_nat (n div 10))" | "c = digit_char (n mod 10)"
      by (auto simp: show_nat.simps [of n])
    moreover have "n mod 10 < 10" by simp
    ultimately show ?thesis
      using "1.IH" [OF False] by cases blast+
  qed
qed

lemma digits_value_show_nat: "digits_value 10 0 (show_nat n) = n"
proof (induction n rule: show_nat.induct)
  case (1 n)
  show ?case
  proof (cases "n < 10")
    case True
    then show ?thesis by (simp add: show_nat.simps [of n] digit_of_digit_char)
  next
    case False
    have "\<forall>c \<in> set (show_nat (n div 10)). digit_of 10 c \<noteq> None"
      using show_nat_digits digit_of_digit_char by force
    with False "1.IH" show ?thesis
      by (simp add: show_nat.simps [of n] digits_value_append digit_of_digit_char)
  qed
qed

lemma show_nat_inj: "show_nat m = show_nat n \<longleftrightarrow> m = n"
  by (metis digits_value_show_nat)

lemma digit_char_plain:
  assumes "d < 10"
  shows "digit_char d \<noteq> CHR ''-''" and "digit_char d \<noteq> NUL" and "digit_char d \<noteq> CHR '' ''"
proof -
  have "of_char (digit_char d) = 48 + d"
    using assms by (simp add: digit_char_def)
  then show "digit_char d \<noteq> CHR ''-''" and "digit_char d \<noteq> NUL" and "digit_char d \<noteq> CHR '' ''"
    by (auto simp: of_char_eq_iff [symmetric, where 'a = nat] simp del: of_char_eq_iff)
qed

lemma show_nat_Nil [simp]: "show_nat n \<noteq> []"
  by (subst show_nat.simps) simp

lemma show_int_inj: "show_int i = show_int j \<longleftrightarrow> i = j"
proof
  assume eq: "show_int i = show_int j"
  have no_minus: "show_nat n \<noteq> CHR ''-'' # xs" for n xs
    using show_nat_digits [of "CHR ''-''" n] digit_char_plain(1) by force
  show "i = j"
    using eq no_minus no_minus [symmetric] show_nat_inj
    by (auto simp: show_int_def split: if_splits)
qed simp

lemma show_nat_no_NUL: "NUL \<notin> set (show_nat n)"
  using show_nat_digits [of NUL n] digit_char_plain(2) by force

lemma show_int_no_NUL: "NUL \<notin> set (show_int i)"
  by (simp add: show_int_def show_nat_no_NUL)

lemma isspace_digit_char: "d < 10 \<Longrightarrow> \<not> isspace (digit_char d)"
proof -
  assume "d < 10"
  then have n: "of_char (digit_char d) = 48 + d"
    by (simp add: digit_char_def)
  then have "digit_char d \<noteq> CHR '' ''"
    by (auto simp: of_char_eq_iff [symmetric, where 'a = nat] simp del: of_char_eq_iff)
  with n show ?thesis by (simp add: isspace_def)
qed

lemma strto_show_nat: "strto 10 (show_nat n) = (False, n)"
proof -
  obtain c cs where s: "show_nat n = c # cs"
    by (cases "show_nat n") simp_all
  then obtain d where d: "d < 10" "c = digit_char d"
    using show_nat_digits [of c n] by auto
  have "of_char c = 48 + d"
    using d by (simp add: digit_char_def)
  then have "c \<noteq> CHR ''-''" "c \<noteq> CHR ''+''"
    by (auto simp: of_char_eq_iff [symmetric, where 'a = nat] simp del: of_char_eq_iff)
  moreover have "skip_0x 10 s = s" for s
    by (simp add: skip_0x_def split: list.split)
  ultimately show ?thesis
    using digits_value_show_nat [of n] isspace_digit_char [OF d(1)] d(2)
    by (simp add: strto_def s Let_def)
qed

lemma strto_minus_show_nat: "strto 10 (CHR ''-'' # show_nat n) = (True, n)"
proof -
  have "\<not> isspace (CHR ''-'')" by (simp add: isspace_def)
  moreover have "skip_0x 10 s = s" for s
    by (simp add: skip_0x_def split: list.split)
  ultimately show ?thesis
    by (simp add: strto_def Let_def digits_value_show_nat)
qed

text \<open>Parsing inverts printing over the whole range of \<open>long long\<close>.\<close>

lemma atoll_show_int: "fits 64 i \<Longrightarrow> atoll (show_int i) = i"
  by (auto simp: atoll_def strtoll_def show_int_def strto_show_nat strto_minus_show_nat fits_def)

section \<open>Strings in a buffer\<close>

text \<open>
  A buffer is a list of bytes, a pointer into it an index. Every read and write is checked;
  \<open>scan\<close> is the search loop of the string functions: the first index from \<open>p\<close> on whose byte
  satisfies the test, a fault if the search runs off the buffer.
\<close>

type_synonym buf = "char list"

definition rd :: "buf \<Rightarrow> nat \<Rightarrow> char res" where
  "rd b i = (if i < length b then Inr (b ! i) else Inl OutOfBounds)"

definition wr :: "buf \<Rightarrow> nat \<Rightarrow> char \<Rightarrow> buf res" where
  "wr b i c = (if i < length b then Inr (b[i := c]) else Inl OutOfBounds)"

definition scan :: "(char \<Rightarrow> bool) \<Rightarrow> buf \<Rightarrow> nat \<Rightarrow> nat res" where
  "scan P b p =
     (let n = length (takeWhile (\<lambda>x. \<not> P x) (drop p b))
      in if p + n < length b then Inr (p + n) else Inl OutOfBounds)"

definition strlen :: "buf \<Rightarrow> nat \<Rightarrow> nat res" where
  "strlen b p = rbind (scan (\<lambda>x. x = NUL) b p) (\<lambda>e. Inr (e - p))"

definition strchr :: "buf \<Rightarrow> nat \<Rightarrow> char \<Rightarrow> nat option res" where
  "strchr b p c =
     rbind (scan (\<lambda>x. x = c \<or> x = NUL) b p) (\<lambda>e.
     rbind (rd b e) (\<lambda>x. Inr (if x = c then Some e else None)))"

text \<open>The C string a pointer denotes.\<close>

definition c_string :: "buf \<Rightarrow> nat \<Rightarrow> string res" where
  "c_string b p = rbind (scan (\<lambda>x. x = NUL) b p) (\<lambda>e. Inr (take (e - p) (drop p b)))"

text \<open>
  \<open>strtok_r\<close> from a start position: the token's pointer if there is one, the buffer with the
  token terminated, and the new save pointer.
\<close>

definition strtok_r :: "string \<Rightarrow> buf \<Rightarrow> nat \<Rightarrow> (nat option \<times> buf \<times> nat) res" where
  "strtok_r delims b s =
     rbind (rd b s) (\<lambda>c.
       if c = NUL then Inr (None, b, s)
       else rbind (scan (\<lambda>x. x \<notin> set delims) b s) (\<lambda>s1.
            rbind (rd b s1) (\<lambda>c1.
              if c1 = NUL then Inr (None, b, s1)
              else rbind (scan (\<lambda>x. x \<in> set delims \<or> x = NUL) b s1) (\<lambda>e.
                   rbind (rd b e) (\<lambda>ce.
                     if ce = NUL then Inr (Some s1, b, e)
                     else rbind (wr b e NUL) (\<lambda>b'. Inr (Some s1, b', e + 1)))))))"

text \<open>What it computes on the string as a value: the next token and what follows it.\<close>

definition next_tok :: "string \<Rightarrow> string \<Rightarrow> (string \<times> string) option" where
  "next_tok delims s =
     (let s1 = dropWhile (\<lambda>x. x \<in> set delims) s
      in if s1 = [] then None
         else Some (takeWhile (\<lambda>x. x \<notin> set delims) s1, tl (dropWhile (\<lambda>x. x \<notin> set delims) s1)))"

function tokens :: "string \<Rightarrow> string \<Rightarrow> string list" where
  "tokens delims s =
     (case next_tok delims s of None \<Rightarrow> [] | Some (t, r) \<Rightarrow> t # tokens delims r)"
  by pat_completeness auto

lemma length_dropWhile_less:
  assumes "dropWhile P s \<noteq> []"
  shows "length (tl (dropWhile Q (dropWhile P s))) < length s"
proof -
  have "length (dropWhile Q (dropWhile P s)) \<le> length (dropWhile P s)"
    and "length (dropWhile P s) \<le> length s"
    by (simp_all add: length_dropWhile_le)
  moreover have "0 < length (dropWhile P s)"
    using assms by (cases "dropWhile P s") simp_all
  ultimately show ?thesis unfolding length_tl by linarith
qed

termination tokens
  by (relation "measure (\<lambda>(d, s). length s)")
    (auto simp: next_tok_def Let_def split: if_splits intro: length_dropWhile_less)

declare tokens.simps [simp del]

section \<open>The tokeniser computes the tokens\<close>

text \<open>\<open>holds b p s\<close>: the buffer has the string \<open>s\<close> at \<open>p\<close>, terminated inside the buffer.\<close>

definition holds :: "buf \<Rightarrow> nat \<Rightarrow> string \<Rightarrow> bool" where
  "holds b p s \<longleftrightarrow> NUL \<notin> set s \<and> p + length s < length b \<and>
     take (length s) (drop p b) = s \<and> b ! (p + length s) = NUL"

lemma holds_split:
  "holds b p s \<longleftrightarrow> NUL \<notin> set s \<and> (\<exists>pre post. b = pre @ s @ NUL # post \<and> length pre = p)"
proof
  assume h: "holds b p s"
  then have "drop p b = take (length s) (drop p b) @ drop (p + length s) b"
    by (metis append_take_drop_id drop_drop add.commute)
  also have "drop (p + length s) b = NUL # drop (Suc (p + length s)) b"
    using h by (metis Cons_nth_drop_Suc holds_def)
  finally have "b = take p b @ s @ NUL # drop (Suc (p + length s)) b"
    using h by (metis append_take_drop_id holds_def)
  moreover have "length (take p b) = p"
    using h by (simp add: holds_def)
  ultimately show "NUL \<notin> set s \<and> (\<exists>pre post. b = pre @ s @ NUL # post \<and> length pre = p)"
    using h by (auto simp: holds_def)
qed (auto simp: holds_def nth_append)

lemma holdsE:
  assumes "holds b p s"
  obtains pre post where "b = pre @ s @ NUL # post" and "length pre = p" and "NUL \<notin> set s"
  using assms by (auto simp: holds_split)

lemma holdsI: "NUL \<notin> set s \<Longrightarrow> length pre = p \<Longrightarrow> holds (pre @ s @ NUL # post) p s"
  by (auto simp: holds_split)

lemma scan_append:
  assumes "\<forall>x \<in> set s. \<not> P x" and "P c"
  shows "scan P (pre @ s @ c # post) (length pre) = Inr (length pre + length s)"
  using assms by (simp add: scan_def Let_def takeWhile_append)

lemma scan_NUL:
  "NUL \<notin> set s \<Longrightarrow> scan (\<lambda>x. x = NUL) (pre @ s @ NUL # post) (length pre) = Inr (length pre + length s)"
  by (rule scan_append) auto

lemma c_string_holds: "holds b p s \<Longrightarrow> c_string b p = Inr s"
  by (erule holdsE) (auto simp: c_string_def scan_NUL)

lemma strlen_holds: "holds b p s \<Longrightarrow> strlen b p = Inr (length s)"
  by (erule holdsE) (auto simp: strlen_def scan_NUL)

lemma holds_nth: "holds b p s \<Longrightarrow> i < length s \<Longrightarrow> b ! (p + i) = s ! i"
  by (erule holdsE) (auto simp: nth_append)

lemma holds_frame:
  assumes "holds b q t" and "length b' = length b"
    and "\<And>i. q \<le> i \<Longrightarrow> i \<le> q + length t \<Longrightarrow> b' ! i = b ! i"
  shows "holds b' q t"
proof -
  have "q + length t < length b" and "NUL \<notin> set t" and "b ! (q + length t) = NUL"
    using assms(1) by (simp_all add: holds_def)
  moreover from this have "take (length t) (drop q b') = t"
    using assms(2,3) holds_nth [OF assms(1)] by (intro nth_equalityI) simp_all
  ultimately show ?thesis using assms(2,3) by (simp add: holds_def)
qed

lemma rd_holds_head: "holds b p s \<Longrightarrow> rd b p = Inr (case s of [] \<Rightarrow> NUL | c # _ \<Rightarrow> c)"
  by (erule holdsE) (auto simp: rd_def nth_append split: list.split)

text \<open>
  One call on a string: where \<open>next_tok\<close> finds a token, so does \<open>strtok_r\<close>; the token and
  what follows it stand in the buffer afterwards, and only bytes of the string are written.
\<close>

lemma strtok_r_None:
  assumes "holds b p s" and "next_tok d s = None" and "NUL \<notin> set d"
  shows "\<exists>q. strtok_r d b p = Inr (None, b, q)"
proof -
  obtain pre post where b: "b = pre @ s @ NUL # post" "length pre = p" "NUL \<notin> set s"
    using assms(1) by (rule holdsE)
  have all: "\<forall>x \<in> set s. x \<in> set d"
    using assms(2) by (auto simp: next_tok_def Let_def split: if_splits)
  show ?thesis
  proof (cases s)
    case Nil
    with rd_holds_head [OF assms(1)] show ?thesis by (simp add: strtok_r_def)
  next
    case (Cons c cs)
    have "scan (\<lambda>x. x \<notin> set d) b p = Inr (p + length s)"
      using b all assms(3) scan_append [of s "\<lambda>x. x \<notin> set d" NUL pre post] by simp
    moreover have "rd b (p + length s) = Inr NUL"
      using b by (simp add: rd_def nth_append)
    ultimately show ?thesis
      using rd_holds_head [OF assms(1)] by (simp add: strtok_r_def Cons)
  qed
qed

lemma strtok_r_Some:
  assumes h: "holds b p s" and tok: "next_tok d s = Some (t, r)" and d: "NUL \<notin> set d"
  shows "\<exists>q b' p'. strtok_r d b p = Inr (Some q, b', p') \<and> length b' = length b \<and>
    holds b' q t \<and> holds b' p' r \<and> p \<le> q \<and> q + length t \<le> p' \<and>
    (r \<noteq> [] \<longrightarrow> q + length t < p') \<and> p' + length r \<le> p + length s \<and>
    (\<forall>i. i < p \<or> p + length s \<le> i \<longrightarrow> b' ! i = b ! i)"
proof -
  define pr where "pr = takeWhile (\<lambda>x. x \<in> set d) s"
  define s1 where "s1 = dropWhile (\<lambda>x. x \<in> set d) s"
  have s: "s = pr @ s1" and s1: "s1 \<noteq> []" and t: "t = takeWhile (\<lambda>x. x \<notin> set d) s1"
    and r: "r = tl (dropWhile (\<lambda>x. x \<notin> set d) s1)"
    using tok by (auto simp: pr_def s1_def next_tok_def Let_def split: if_splits)
  obtain pre post where b: "b = pre @ s @ NUL # post" "length pre = p" "NUL \<notin> set s"
    using h by (rule holdsE)
  obtain c cs where c: "s1 = c # cs" using s1 by (cases s1) auto
  have cd: "c \<notin> set d"
    using c s1_def hd_dropWhile [of "\<lambda>x. x \<in> set d" s] by simp
  have pr: "\<forall>x \<in> set pr. x \<in> set d"
    by (auto simp: pr_def dest: set_takeWhileD)
  have scan1: "scan (\<lambda>x. x \<notin> set d) b p = Inr (p + length pr)"
    using scan_append [of pr "\<lambda>x. x \<notin> set d" c pre "cs @ NUL # post"] pr cd b s c by simp
  have rd1: "rd b (p + length pr) = Inr c" and cN: "c \<noteq> NUL"
    using b s c by (auto simp: rd_def nth_append)
  have rd0: "\<exists>c0. rd b p = Inr c0 \<and> c0 \<noteq> NUL"
    using rd_holds_head [OF h] s c b(3) by (cases pr) auto
  define u where "u = dropWhile (\<lambda>x. x \<notin> set d) s1"
  have s1tu: "s1 = t @ u" by (simp add: t u_def)
  have tP: "\<forall>x \<in> set t. \<not> (x \<in> set d \<or> x = NUL)"
  proof
    fix x assume "x \<in> set t"
    then have "x \<in> set (takeWhile (\<lambda>x. x \<notin> set d) s1)"
      by (simp only: t)
    then have "x \<notin> set d \<and> x \<in> set s1"
      by (blast dest: set_takeWhileD)
    with b(3) s show "\<not> (x \<in> set d \<or> x = NUL)" by auto
  qed
  show ?thesis
  proof (cases u)
    case Nil
    have "scan (\<lambda>x. x \<in> set d \<or> x = NUL) b (p + length pr) = Inr (p + length pr + length t)"
      using scan_append [of t "\<lambda>x. x \<in> set d \<or> x = NUL" NUL "pre @ pr" post] tP b s s1tu Nil by simp
    moreover have "rd b (p + length pr + length t) = Inr NUL"
      using b s s1tu Nil by (simp add: rd_def nth_append)
    ultimately have "strtok_r d b p = Inr (Some (p + length pr), b, p + length pr + length t)"
      using rd0 scan1 rd1 cN by (auto simp: strtok_r_def)
    moreover have "holds b (p + length pr) t"
      using holdsI [of t "pre @ pr" "p + length pr" post] b s s1tu Nil by simp
    moreover have "r = []"
      unfolding r Nil [unfolded u_def] by simp
    moreover have "holds b (p + length pr + length t) []"
      using holdsI [of "[]" "pre @ pr @ t" "p + length pr + length t" post] b s s1tu Nil by simp
    ultimately show ?thesis using s s1tu Nil by auto
  next
    case (Cons e us)
    have e: "e \<in> set d"
      using Cons hd_dropWhile [of "\<lambda>x. x \<notin> set d" s1] by (simp add: u_def)
    have eN: "e \<noteq> NUL" using e d by auto
    have r_us: "r = us" using r Cons unfolding u_def by simp
    let ?b = "pre @ pr @ t @ NUL # us @ NUL # post"
    have len: "length ?b = length b"
      and "scan (\<lambda>x. x \<in> set d \<or> x = NUL) b (p + length pr) = Inr (p + length pr + length t)"
      using scan_append [of t "\<lambda>x. x \<in> set d \<or> x = NUL" e "pre @ pr" "us @ NUL # post"]
        tP e b s s1tu Cons by simp_all
    moreover have "rd b (p + length pr + length t) = Inr e"
      and "wr b (p + length pr + length t) NUL = Inr ?b"
      using b s s1tu Cons by (simp_all add: rd_def wr_def nth_append list_update_append)
    ultimately have "strtok_r d b p = Inr (Some (p + length pr), ?b, p + length pr + length t + 1)"
      using rd0 scan1 rd1 cN eN by (auto simp: strtok_r_def)
    moreover have "holds ?b (p + length pr) t"
      using holdsI [of t "pre @ pr" "p + length pr" "us @ NUL # post"] b(2,3) s s1tu by simp
    moreover have "holds ?b (p + length pr + length t + 1) r"
      using holdsI [of us "pre @ pr @ t @ [NUL]" "p + length pr + length t + 1" post]
        b(2,3) s s1tu Cons r_us by simp
    moreover have "\<forall>i. i < p \<or> p + length s \<le> i \<longrightarrow> ?b ! i = b ! i"
      using b(1,2) s s1tu Cons by (auto simp: nth_append nth_Cons split: nat.split)
    ultimately show ?thesis using len s s1tu Cons r_us by auto
  qed
qed

section \<open>Loops over the tokens of a line\<close>

text \<open>
  \<open>for (i = 0; i < n && tok; i++) { body; tok = strtok_r(NULL, delims, &save); }\<close> after a first
  call on the line. The body gets the index, the token's pointer and the string it denotes
  at that moment, and the loop's accumulator; it may fault.
\<close>

function tok_loop ::
  "string \<Rightarrow> (nat \<Rightarrow> nat \<Rightarrow> string \<Rightarrow> 'a \<Rightarrow> 'a res) \<Rightarrow> nat \<Rightarrow> nat \<Rightarrow> nat option \<Rightarrow> buf \<Rightarrow> nat \<Rightarrow> 'a \<Rightarrow>
   ('a \<times> nat \<times> buf) res" where
  "tok_loop d f n i tok b save acc =
     (case tok of None \<Rightarrow> Inr (acc, i, b)
      | Some p \<Rightarrow>
          if i < n then
            rbind (c_string b p) (\<lambda>t.
            rbind (f i p t acc) (\<lambda>acc.
            rbind (strtok_r d b save) (\<lambda>(tok, b, save).
              tok_loop d f n (Suc i) tok b save acc)))
          else Inr (acc, i, b))"
  by pat_completeness auto
termination
  by (relation "measure (\<lambda>(d, f, n, i, tok, b, save, acc). n - i)") auto

declare tok_loop.simps [simp del]

definition tok_for ::
  "string \<Rightarrow> (nat \<Rightarrow> nat \<Rightarrow> string \<Rightarrow> 'a \<Rightarrow> 'a res) \<Rightarrow> nat \<Rightarrow> buf \<Rightarrow> nat \<Rightarrow> 'a \<Rightarrow> ('a \<times> nat \<times> buf) res"
where
  "tok_for d f n b line acc =
     rbind (strtok_r d b line) (\<lambda>(tok, b, save). tok_loop d f n 0 tok b save acc)"

text \<open>The loop as a fold over the tokens, with the pointers they were found at.\<close>

fun fold_body ::
  "(nat \<Rightarrow> nat \<Rightarrow> string \<Rightarrow> 'a \<Rightarrow> 'a res) \<Rightarrow> nat \<Rightarrow> (nat \<times> string) list \<Rightarrow> 'a \<Rightarrow> 'a res" where
  "fold_body f i [] acc = Inr acc"
| "fold_body f i ((p, t) # xs) acc = rbind (f i p t acc) (\<lambda>acc. fold_body f (Suc i) xs acc)"

lemma tok_loop_None [simp]: "tok_loop d f n i None b save acc = Inr (acc, i, b)"
  by (simp add: tok_loop.simps)

lemma tok_loop_full: "n \<le> i \<Longrightarrow> tok_loop d f n i tok b save acc = Inr (acc, i, b)"
  by (simp add: tok_loop.simps split: option.split)

lemma tok_loop_Some:
  assumes "i < n" and "holds b p t"
  shows "tok_loop d f n i (Some p) b save acc =
    rbind (f i p t acc) (\<lambda>acc. rbind (strtok_r d b save) (\<lambda>(tok, b, save).
      tok_loop d f n (Suc i) tok b save acc))"
  using assms c_string_holds [OF assms(2)] by (simp add: tok_loop.simps [of d f n i])

lemma tok_loop_holds:
  assumes "NUL \<notin> set d" and "holds b q t" and "holds b save r" and "q + length t \<le> save"
    and "r \<noteq> [] \<Longrightarrow> q + length t < save" and "xs = take (n - i) (t # tokens d r)"
  shows "\<exists>ps b'. length ps = length xs \<and>
    (\<forall>acc. tok_loop d f n i (Some q) b save acc =
       rbind (fold_body f i (zip ps xs) acc) (\<lambda>acc. Inr (acc, i + length xs, b'))) \<and>
    length b' = length b \<and> list_all2 (holds b') ps xs \<and>
    (\<forall>j. j < save \<or> save + length r \<le> j \<longrightarrow> b' ! j = b ! j)"
  using assms(2-6)
proof (induction "n - i" arbitrary: i q t b save r xs)
  case 0
  then show ?case by (intro exI [of _ "[]"] exI [of _ b]) (simp add: tok_loop_full)
next
  case (Suc k)
  have i: "i < n" using Suc.hyps(2) by simp
  show ?case
  proof (cases "next_tok d r")
    case None
    then have xs: "xs = [t]"
      using Suc.prems(5) i by (simp add: tokens.simps [of d r])
    obtain q' where "strtok_r d b save = Inr (None, b, q')"
      using strtok_r_None [OF Suc.prems(2) None assms(1)] by blast
    then show ?thesis
      using Suc.prems(1) i
      by (intro exI [of _ "[q]"] exI [of _ b]) (simp add: tok_loop_Some xs rbind_assoc)
  next
    case (Some tr)
    obtain t2 r2 where t2: "tr = (t2, r2)" by (cases tr)
    obtain q2 b2 s2 where call: "strtok_r d b save = Inr (Some q2, b2, s2)"
      and len: "length b2 = length b" and h2: "holds b2 q2 t2" "holds b2 s2 r2"
      and pos: "save \<le> q2" "q2 + length t2 \<le> s2" "r2 \<noteq> [] \<longrightarrow> q2 + length t2 < s2"
        "s2 + length r2 \<le> save + length r"
      and fr: "\<forall>j. j < save \<or> save + length r \<le> j \<longrightarrow> b2 ! j = b ! j"
      using strtok_r_Some [OF Suc.prems(2) Some [unfolded t2] assms(1)] by blast
    define ys where "ys = take (n - Suc i) (t2 # tokens d r2)"
    have xs: "xs = t # ys"
      using Suc.prems(5) i Some t2
      by (simp add: ys_def tokens.simps [of d r] Suc_diff_Suc [symmetric])
    have "\<exists>ps b'. length ps = length ys \<and>
      (\<forall>acc. tok_loop d f n (Suc i) (Some q2) b2 s2 acc =
         rbind (fold_body f (Suc i) (zip ps ys) acc) (\<lambda>acc. Inr (acc, Suc i + length ys, b'))) \<and>
      length b' = length b2 \<and> list_all2 (holds b') ps ys \<and>
      (\<forall>j. j < s2 \<or> s2 + length r2 \<le> j \<longrightarrow> b' ! j = b2 ! j)"
      by (rule Suc.hyps(1) [OF _ h2 pos(2) _ ys_def]) (use Suc.hyps(2) pos(3) in auto)
    then obtain ps b' where rec: "length ps = length ys"
      "\<And>acc. tok_loop d f n (Suc i) (Some q2) b2 s2 acc =
         rbind (fold_body f (Suc i) (zip ps ys) acc) (\<lambda>acc. Inr (acc, Suc i + length ys, b'))"
      "length b' = length b2" "list_all2 (holds b') ps ys"
      "\<And>j. j < s2 \<or> s2 + length r2 \<le> j \<Longrightarrow> b' ! j = b2 ! j"
      by blast
    have "r \<noteq> []" using Some by (auto simp: next_tok_def)
    then have "q + length t < save" by (rule Suc.prems(4))
    then have "holds b' q t"
      using rec(3,5) fr len pos by (intro holds_frame [OF Suc.prems(1)]) simp_all
    moreover have "b' ! j = b ! j" if "j < save \<or> save + length r \<le> j" for j
      using that rec(5) [of j] fr pos by auto
    ultimately show ?thesis
      using rec len call i Suc.prems(1)
      by (intro exI [of _ "q # ps"] exI [of _ b']) (simp add: xs tok_loop_Some rbind_assoc)
  qed
qed

lemma tok_for_holds:
  assumes h: "holds b p s" and d: "NUL \<notin> set d" and xs: "xs = take n (tokens d s)"
  shows "\<exists>ps b'. length ps = length xs \<and>
    (\<forall>acc. tok_for d f n b p acc =
       rbind (fold_body f 0 (zip ps xs) acc) (\<lambda>acc. Inr (acc, length xs, b'))) \<and>
    length b' = length b \<and> list_all2 (holds b') ps xs \<and>
    (\<forall>j. j < p \<or> p + length s \<le> j \<longrightarrow> b' ! j = b ! j)"
proof (cases "next_tok d s")
  case None
  then obtain q where "strtok_r d b p = Inr (None, b, q)"
    using strtok_r_None [OF h None d] by blast
  with None xs show ?thesis
    by (intro exI [of _ "[]"] exI [of _ b]) (simp add: tok_for_def tokens.simps [of d s])
next
  case (Some tr)
  obtain t r where t: "tr = (t, r)" by (cases tr)
  obtain q b1 sv where call: "strtok_r d b p = Inr (Some q, b1, sv)"
    and len: "length b1 = length b" and h1: "holds b1 q t" "holds b1 sv r"
    and pos: "p \<le> q" "q + length t \<le> sv" "r \<noteq> [] \<Longrightarrow> q + length t < sv"
      "sv + length r \<le> p + length s"
    and fr: "\<forall>j. j < p \<or> p + length s \<le> j \<longrightarrow> b1 ! j = b ! j"
    using strtok_r_Some [OF h Some [unfolded t] d] by blast
  have "xs = take (n - 0) (t # tokens d r)"
    using xs Some t by (simp add: tokens.simps [of d s])
  from tok_loop_holds [OF d h1 pos(2,3) this, of f]
  obtain ps b' where rec: "length ps = length xs"
    "\<And>acc. tok_loop d f n 0 (Some q) b1 sv acc =
       rbind (fold_body f 0 (zip ps xs) acc) (\<lambda>acc. Inr (acc, length xs, b'))"
    "length b' = length b1" "list_all2 (holds b') ps xs"
    "\<And>j. j < sv \<or> sv + length r \<le> j \<Longrightarrow> b' ! j = b1 ! j"
    by auto
  have "b' ! j = b ! j" if "j < p \<or> p + length s \<le> j" for j
    using that rec(5) [of j] fr pos by auto
  with rec len call show ?thesis
    by (intro exI [of _ ps] exI [of _ b']) (simp add: tok_for_def)
qed

text \<open>None of this changes the length of a buffer.\<close>

lemma wr_length: "wr b i c = Inr b' \<Longrightarrow> length b' = length b"
  by (auto simp: wr_def split: if_splits)

lemma strtok_r_length: "strtok_r d b s = Inr (tok, b', s') \<Longrightarrow> length b' = length b"
  by (auto simp: strtok_r_def rbind_eq_Inr dest: wr_length split: if_splits)

lemma tok_loop_length: "tok_loop d f n i tok b save acc = Inr (acc', k, b') \<Longrightarrow> length b' = length b"
proof (induction d f n i tok b save acc rule: tok_loop.induct)
  case (1 d f n i tok b save acc)
  note eq = "1.prems" [unfolded tok_loop.simps [of d f n i tok b save acc]]
  show ?case
  proof (cases tok)
    case None
    with eq show ?thesis by simp
  next
    case (Some p)
    show ?thesis
    proof (cases "i < n")
      case True
      with eq Some obtain t acc1 tok' b1 save'
        where t: "c_string b p = Inr t" "f i p t acc = Inr acc1"
          and b1: "strtok_r d b save = Inr (tok', b1, save')"
          and rest: "tok_loop d f n (Suc i) tok' b1 save' acc1 = Inr (acc', k, b')"
        by (auto simp: rbind_eq_Inr split: prod.splits)
      from "1.IH" [OF Some True t b1 refl refl rest] show ?thesis
        by (simp add: strtok_r_length [OF b1])
    next
      case False
      with eq Some show ?thesis by simp
    qed
  qed
qed

lemma tok_for_length: "tok_for d f n b line acc = Inr (acc', k, b') \<Longrightarrow> length b' = length b"
  by (auto simp: tok_for_def rbind_eq_Inr dest!: strtok_r_length tok_loop_length split: prod.splits)

lemma set_tl_subset: "set (tl xs) \<subseteq> set xs"
  by (cases xs) auto

lemma tokens_set: "t \<in> set (tokens d s) \<Longrightarrow> set t \<subseteq> set s - set d \<and> t \<noteq> []"
proof (induction d s rule: tokens.induct)
  case (1 d s)
  show ?case
  proof (cases "next_tok d s")
    case None
    with "1.prems" show ?thesis by (simp add: tokens.simps [of d s])
  next
    case (Some tr)
    obtain u r where tr: "tr = (u, r)" by (cases tr)
    define s1 where "s1 = dropWhile (\<lambda>x. x \<in> set d) s"
    have u: "u = takeWhile (\<lambda>x. x \<notin> set d) s1" and r: "r = tl (dropWhile (\<lambda>x. x \<notin> set d) s1)"
      and ne: "s1 \<noteq> []"
      using Some tr by (auto simp: next_tok_def Let_def s1_def split: if_splits)
    have s1: "set s1 \<subseteq> set s"
      by (auto simp: s1_def dest: set_dropWhileD)
    have "set r \<subseteq> set (dropWhile (\<lambda>x. x \<notin> set d) s1)"
      unfolding r by (rule set_tl_subset)
    then have r_sub: "set r \<subseteq> set s"
      using s1 by (auto dest: set_dropWhileD)
    have u_sub: "set u \<subseteq> set s - set d"
      using s1 unfolding u by (auto dest: set_takeWhileD)
    have "hd s1 \<notin> set d"
      using hd_dropWhile [of "\<lambda>x. x \<in> set d" s] ne by (simp add: s1_def)
    then have "u \<noteq> []"
      using ne unfolding u by (cases s1) auto
    moreover have "t = u \<or> t \<in> set (tokens d r)"
      using "1.prems" Some tr by (auto simp: tokens.simps [of d s])
    ultimately show ?thesis
      using "1.IH" [OF Some tr [symmetric]] u_sub r_sub by auto
  qed
qed

end
