(* ===== verification/MemTool.thy ===== *)
theory MemTool
  imports CLib EnzianMemory
begin

text \<open>
  The example program \<open>mem.c\<close>: it maps the FPGA memory and reads or writes one 64-bit word,
  flushing the word's cache line through the driver's ioctl after a write.
\<close>

section \<open>The program\<close>

text \<open>What the program does to the outside, in order.\<close>

datatype mem_event =
    MemOpen string
  | MemMmap u64 u64              \<comment> \<open>address asked for, length\<close>
  | MemReadTsc
  | MemLoad u64                  \<comment> \<open>address\<close>
  | MemStore u64 u64             \<comment> \<open>address, value\<close>
  | MemBarrier
  | MemIoctl u32 u64
  | MemPrintMapping u64 u64
  | MemPrintErrno
  | MemPrintMapped u64
  | MemPrintRead u64 u64         \<comment> \<open>value, nanoseconds\<close>
  | MemPrintWritten u64 u64
  | MemMunmap u64 u64
  | MemClose

text \<open>
  The environment: the results of the system calls, the counter readings in the order they are
  taken, and the words in memory.
\<close>

record mem_env =
  open_ret :: int
  mmap_ret :: "u64 option"       \<comment> \<open>\<open>None\<close> is \<open>MAP_FAILED\<close>\<close>
  munmap_ret :: int
  tsc :: "nat \<Rightarrow> u64"
  words :: "u64 \<Rightarrow> u64"

definition phys_addr :: u64 where
  "phys_addr = 0x10000000000"

definition map_size :: u64 where
  "map_size = 1024 * 1024 * 1024 * 1024"

text \<open>\<open>ptr[offset / 8]\<close>: the element's address, a fault where it lies outside the mapping.\<close>

definition word_at :: "u64 \<Rightarrow> u64 \<Rightarrow> u64 res" where
  "word_at ptr i =
     (if 8 * unat i + 8 \<le> unat map_size then Inr (ptr + 8 * i) else Inl OutOfBounds)"

definition mem_access ::
  "mem_env \<Rightarrow> string list \<Rightarrow> u64 \<Rightarrow> u64 \<Rightarrow> (mem_event list \<times> (u64 \<Rightarrow> u64)) res" where
  "mem_access env argv ptr offset =
     (if length argv = 2 then
        rbind (word_at ptr (offset div 8)) (\<lambda>a.
          let val = words env a
          in Inr ([MemReadTsc, MemLoad a, MemReadTsc,
                   MemPrintRead val ((tsc env 1 - tsc env 0) * 10)], words env))
      else if length argv = 3 then
        (let val = strtoull 16 (argv ! 2) in
         rbind (word_at ptr (offset div 8)) (\<lambda>a.
           Inr ([MemReadTsc, MemStore a val, MemBarrier, MemIoctl 5 (phys_addr + offset),
                 MemReadTsc, MemPrintWritten val ((tsc env 1 - tsc env 0) * 10)],
                (words env)(a := val))))
      else Inr ([], words env))"

definition mem_main ::
  "mem_env \<Rightarrow> string list \<Rightarrow> (int \<times> mem_event list \<times> (u64 \<Rightarrow> u64)) res" where
  "mem_main env argv =
     rbind (guard_res (0 \<le> open_ret env) AssertFailed) (\<lambda>_.
       let offset = (if 1 < length argv then word_of_int (strtoll 16 (argv ! 1)) else 0) in
       case mmap_ret env of
         None \<Rightarrow> Inl AssertFailed
       | Some addr \<Rightarrow>
           rbind (mem_access env argv addr offset) (\<lambda>(evs, ws).
           rbind (guard_res (munmap_ret env = 0) AssertFailed) (\<lambda>_.
             Inr (0, [MemOpen ''/dev/fpgamem'', MemPrintMapping phys_addr map_size,
                      MemMmap phys_addr map_size, MemPrintErrno, MemPrintMapped addr] @
                     evs @ [MemMunmap addr map_size, MemClose], ws))))"

text \<open>The environment after a run: the same answers, the memory as the run left it.\<close>

definition env_after :: "mem_env \<Rightarrow> (u64 \<Rightarrow> u64) \<Rightarrow> mem_env" where
  "env_after env ws = env\<lparr>words := ws\<rparr>"

text \<open>The driver calls of a trace, as the requests the kernel hands to the driver.\<close>

definition ioctls :: "mem_event list \<Rightarrow> (u32 \<times> u64) list" where
  "ioctls evs = concat (map (\<lambda>e. case e of MemIoctl c a \<Rightarrow> [(c, a)] | _ \<Rightarrow> []) evs)"

section \<open>Its properties\<close>

text \<open>
  The calls succeed: the device opens, \<open>MAP_FIXED\<close> gives the address asked for, unmapping
  succeeds.
\<close>

definition good_env :: "mem_env \<Rightarrow> bool" where
  "good_env env \<longleftrightarrow> 0 \<le> open_ret env \<and> mmap_ret env = Some phys_addr \<and> munmap_ret env = 0"

lemma unat_map_size: "unat map_size = 2 ^ 40"
  by (simp add: map_size_def)

lemma block8_bound: "8 * (n div 8) + 8 \<le> (2 :: nat) ^ 40 \<longleftrightarrow> n < 2 ^ 40"
  by simp presburger

lemma word_at_ok:
  assumes "unat off < 2 ^ 40"
  shows "word_at ptr (off div 8) = Inr (ptr + 8 * (off div 8))"
  using assms block8_bound [of "unat off"] by (simp add: word_at_def unat_map_size unat_div)

lemma word_at_fault:
  assumes "2 ^ 40 \<le> unat off"
  shows "word_at ptr (off div 8) = Inl OutOfBounds"
  using assms block8_bound [of "unat off"] by (simp add: word_at_def unat_map_size unat_div)

definition offset_arg :: "string list \<Rightarrow> u64" where
  "offset_arg argv = word_of_int (strtoll 16 (argv ! 1))"

definition word_addr :: "u64 \<Rightarrow> u64" where
  "word_addr off = phys_addr + 8 * (off div 8)"

lemma unat_word_addr:
  assumes "unat off < 2 ^ 40"
  shows "unat (word_addr off) = 2 ^ 40 + 8 * (unat off div 8)"
    and "unat (phys_addr + off) = 2 ^ 40 + unat off"
proof -
  have "8 * (unat off div 8) \<le> unat off" by simp
  then have small: "8 * (unat off div 8) < 2 ^ 40" using assms by linarith
  then have "unat (8 * (off div 8)) = 8 * (unat off div 8)"
    by (simp add: unat_word_ariths unat_div)
  with small show "unat (word_addr off) = 2 ^ 40 + 8 * (unat off div 8)"
    by (simp add: word_addr_def phys_addr_def unat_word_ariths(1))
  show "unat (phys_addr + off) = 2 ^ 40 + unat off"
    using assms by (simp add: phys_addr_def unat_word_ariths(1))
qed

lemma same_line_nat: "(2 ^ 40 + n) div 128 = (2 ^ 40 + 8 * (n div 8)) div (128 :: nat)"
proof -
  have split: "m div 128 = m div 8 div 16" for m :: nat
    by (simp add: div_mult2_eq [symmetric])
  have "(2 ^ 40 + n) div 8 = (2 ^ 40 + 8 * (n div 8)) div (8 :: nat)"
    by simp
  then show ?thesis by (simp only: split)
qed

lemma same_line:
  assumes "unat off < 2 ^ 40"
  shows "drop_bit 7 (phys_addr + off) = drop_bit 7 (word_addr off)"
proof -
  have "unat (drop_bit 7 (phys_addr + off)) = (2 ^ 40 + unat off) div 128"
    by (simp add: drop_bit_eq_div unat_div unat_word_addr(2) [OF assms])
  also have "\<dots> = (2 ^ 40 + 8 * (unat off div 8)) div 128"
    by (rule same_line_nat)
  also have "\<dots> = unat (drop_bit 7 (word_addr off))"
    by (simp add: drop_bit_eq_div unat_div unat_word_addr(1) [OF assms])
  finally show ?thesis by (simp add: word_unat_eq_iff)
qed

lemma mem_write_effect:
  assumes "good_env env" and "length argv = 3" and "unat (offset_arg argv) < 2 ^ 40"
    and "mem_main env argv = Inr (r, evs, ws)"
  shows "ws = (words env)(word_addr (offset_arg argv) := strtoull 16 (argv ! 2))"
  using assms word_at_ok [OF assms(3)]
  by (auto simp: mem_main_def good_env_def mem_access_def offset_arg_def word_addr_def Let_def)

lemma mem_main_write_returns:
  assumes "good_env env" and "length argv = 3" and "unat (offset_arg argv) < 2 ^ 40"
  shows "\<exists>evs ws. mem_main env argv = Inr (0, evs, ws)"
  using assms word_at_ok [OF assms(3)]
  by (simp add: mem_main_def good_env_def mem_access_def offset_arg_def Let_def)

text \<open>
  C23: \<open>mem address value\<close> with an offset inside the 1 TB window stores the parsed value in the
  64-bit word the offset falls in and nothing else, and after the store and the barrier the
  driver executes one instruction, the write-back-invalidate of the L2 line at the given
  address, which is the 128-byte line the stored word lies in.
\<close>

theorem mem_write_flushes_its_line:
  assumes "good_env env" and "length argv = 3" and "unat (offset_arg argv) < 2 ^ 40"
  shows "\<exists>evs. mem_main env argv =
      Inr (0, evs, (words env)(word_addr (offset_arg argv) := strtoull 16 (argv ! 2))) \<and>
    (\<exists>before after. evs = before @ MemStore (word_addr (offset_arg argv)) (strtoull 16 (argv ! 2)) #
        MemBarrier # MemIoctl 5 (phys_addr + offset_arg argv) # after) \<and>
    snd (ioctl_all enzian_memory_ioctl (ioctls evs) []) = [SYS 0 11 1 2 (phys_addr + offset_arg argv)] \<and>
    drop_bit 7 (phys_addr + offset_arg argv) = drop_bit 7 (word_addr (offset_arg argv))"
proof -
  let ?off = "offset_arg argv" and ?val = "strtoull 16 (argv ! 2)"
  let ?evs = "[MemOpen ''/dev/fpgamem'', MemPrintMapping phys_addr map_size,
    MemMmap phys_addr map_size, MemPrintErrno, MemPrintMapped phys_addr, MemReadTsc] @
    MemStore (word_addr ?off) ?val # MemBarrier # MemIoctl 5 (phys_addr + ?off) #
    [MemReadTsc, MemPrintWritten ?val ((tsc env 1 - tsc env 0) * 10),
     MemMunmap phys_addr map_size, MemClose]"
  have "mem_main env argv = Inr (0, ?evs, (words env)(word_addr ?off := ?val))"
    using assms word_at_ok [OF assms(3)]
    by (simp add: mem_main_def good_env_def mem_access_def offset_arg_def word_addr_def Let_def)
  moreover have "snd (ioctl_all enzian_memory_ioctl (ioctls ?evs) []) = [SYS 0 11 1 2 (phys_addr + ?off)]"
    by (simp add: ioctls_def enzian_memory_ioctl_def)
  ultimately show ?thesis
    using same_line [OF assms(3)] by blast
qed

text \<open>
  C24: what one run writes, the next run with the same address reads and prints.
\<close>

theorem mem_write_then_read:
  assumes "good_env env" and "unat (offset_arg [prog, addr, val]) < 2 ^ 40"
    and "mem_main env [prog, addr, val] = Inr (r, evs, ws)"
  shows "\<exists>ns evs' after. mem_main (env_after env ws) [prog, addr] = Inr (0, evs', ws) \<and>
    evs' = [MemOpen ''/dev/fpgamem'', MemPrintMapping phys_addr map_size,
      MemMmap phys_addr map_size, MemPrintErrno, MemPrintMapped phys_addr,
      MemReadTsc, MemLoad (word_addr (offset_arg [prog, addr, val])), MemReadTsc,
      MemPrintRead (strtoull 16 val) ns] @ after"
proof -
  have ws: "ws = (words env)(word_addr (offset_arg [prog, addr, val]) := strtoull 16 val)"
    using mem_write_effect [OF assms(1) _ assms(2)] assms(3) by simp
  show ?thesis
    using assms(1,2) word_at_ok [OF assms(2)]
    by (simp add: mem_main_def good_env_def mem_access_def offset_arg_def word_addr_def env_after_def
        ws Let_def)
qed

text \<open>
  C34: with one or two arguments the program runs to completion exactly when the offset is
  below 1 TB; an offset beyond it (a negative one included, which becomes a huge unsigned
  value) makes the access leave the mapping.
\<close>

theorem mem_runs_iff_in_window:
  assumes "good_env env" and "length argv = 2 \<or> length argv = 3"
  shows "if unat (offset_arg argv) < 2 ^ 40 then \<exists>evs ws. mem_main env argv = Inr (0, evs, ws)
    else mem_main env argv = Inl OutOfBounds"
proof (cases "unat (offset_arg argv) < 2 ^ 40")
  case True
  then show ?thesis
    using assms word_at_ok [OF True]
    by (auto simp: mem_main_def good_env_def mem_access_def offset_arg_def Let_def)
next
  case False
  then have "word_at phys_addr (offset_arg argv div 8) = Inl OutOfBounds"
    by (simp add: word_at_fault)
  then show ?thesis
    using assms False
    by (auto simp: mem_main_def good_env_def mem_access_def offset_arg_def Let_def)
qed

section \<open>A run\<close>

definition sample_mem_env :: mem_env where
  "sample_mem_env = \<lparr>open_ret = 3, mmap_ret = Some phys_addr, munmap_ret = 0,
     tsc = (\<lambda>n. of_nat (100 + 7 * n)), words = (\<lambda>_. 0)\<rparr>"

lemma sample_strto: "strto 16 ''0x8C'' = (False, 140)" "strto 16 ''-1'' = (True, 1)"
  by code_simp+

lemma sample_offset: "offset_arg (prog # ''0x8C'' # args) = 140"
  by (simp add: offset_arg_def strtoll_def sample_strto)

lemma sample_good: "good_env sample_mem_env"
  by (simp add: good_env_def sample_mem_env_def)

lemma sample_value: "strtoull 16 ''-1'' = - 1"
  by (simp add: strtoull_def sample_strto)

theorem mem_write_flushes_its_line_witness:
  "\<exists>evs ws. mem_main sample_mem_env [''mem'', ''0x8C'', ''-1''] = Inr (0, evs, ws) \<and>
    snd (ioctl_all enzian_memory_ioctl (ioctls evs) []) =
      [SYS 0 11 1 2 (phys_addr + offset_arg [''mem'', ''0x8C'', ''-1''])]"
  using mem_write_flushes_its_line [OF sample_good, of "[''mem'', ''0x8C'', ''-1'']"]
  by (auto simp: sample_offset)

theorem mem_write_then_read_witness:
  "\<exists>evs ws evs'. mem_main sample_mem_env [''mem'', ''0x8C'', ''-1''] = Inr (0, evs, ws) \<and>
    mem_main (env_after sample_mem_env ws) [''mem'', ''0x8C''] = Inr (0, evs', ws) \<and>
    (\<exists>ns. MemPrintRead (- 1) ns \<in> set evs')"
proof -
  have small: "unat (offset_arg [''mem'', ''0x8C'', ''-1'']) < 2 ^ 40"
    by (simp add: sample_offset)
  have "\<exists>evs ws. mem_main sample_mem_env [''mem'', ''0x8C'', ''-1''] = Inr (0, evs, ws)"
    using mem_main_write_returns [OF sample_good _ small] by simp
  then obtain evs ws where run: "mem_main sample_mem_env [''mem'', ''0x8C'', ''-1''] = Inr (0, evs, ws)"
    by blast
  from mem_write_then_read [OF sample_good small run]
  show ?thesis using run by (auto simp: sample_value)
qed

theorem mem_runs_iff_in_window_witness:
  "\<exists>evs ws. mem_main sample_mem_env [''mem'', ''0x8C''] = Inr (0, evs, ws)"
  using mem_runs_iff_in_window [OF sample_good, of "[''mem'', ''0x8C'']"] by (simp add: sample_offset)

end
