(* ===== verification/FpiTools.thy ===== *)
theory FpiTools
  imports CLib EnzianFpi
begin

text \<open>
  The programs \<open>send_fpi.c\<close> and \<open>receive_fpi.c\<close>: the first sends interrupt 1 through the
  driver's ioctl, the second blocks in a read until an interrupt arrives.
\<close>

section \<open>Sending\<close>

datatype fpi_event_out =
    FpiOpen string
  | FpiIoctl u32 u64
  | FpiRead
  | FpiPrintReceived int
  | FpiClose

text \<open>The first core by default, otherwise the hexadecimal argument as an unsigned word.\<close>

definition sgi_affinity :: "string list \<Rightarrow> u64" where
  "sgi_affinity argv = (if 1 < length argv then word_of_int (strtoll 16 (argv ! 1)) else 1)"

definition send_fpi_main :: "int \<Rightarrow> string list \<Rightarrow> (int \<times> fpi_event_out list) res" where
  "send_fpi_main fd argv =
     rbind (guard_res (0 \<le> fd) AssertFailed) (\<lambda>_.
       let affinity = sgi_affinity argv in
       Inr (0, [FpiOpen ''/dev/fpi'', FpiIoctl 0 (0x0000000101000000 OR affinity), FpiClose]))"

definition receive_fpi_main :: "int \<Rightarrow> int \<Rightarrow> (int \<times> fpi_event_out list) res" where
  "receive_fpi_main fd read_ret =
     rbind (guard_res (0 \<le> fd) AssertFailed) (\<lambda>_.
       Inr (0, [FpiOpen ''/dev/fpi'', FpiRead, FpiPrintReceived read_ret, FpiClose]))"

definition fpi_ioctls :: "fpi_event_out list \<Rightarrow> (u32 \<times> u64) list" where
  "fpi_ioctls evs = concat (map (\<lambda>e. case e of FpiIoctl c a \<Rightarrow> [(c, a)] | _ \<Rightarrow> []) evs)"

text \<open>
  The fields of \<open>ICC_SGI1R_EL1\<close> of the GICv3 architecture: target list in bits 15:0, Aff1 in
  23:16, the interrupt in 27:24, Aff2 in 39:32, the routing mode in 40, Aff3 in 55:48.
\<close>

definition sgi_targets :: "u64 \<Rightarrow> u64" where "sgi_targets v = v AND mask 16"
definition sgi_aff1 :: "u64 \<Rightarrow> u64" where "sgi_aff1 v = drop_bit 16 v AND mask 8"
definition sgi_intid :: "u64 \<Rightarrow> u64" where "sgi_intid v = drop_bit 24 v AND mask 4"
definition sgi_aff2 :: "u64 \<Rightarrow> u64" where "sgi_aff2 v = drop_bit 32 v AND mask 8"
definition sgi_irm :: "u64 \<Rightarrow> u64" where "sgi_irm v = drop_bit 40 v AND mask 1"
definition sgi_aff3 :: "u64 \<Rightarrow> u64" where "sgi_aff3 v = drop_bit 48 v AND mask 8"

lemmas sgi_fields = sgi_targets_def sgi_aff1_def sgi_intid_def sgi_aff2_def sgi_irm_def sgi_aff3_def

lemma affinity_bits:
  assumes "unat (a :: u64) < 2 ^ 16"
  shows "take_bit 16 a = a" and "16 \<le> n \<Longrightarrow> drop_bit n a = 0"
proof -
  from assms show a: "take_bit 16 a = a"
    by (simp add: word_unat_eq_iff unsigned_take_bit_eq take_bit_nat_eq_self)
  show "drop_bit n a = 0" if "16 \<le> n"
  proof -
    have "drop_bit n (take_bit 16 a) = 0"
      using that by (simp add: drop_bit_take_bit)
    with a show ?thesis by simp
  qed
qed

lemma sgi_value_fields:
  assumes "unat a < 2 ^ 16"
  shows "sgi_targets (0x101000000 OR a) = a" "sgi_aff1 (0x101000000 OR a) = 0"
    "sgi_intid (0x101000000 OR a) = 1" "sgi_aff2 (0x101000000 OR a) = 1"
    "sgi_irm (0x101000000 OR a) = 0" "sgi_aff3 (0x101000000 OR a) = 0"
  using affinity_bits [OF assms]
  by (simp_all add: sgi_fields drop_bit_or take_bit_or flip: take_bit_eq_mask)

text \<open>
  C38: \<open>send_fpi\<close> with a target list that fits its field (16 bits; 1 where no argument is given)
  makes the driver write one value to the interrupt register, and its fields read: exactly
  those targets, interrupt 1, affinity 0.1.0, and no broadcast.
\<close>

theorem send_fpi_register_fields:
  assumes "0 \<le> fd" and "unat (sgi_affinity argv) < 2 ^ 16"
  shows "\<exists>evs v. send_fpi_main fd argv = Inr (0, evs) \<and>
    ioctl_all enzian_fpi_ioctl (fpi_ioctls evs) [] = ([0], [SGI1R v]) \<and>
    sgi_targets v = sgi_affinity argv \<and> sgi_intid v = 1 \<and>
    sgi_aff3 v = 0 \<and> sgi_aff2 v = 1 \<and> sgi_aff1 v = 0 \<and> sgi_irm v = 0"
  using assms sgi_value_fields [OF assms(2)]
  by (simp add: send_fpi_main_def fpi_ioctls_def enzian_fpi_ioctl_def)

theorem send_fpi_register_fields_witness:
  "\<exists>evs v. send_fpi_main 3 [''send_fpi''] = Inr (0, evs) \<and>
    ioctl_all enzian_fpi_ioctl (fpi_ioctls evs) [] = ([0], [SGI1R v]) \<and>
    sgi_targets v = 1 \<and> sgi_intid v = 1"
proof -
  have a: "sgi_affinity [''send_fpi''] = 1" by (simp add: sgi_affinity_def)
  from send_fpi_register_fields [of 3 "[''send_fpi'']"] show ?thesis by (auto simp: a)
qed

text \<open>
  The argument is not confined to the target list. One with bits above it changes the
  other fields of the register: \<open>send_fpi 2000001\<close> sends interrupt 3 instead of interrupt 1.
\<close>

lemma send_fpi_argument_overrides_intid:
  "\<exists>evs v. send_fpi_main 3 [''send_fpi'', ''2000001''] = Inr (0, evs) \<and>
    ioctl_all enzian_fpi_ioctl (fpi_ioctls evs) [] = ([0], [SGI1R v]) \<and>
    sgi_targets v = 1 \<and> sgi_intid v = 3"
proof -
  have "strto 16 ''2000001'' = (False, 0x2000001)"
    by (simp add: strto_def skip_0x_def isspace_def digit_of_def Let_def)
  then have "sgi_affinity [''send_fpi'', ''2000001''] = 0x2000001"
    by (simp add: sgi_affinity_def strtoll_def)
  moreover have "sgi_targets 0x103000001 = 1" "sgi_intid 0x103000001 = 3"
    by (simp_all add: sgi_fields mask_eq_exp_minus_1)
  ultimately show ?thesis
    by (simp add: send_fpi_main_def fpi_ioctls_def enzian_fpi_ioctl_def)
qed

end
