(* ===== verification/MbLatency.thy ===== *)
theory MbLatency
  imports Prelude CLib
begin

text \<open>
  The latency tests of \<open>mb_enzian.c\<close>: the pointer chase of \<open>do_latency_test\<close>, the sequential
  reads of \<open>do_seq_latency_test\<close>, and the texts they print.
\<close>

section \<open>Printing sizes\<close>

text \<open>\<open>%9d\<close>; the argument is at most \<open>INT_MAX\<close> in every branch.\<close>

definition pad9 :: "string \<Rightarrow> string" where
  "pad9 s = replicate (9 - length s) (CHR '' '') @ s"

definition nice_size :: "u32 \<Rightarrow> string" where
  "nice_size sz =
     (if sz < 1024 then pad9 (show_nat (unat sz))
      else if sz < 1048576 then pad9 (show_nat (unat (sz div 1024))) @ ''k''
      else if sz < 1048576 * 1024 then pad9 (show_nat (unat (sz div 1024 div 1024))) @ ''M''
      else pad9 (show_nat (unat (sz div 1024 div 1024 div 1024))) @ ''G'')"

section \<open>The pointer chase\<close>

text \<open>
  The memory under test is a list of cache lines, of each the first word. \<open>CACHELINE_SIZE\<close> is
  128. \<open>1 << size\<close> is an \<open>int\<close>; the callers' sizes are at most 26.
\<close>

definition CACHELINE_SIZE :: u64 where
  "CACHELINE_SIZE = 128"

definition lat_lines :: "nat \<Rightarrow> u64" where
  "lat_lines sz = push_bit sz 1 div CACHELINE_SIZE"

definition lat_its :: "nat \<Rightarrow> u64" where
  "lat_its sz = (let its = (if sz < 12 then push_bit (12 - sz) 1 else 1) in if its = 0 then 1 else its)"

definition next_line_index :: "u64 \<Rightarrow> u64 \<Rightarrow> u64" where
  "next_line_index l ofs = (ofs * 13 + 7) AND (l - 1)"

fun fill_loop :: "nat \<Rightarrow> u64 \<Rightarrow> u64 \<Rightarrow> u64 list \<Rightarrow> u64 list res" where
  "fill_loop 0 l ofs c = Inr c"
| "fill_loop (Suc n) l ofs c =
     (let no = next_line_index l ofs in rbind (upd c (unat ofs) no) (fill_loop n l no))"

text \<open>The loads of the chase; the indices visited are returned with the last value loaded.\<close>

fun chase_loop :: "nat \<Rightarrow> u64 \<Rightarrow> u64 list \<Rightarrow> (u64 list \<times> u64) res" where
  "chase_loop 0 ofs c = Inr ([], ofs)"
| "chase_loop (Suc n) ofs c =
     rbind (idx c (unat ofs)) (\<lambda>v. rbind (chase_loop n v c) (\<lambda>(vs, e). Inr (ofs # vs, e)))"

text \<open>
  A measurement is repeated five times, its first time is dropped and the least of the others
  taken. Each pair is the counter before and after.
\<close>

definition best_of :: "(u64 \<times> u64) list \<Rightarrow> u64" where
  "best_of ts = fold (\<lambda>(t0, t1) m. if t1 - t0 < m then t1 - t0 else m) (tl ts) (- 1)"

text \<open>
  The whole test: base time, filling, five chases of \<open>ITS * l / 8\<close> times eight loads. It
  returns the memory, the lines visited by each chase and the numerator \<open>avg - base\<close> (a
  \<open>uint64_t\<close>, which wraps if the chase was faster than the empty loop) and divisor
  \<open>ITS * l\<close> of the latency printed.
\<close>

definition do_latency_test ::
  "nat \<Rightarrow> (u64 \<times> u64) list \<Rightarrow> (u64 \<times> u64) list \<Rightarrow> u64 list \<Rightarrow>
   (u64 list \<times> u64 list list \<times> string \<times> u64 \<times> u64) res" where
  "do_latency_test sz base_ts chase_ts c =
     (let l = lat_lines sz; ITS = lat_its sz; base = best_of base_ts
      in rbind (fill_loop (unat (ITS * l)) l 0 c) (\<lambda>c.
         rbind (fold_res (\<lambda>p vs. rbind (chase_loop (8 * unat (ITS * l div 8)) 0 c)
                   (\<lambda>(v, e). Inr (vs @ [v]))) [0..<length chase_ts] []) (\<lambda>visits.
           Inr (c, visits, nice_size (push_bit sz 1), best_of chase_ts - base, ITS * l))))"

section \<open>The generator has full period\<close>

text \<open>The partial sums \<open>1 + 13 + ... + 13 ^ (n - 1)\<close>: index \<open>n\<close> is \<open>7 * geo n\<close>.\<close>

fun geo :: "nat \<Rightarrow> nat" where
  "geo 0 = 0"
| "geo (Suc n) = 13 * geo n + 1"

lemma geo_add: "geo (m + n) = geo n + 13 ^ n * geo m"
  by (induction n) (simp_all add: algebra_simps)

lemma geo_double: "geo (2 * n) = geo n * (1 + 13 ^ n)"
  using geo_add [of n n] unfolding mult_2 by (simp add: distrib_left mult.commute)

lemma odd_geo: "odd (geo n) \<longleftrightarrow> odd n"
  by (induction n) simp_all

lemma thirteen_pow: "\<exists>q. (1 + 13 ^ n :: nat) = 2 * (2 * q + 1)"
proof (induction n)
  case 0
  then show ?case by (intro exI [of _ 0]) simp
next
  case (Suc n)
  then obtain q where "(1 + 13 ^ n :: nat) = 2 * (2 * q + 1)" by blast
  then show ?case by (intro exI [of _ "13 * q + 3"]) simp
qed

lemma pow2_dvd_geo: "2 ^ k dvd geo n \<longleftrightarrow> 2 ^ k dvd n"
proof (induction k arbitrary: n)
  case 0
  then show ?case by simp
next
  case (Suc k)
  show ?case
  proof (cases "even n")
    case False
    then have "odd (geo n)" by (simp add: odd_geo)
    then show ?thesis using False by (auto dest: dvd_mult_left)
  next
    case True
    then obtain m where n: "n = 2 * m" by (elim evenE)
    obtain q where q: "(1 + 13 ^ m :: nat) = 2 * (2 * q + 1)" using thirteen_pow by blast
    have "geo n = 2 * (geo m * (2 * q + 1))"
      unfolding n geo_double q by simp
    then have "2 ^ Suc k dvd geo n \<longleftrightarrow> 2 ^ k dvd geo m * (2 * q + 1)"
      unfolding power_Suc by (simp only: dvd_times_left_cancel_iff)
    also have "\<dots> \<longleftrightarrow> 2 ^ k dvd geo m"
      by (rule coprime_dvd_mult_left_iff) (simp add: coprime_power_left_iff)
    finally show ?thesis by (simp add: Suc.IH n)
  qed
qed

lemma geo_residue_inj:
  assumes "m \<le> n" and "n - m < 2 ^ k" and "(7 * geo m) mod 2 ^ k = (7 * geo n) mod 2 ^ k"
  shows "m = n"
proof -
  have g: "geo n = geo m + 13 ^ m * geo (n - m)"
    using geo_add [of "n - m" m] assms(1) by simp
  have "2 ^ k dvd 7 * geo n - 7 * geo m"
    using assms(3) mod_eq_dvd_iff_nat [of "7 * geo m" "7 * geo n" "2 ^ k"] g by simp
  also have "7 * geo n - 7 * geo m = geo (n - m) * (7 * 13 ^ m)"
    by (simp add: g diff_mult_distrib2 [symmetric])
  finally have "2 ^ k dvd geo (n - m)"
    by (simp add: coprime_dvd_mult_left_iff coprime_power_left_iff)
  then have "2 ^ k dvd n - m" by (simp add: pow2_dvd_geo)
  then show "m = n" using assms(1,2) by (meson diff_is_0_eq dual_order.antisym dvd_imp_le not_less zero_less_iff_neq_zero)
qed

text \<open>The index of the \<open>n\<close>-th line of a chase over \<open>2 ^ k\<close> lines.\<close>

definition lcg :: "nat \<Rightarrow> nat \<Rightarrow> nat" where
  "lcg k n = (7 * geo n) mod 2 ^ k"

lemma lcg_0 [simp]: "lcg k 0 = 0"
  by (simp add: lcg_def)

lemma lcg_Suc: "lcg k (Suc n) = (lcg k n * 13 + 7) mod 2 ^ k"
proof -
  have "(7 * (13 * geo n + 1)) mod 2 ^ k = ((7 * geo n) * 13 + 7) mod 2 ^ k"
    by (simp add: algebra_simps)
  also have "\<dots> = (lcg k n * 13 + 7) mod 2 ^ k"
    unfolding lcg_def by (metis mod_add_left_eq mod_mult_left_eq)
  finally show ?thesis by (simp add: lcg_def)
qed

lemma lcg_less: "lcg k n < 2 ^ k"
  by (simp add: lcg_def)

lemma lcg_inj: "inj_on (lcg k) {..<2 ^ k}"
proof (rule inj_onI)
  fix m n assume mn: "m \<in> {..<2 ^ k}" "n \<in> {..<2 ^ k}" and eq: "lcg k m = lcg k n"
  show "m = n"
  proof (cases "m \<le> n")
    case True
    then have "n - m < 2 ^ k" using mn by (auto intro: le_less_trans)
    with True show ?thesis using geo_residue_inj [of m n k] eq by (simp add: lcg_def)
  next
    case False
    then have "n \<le> m" "m - n < 2 ^ k" using mn by (auto intro: le_less_trans)
    then show ?thesis using geo_residue_inj [of n m k] eq by (simp add: lcg_def)
  qed
qed

lemma lcg_range: "lcg k ` {..<2 ^ k} = {..<2 ^ k}"
  by (rule endo_inj_surj) (auto simp: lcg_less lcg_inj)

lemma lcg_period: "lcg k (2 ^ k) = 0"
proof -
  have "2 ^ k dvd geo (2 ^ k)" by (simp add: pow2_dvd_geo)
  then show ?thesis by (simp add: lcg_def)
qed

section \<open>The chase visits every line once\<close>

lemma and_mask_index:
  assumes "k < 32" and "unat ofs < 2 ^ k"
  shows "unat (next_line_index (push_bit k 1) ofs) = (unat ofs * 13 + 7) mod 2 ^ k"
proof -
  have "(2 :: nat) ^ k \<le> 2 ^ 31" using assms(1) by (intro power_increasing) simp_all
  then have "unat ofs < 2 ^ 31" using assms(2) by simp
  then have "unat (ofs * 13 + 7) = unat ofs * 13 + 7"
    by (simp add: unat_word_ariths)
  moreover have "next_line_index (push_bit k 1) ofs = take_bit k (ofs * 13 + 7)"
    by (simp add: next_line_index_def take_bit_eq_mask mask_eq_exp_minus_1 push_bit_eq_mult)
  ultimately show ?thesis
    by (simp only: unsigned_take_bit_eq) (simp add: take_bit_eq_mod)
qed

text \<open>The loop of \<open>2 ^ k\<close> stores writes each line once, with the index of the next.\<close>

lemma fill_loop_lcg:
  assumes k: "k < 32" and len: "2 ^ k \<le> length c" and "i + n \<le> 2 ^ k" and "unat ofs = lcg k i"
  shows "\<exists>c'. fill_loop n (push_bit k 1) ofs c = Inr c' \<and> length c' = length c \<and>
    (\<forall>j. i \<le> j \<and> j < i + n \<longrightarrow> unat (c' ! lcg k j) = lcg k (Suc j)) \<and>
    (\<forall>x. (\<forall>j. i \<le> j \<and> j < i + n \<longrightarrow> x \<noteq> lcg k j) \<longrightarrow> c' ! x = c ! x)"
  using assms(2-4)
proof (induction n arbitrary: i ofs c)
  case 0
  then show ?case by auto
next
  case (Suc n)
  let ?no = "next_line_index (push_bit k 1) ofs"
  have no: "unat ?no = lcg k (Suc i)"
    using and_mask_index [OF k, of ofs] Suc.prems(3) lcg_less [of k i] by (simp add: lcg_Suc)
  have in_c: "unat ofs < length c"
    using Suc.prems(1,3) lcg_less [of k i] by simp
  let ?c = "c[unat ofs := ?no]"
  have "2 ^ k \<le> length ?c" and "Suc i + n \<le> 2 ^ k" using Suc.prems by simp_all
  from Suc.IH [OF this no] obtain c' where IH:
    "fill_loop n (push_bit k 1) ?no ?c = Inr c'" "length c' = length ?c"
    "\<And>j. Suc i \<le> j \<Longrightarrow> j < Suc i + n \<Longrightarrow> unat (c' ! lcg k j) = lcg k (Suc j)"
    "\<And>x. (\<forall>j. Suc i \<le> j \<and> j < Suc i + n \<longrightarrow> x \<noteq> lcg k j) \<Longrightarrow> c' ! x = ?c ! x"
    by blast
  have fresh: "lcg k i \<noteq> lcg k j" if "Suc i \<le> j" "j < Suc i + n" for j
  proof
    assume "lcg k i = lcg k j"
    moreover have "i \<in> {..<2 ^ k}" "j \<in> {..<2 ^ k}" using that Suc.prems(2) by simp_all
    ultimately have "i = j" using inj_onD [OF lcg_inj] by blast
    then show False using that by simp
  qed
  have "c' ! lcg k i = ?no"
    using IH(4) [of "lcg k i"] fresh in_c Suc.prems(3) by simp
  then have "unat (c' ! lcg k j) = lcg k (Suc j)" if "i \<le> j" "j < i + Suc n" for j
    using that IH(3) [of j] no by (cases "j = i") simp_all
  moreover have "c' ! x = c ! x" if "\<forall>j. i \<le> j \<and> j < i + Suc n \<longrightarrow> x \<noteq> lcg k j" for x
  proof -
    have "x \<noteq> unat ofs" using that Suc.prems(3) by auto
    moreover have "c' ! x = ?c ! x" using that by (intro IH(4)) auto
    ultimately show ?thesis by simp
  qed
  ultimately show ?case
    using IH(1,2) in_c by (intro exI [of _ c']) (simp add: Let_def upd_def)
qed

lemma chase_loop_lcg:
  assumes "2 ^ k \<le> length c" and "\<And>j. j < 2 ^ k \<Longrightarrow> unat (c ! lcg k j) = lcg k (Suc j)"
    and "i + n \<le> 2 ^ k" and "unat ofs = lcg k i"
  shows "\<exists>vs e. chase_loop n ofs c = Inr (vs, e) \<and> map unat vs = map (lcg k) [i..<i + n] \<and>
    unat e = lcg k (i + n)"
  using assms(3,4)
proof (induction n arbitrary: i ofs)
  case 0
  then show ?case by simp
next
  case (Suc n)
  have "unat ofs < length c" using Suc.prems(2) lcg_less [of k i] assms(1) by simp
  then have get: "idx c (unat ofs) = Inr (c ! lcg k i)" by (simp add: idx_def Suc.prems(2))
  have "unat (c ! lcg k i) = lcg k (Suc i)" using Suc.prems(1) by (intro assms(2)) simp
  moreover have "Suc i + n \<le> 2 ^ k" using Suc.prems(1) by simp
  ultimately obtain vs e where "chase_loop n (c ! lcg k i) c = Inr (vs, e)"
    "map unat vs = map (lcg k) [Suc i..<Suc i + n]" "unat e = lcg k (Suc i + n)"
    using Suc.IH [of "Suc i" "c ! lcg k i"] by blast
  then show ?case
    using Suc.prems(2) by (simp add: get [unfolded Suc.prems(2)] upt_conv_Cons [of i "Suc (i + n)"] del: upt_Suc)
qed

lemma unat_two_pow:
  assumes "k < 64"
  shows "unat (push_bit k 1 :: u64) = 2 ^ k"
proof -
  have "(2 :: nat) ^ k < 2 ^ 64" using assms by (intro power_strict_increasing) simp_all
  moreover have "unat (of_nat n :: u64) = n" if "n < 2 ^ 64" for n
    using that by (simp add: unsigned_of_nat take_bit_nat_eq_self)
  ultimately have "unat (of_nat (2 ^ k) :: u64) = 2 ^ k" by blast
  then show ?thesis by (simp add: push_bit_eq_mult)
qed

lemma lat_lines_eq:
  assumes "7 \<le> sz" and "sz < 32"
  shows "lat_lines sz = push_bit (sz - 7) 1"
proof (rule word_unat_eq_iff [THEN iffD2])
  have "(2 :: nat) ^ sz = 2 ^ (sz - 7) * 128"
    using power_add [of "2 :: nat" "sz - 7" 7] assms(1) by simp
  then show "unat (lat_lines sz) = unat (push_bit (sz - 7) 1 :: u64)"
    using assms(2) unat_two_pow [of sz] unat_two_pow [of "sz - 7"]
    by (simp only: lat_lines_def CACHELINE_SIZE_def unat_div) simp
qed

lemma fold_const:
  assumes "m = Inr (v, e)"
  shows "fold_res (\<lambda>p vs. rbind m (\<lambda>(v, e). Inr (vs @ [v]))) ps vs = Inr (vs @ replicate (length ps) v)"
  using assms by (induction ps arbitrary: vs) (simp_all add: replicate_append_same)

text \<open>
  C6: for sizes from 4 KiB to 1 GiB the pointer chase is a tour: the filling writes every cache
  line of the tested size and no other, and each of the chases that are timed visits every one
  of these lines exactly once, with as many loads as lines. The printed latency is therefore
  the time difference divided by the number of lines visited.
\<close>

theorem latency_chase_visits_all:
  assumes "12 \<le> sz" and "sz \<le> 30" and "2 ^ (sz - 7) \<le> length c"
  shows "\<exists>c' visits. do_latency_test sz base_ts chase_ts c =
      Inr (c', visits, nice_size (push_bit sz 1), best_of chase_ts - best_of base_ts,
           push_bit (sz - 7) 1) \<and>
    length visits = length chase_ts \<and>
    (\<forall>v \<in> set visits. distinct v \<and> length v = 2 ^ (sz - 7) \<and> unat ` set v = {..<2 ^ (sz - 7)}) \<and>
    length c' = length c \<and> (\<forall>x. 2 ^ (sz - 7) \<le> x \<longrightarrow> c' ! x = c ! x)"
proof -
  let ?k = "sz - 7"
  have k: "?k < 32" "3 \<le> ?k" using assms(1,2) by simp_all
  have l: "lat_lines sz = push_bit ?k 1" using assms(1,2) by (intro lat_lines_eq) simp_all
  have its: "lat_its sz = 1" using assms(1) by (simp add: lat_its_def)
  have n: "unat (push_bit ?k 1 :: u64) = 2 ^ ?k" using k(1) by (intro unat_two_pow) simp
  have "(2 :: nat) ^ ?k = 8 * 2 ^ (?k - 3)"
    using power_add [of "2 :: nat" "?k - 3" 3] k(2) by (simp add: mult.commute)
  then have n8: "8 * unat (push_bit ?k 1 div 8 :: u64) = 2 ^ ?k"
    using n by (simp add: unat_div)
  have "unat (0 :: u64) = lcg ?k 0" by simp
  from fill_loop_lcg [OF k(1) assms(3) _ this, of "2 ^ ?k"] obtain c' where
    fill: "fill_loop (2 ^ ?k) (push_bit ?k 1) 0 c = Inr c'" "length c' = length c"
    and next_ix: "\<And>j. j < 2 ^ ?k \<Longrightarrow> unat (c' ! lcg ?k j) = lcg ?k (Suc j)"
    and frame: "\<And>x. (\<forall>j. j < 2 ^ ?k \<longrightarrow> x \<noteq> lcg ?k j) \<Longrightarrow> c' ! x = c ! x"
    by auto
  have "2 ^ ?k \<le> length c'" using assms(3) fill(2) by simp
  from chase_loop_lcg [OF this next_ix, of 0 "2 ^ ?k" 0] obtain vs e where
    chase: "chase_loop (2 ^ ?k) 0 c' = Inr (vs, e)" "map unat vs = map (lcg ?k) [0..<2 ^ ?k]"
    by auto
  have "distinct (map unat vs)"
    unfolding chase(2) using lcg_inj [of ?k] by (simp add: distinct_map lessThan_atLeast0)
  then have "distinct vs" by (simp add: distinct_map)
  moreover have "unat ` set vs = {..<2 ^ ?k}"
    using arg_cong [OF chase(2), of set] lcg_range [of ?k] by (simp add: lessThan_atLeast0)
  moreover have "length vs = 2 ^ ?k"
    using arg_cong [OF chase(2), of length] by simp
  moreover have "c' ! x = c ! x" if "2 ^ ?k \<le> x" for x
    using that lcg_less [of ?k] by (intro frame) (metis not_less)
  moreover have "do_latency_test sz base_ts chase_ts c =
      Inr (c', replicate (length chase_ts) vs, nice_size (push_bit sz 1),
           best_of chase_ts - best_of base_ts, push_bit ?k 1)"
    by (simp only: do_latency_test_def Let_def l its mult_1 n n8 fill(1) rbind_Inr
        fold_const [OF chase(1)] length_upt append_Nil diff_zero)
  ultimately show ?thesis using fill(2) by (intro exI) auto
qed

text \<open>A small tour: 4 KiB are 32 lines.\<close>

theorem latency_chase_visits_all_witness:
  "\<exists>c' visits. do_latency_test 12 [(0, 9), (0, 5)] [(0, 90), (0, 50)] (replicate 40 0) =
      Inr (c', visits, nice_size 4096, 45, 32) \<and> length visits = 2 \<and> c' ! 35 = 0"
proof -
  have "2 ^ (12 - 7) \<le> length (replicate 40 (0 :: u64))" by simp
  from latency_chase_visits_all [OF _ _ this, of "[(0, 9), (0, 5)]" "[(0, 90), (0, 50)]"]
  obtain c' visits where run: "do_latency_test 12 [(0, 9), (0, 5)] [(0, 90), (0, 50)] (replicate 40 0) =
      Inr (c', visits, nice_size (push_bit 12 1),
        best_of [(0, 90), (0, 50)] - best_of [(0, 9), (0, 5)], push_bit (12 - 7) 1)"
    and len: "length visits = length [(0 :: u64, 90 :: u64), (0, 50)]"
    and fr: "\<forall>x. 2 ^ (12 - 7) \<le> x \<longrightarrow> c' ! x = replicate 40 0 ! x"
    by auto
  have "c' ! 35 = 0" using fr [rule_format, of 35] by simp
  moreover have "best_of [(0, 90), (0, 50)] - best_of [(0, 9), (0, 5)] = 45"
    "push_bit (12 - 7) (1 :: u64) = 32" "push_bit 12 (1 :: u32) = 4096"
    by (simp_all add: best_of_def push_bit_eq_mult)
  ultimately show ?thesis using run len by auto
qed

section \<open>The sequential reads\<close>

text \<open>
  One pass reads the lines eight at a time. The indices read are returned with the
  disjunction of the words.
\<close>

function seq_loop :: "nat \<Rightarrow> nat \<Rightarrow> u64 list \<Rightarrow> u64 \<times> nat list \<Rightarrow> (u64 \<times> nat list) res" where
  "seq_loop i l c acc =
     (if i < l then
        rbind (fold_res (\<lambda>j (ofs, reads). rbind (idx c j) (\<lambda>v. Inr (ofs OR v, reads @ [j])))
                 [i, i + 1, i + 2, i + 3, i + 4, i + 5, i + 6, i + 7] acc)
          (seq_loop (i + 8) l c)
      else Inr acc)"
  by pat_completeness auto
termination
  by (relation "measure (\<lambda>(i, l, c, acc). l - i)") auto

declare seq_loop.simps [simp del]

definition seq_lines :: "nat \<Rightarrow> u64" where
  "seq_lines sz = (if sz \<noteq> 0 then lat_lines sz else lat_lines 26)"

text \<open>A pass: five timed loops and the line printed.\<close>

definition seq_pass ::
  "nat \<Rightarrow> u64 \<Rightarrow> (u64 \<times> u64) list \<Rightarrow> u64 list \<Rightarrow> (nat list list \<times> string \<times> u64 \<times> u64) res" where
  "seq_pass sz base ts c =
     (let l = seq_lines sz
      in rbind (fold_res (\<lambda>p rs. rbind (seq_loop 0 (unat l) c (0, [])) (\<lambda>(v, r). Inr (rs @ [r])))
                  [0..<length ts] [])
           (\<lambda>rs. Inr (rs, nice_size (push_bit sz 1), best_of ts - base, l)))"

text \<open>
  The passes follow one another for ever when the size is 0: the value is \<open>None\<close> when the
  test does not return. \<open>ts n\<close> are the counter readings of pass \<open>n\<close>.
\<close>

partial_function (option) seq_passes ::
  "nat \<Rightarrow> u64 \<Rightarrow> (nat \<Rightarrow> (u64 \<times> u64) list) \<Rightarrow> u64 list \<Rightarrow> nat \<Rightarrow>
   (nat list list \<times> string \<times> u64 \<times> u64) list \<Rightarrow>
   (nat list list \<times> string \<times> u64 \<times> u64) list res option" where
  "seq_passes sz base ts c n out =
     (case seq_pass sz base (ts n) c of
        Inl e \<Rightarrow> Some (Inl e)
      | Inr r \<Rightarrow> if sz = 0 then seq_passes sz base ts c (n + 1) (out @ [r])
                 else Some (Inr (out @ [r])))"

definition do_seq_latency_test ::
  "nat \<Rightarrow> (u64 \<times> u64) list \<Rightarrow> (nat \<Rightarrow> (u64 \<times> u64) list) \<Rightarrow> u64 list \<Rightarrow>
   (nat list list \<times> string \<times> u64 \<times> u64) list res option" where
  "do_seq_latency_test sz base_ts ts c = seq_passes sz (best_of base_ts) ts c 0 []"

lemma fold_reads:
  assumes "\<forall>j \<in> set js. j < length c"
  shows "\<exists>u. fold_res (\<lambda>j (ofs, reads). rbind (idx c j) (\<lambda>v. Inr (ofs OR v, reads @ [j]))) js (w, rs) =
    Inr (u, rs @ js)"
  using assms
proof (induction js arbitrary: w rs)
  case (Cons j js)
  then show ?case using Cons.IH [of "w OR c ! j" "rs @ [j]"] by (simp add: idx_def)
qed simp

lemma seq_loop_reads:
  assumes "8 * m \<le> length c" and "n \<le> m"
  shows "\<exists>v. seq_loop (8 * (m - n)) (8 * m) c (w, rs) = Inr (v, rs @ [8 * (m - n)..<8 * m])"
  using assms(2)
proof (induction n arbitrary: w rs)
  case 0
  then show ?case by (simp add: seq_loop.simps)
next
  case (Suc n)
  define i where "i = 8 * (m - Suc n)"
  have i: "i + 8 = 8 * (m - n)" "i < 8 * m" "i + 8 \<le> length c"
    using Suc.prems assms(1) by (simp_all add: i_def)
  have rng: "[i..<8 * m] = [i, i + 1, i + 2, i + 3, i + 4, i + 5, i + 6, i + 7] @ [i + 8..<8 * m]"
  proof -
    have "i + 7 < 8 * m" using i(1) Suc.prems by simp
    moreover have step: "i + 8 = Suc (Suc (Suc (Suc (Suc (Suc (Suc (Suc i)))))))" by simp
    ultimately show ?thesis unfolding step by (simp add: upt_conv_Cons)
  qed
  have "\<forall>j \<in> set [i, i + 1, i + 2, i + 3, i + 4, i + 5, i + 6, i + 7]. j < length c"
    using i(3) by simp
  then obtain u where "fold_res (\<lambda>j (ofs, reads). rbind (idx c j) (\<lambda>v. Inr (ofs OR v, reads @ [j])))
      [i, i + 1, i + 2, i + 3, i + 4, i + 5, i + 6, i + 7] (w, rs) =
    Inr (u, rs @ [i, i + 1, i + 2, i + 3, i + 4, i + 5, i + 6, i + 7])"
    using fold_reads by blast
  then have "seq_loop i (8 * m) c (w, rs) =
      seq_loop (8 * (m - n)) (8 * m) c (u, rs @ [i, i + 1, i + 2, i + 3, i + 4, i + 5, i + 6, i + 7])"
    using i(2) by (subst seq_loop.simps) (simp only: i(1) rbind_Inr if_True)
  moreover obtain v where "seq_loop (8 * (m - n)) (8 * m) c
      (u, rs @ [i, i + 1, i + 2, i + 3, i + 4, i + 5, i + 6, i + 7]) =
    Inr (v, (rs @ [i, i + 1, i + 2, i + 3, i + 4, i + 5, i + 6, i + 7]) @ [8 * (m - n)..<8 * m])"
    using Suc.IH Suc.prems by (meson Suc_leD)
  ultimately show ?case
    unfolding i_def [symmetric] rng i(1) by simp
qed

lemma seq_pass_reads:
  assumes "10 \<le> k" and "k \<le> 30" and "sz = k \<or> sz = 0 \<and> k = 26" and "2 ^ (k - 7) \<le> length c"
  shows "seq_pass sz base ts c = Inr (replicate (length ts) [0..<2 ^ (k - 7)],
    nice_size (push_bit sz 1), best_of ts - base, push_bit (k - 7) 1)"
proof -
  have l: "seq_lines sz = push_bit (k - 7) 1"
    using assms(1-3) lat_lines_eq [of k] by (auto simp: seq_lines_def)
  have n: "unat (push_bit (k - 7) 1 :: u64) = 2 ^ (k - 7)"
    using assms(2) by (intro unat_two_pow) simp
  have m: "(2 :: nat) ^ (k - 7) = 8 * 2 ^ (k - 10)"
    using power_add [of "2 :: nat" "k - 10" 3] assms(1) by (simp add: mult.commute)
  have "8 * 2 ^ (k - 10) \<le> length c" using assms(4) m by simp
  from seq_loop_reads [OF this order.refl, of 0 "[]"] obtain v where
    v: "seq_loop 0 (2 ^ (k - 7)) c (0, []) = Inr (v, [0..<2 ^ (k - 7)])"
    by (auto simp: m)
  have "fold_res (\<lambda>p rs. rbind (Inr (v, [0..<2 ^ (k - 7)])) (\<lambda>(v, r). Inr (rs @ [r]))) ps rs =
      Inr (rs @ replicate (length ps) [0..<2 ^ (k - 7)])" for ps :: "nat list" and rs
    by (induction ps arbitrary: rs) (simp_all add: replicate_append_same)
  then show ?thesis
    by (simp only: seq_pass_def Let_def l n v) simp
qed

text \<open>
  C16: for sizes from 1 KiB to 1 GiB the sequential test returns after one pass in which each of
  the timed loops reads every cache line of the size once, in order, and no other. With size 0
  (the stress mode) it never returns.
\<close>

theorem seq_latency_returns_iff_sized:
  assumes "10 \<le> k" and "k \<le> 30" and "2 ^ (k - 7) \<le> length c" and "2 ^ 19 \<le> length d"
  shows "do_seq_latency_test k base_ts ts c =
      Some (Inr [(replicate (length (ts 0)) [0..<2 ^ (k - 7)], nice_size (push_bit k 1),
        best_of (ts 0) - best_of base_ts, push_bit (k - 7) 1)]) \<and>
    do_seq_latency_test 0 base_ts ts d = None"
proof
  show "do_seq_latency_test k base_ts ts c =
      Some (Inr [(replicate (length (ts 0)) [0..<2 ^ (k - 7)], nice_size (push_bit k 1),
        best_of (ts 0) - best_of base_ts, push_bit (k - 7) 1)])"
    using seq_pass_reads [OF assms(1,2) _ assms(3), of k "best_of base_ts" "ts 0"] assms(1)
    by (simp add: do_seq_latency_test_def seq_passes.simps)
next
  have pass: "\<exists>r. seq_pass 0 base t d = Inr r" for base t
    using seq_pass_reads [of 26 0 d base t] assms(4) by simp
  have "seq_passes 0 base ts d n out \<noteq> Some y" for base n out y
  proof
    assume "seq_passes 0 base ts d n out = Some y"
    then have "0 = (0 :: nat) \<and> d = d \<longrightarrow> False"
    proof (rule seq_passes.raw_induct [where P = "\<lambda>sz base ts c n out y. sz = 0 \<and> c = d \<longrightarrow> False", rotated])
      fix f sz base ts c n out y
      assume IH: "\<And>sz base ts c n out y. f sz base ts c n out = Some y \<Longrightarrow> sz = 0 \<and> c = d \<longrightarrow> False"
        and eq: "(case seq_pass sz base (ts n) c of Inl e \<Rightarrow> Some (Inl e)
          | Inr r \<Rightarrow> if sz = 0 then f sz base ts c (n + 1) (out @ [r]) else Some (Inr (out @ [r]))) = Some y"
      show "sz = 0 \<and> c = d \<longrightarrow> False"
      proof
        assume "sz = 0 \<and> c = d"
        moreover from this obtain r where "seq_pass sz base (ts n) c = Inr r" using pass by blast
        ultimately have "f sz base ts c (n + 1) (out @ [r]) = Some y" using eq by simp
        from IH [OF this] show False using \<open>sz = 0 \<and> c = d\<close> by blast
      qed
    qed
    then show False by simp
  qed
  then show "do_seq_latency_test 0 base_ts ts d = None"
    unfolding do_seq_latency_test_def by (cases "seq_passes 0 (best_of base_ts) ts d 0 []") auto
qed

theorem seq_latency_returns_iff_sized_witness:
  "do_seq_latency_test 10 [(0, 3), (0, 2)] (\<lambda>_. [(0, 9), (0, 7)]) (replicate 8 5) =
    Some (Inr [([[0..<8], [0..<8]], nice_size 1024, 5, 8)]) \<and>
   do_seq_latency_test 0 [] (\<lambda>_. []) (replicate 524288 0) = None"
proof -
  have c: "2 ^ (10 - 7) \<le> length (replicate 8 (5 :: u64))" by simp
  have d: "2 ^ 19 \<le> length (replicate 524288 (0 :: u64))" by simp
  have b: "best_of [(0, 9), (0, 7)] - best_of [(0, 3), (0, 2)] = 5"
    by (simp add: best_of_def)
  have r: "replicate (length [(0 :: u64, 9 :: u64), (0, 7)]) [0..<2 ^ (10 - 7)] = [[0..<8], [0..<8]]"
  proof -
    have "length [(0 :: u64, 9 :: u64), (0, 7)] = Suc (Suc 0)" and "(2 :: nat) ^ (10 - 7) = 8"
      by simp_all
    then show ?thesis by (simp only: replicate.simps)
  qed
  have p: "push_bit (10 - 7) (1 :: u64) = 8" "push_bit 10 (1 :: u32) = 1024"
    by (simp_all add: push_bit_eq_mult)
  show ?thesis
    using seq_latency_returns_iff_sized [OF order.refl _ c d, of "[(0, 3), (0, 2)]" "\<lambda>_. [(0, 9), (0, 7)]"]
      seq_latency_returns_iff_sized [OF order.refl _ c d, of "[]" "\<lambda>_. []"]
    by (simp only: b r p)
qed

end
