(* ===== verification/MbThreads.thy ===== *)
theory MbThreads
  imports MbLatency
begin

text \<open>
  The throughput part of \<open>mb_enzian.c\<close>: \<open>start_threads\<close> with its barrier, and the three
  functions its threads run over their parts of the test area.
\<close>

section \<open>The barrier\<close>

text \<open>
  Every participant has passed a number of waits and may be waiting at the next. The main
  thread waits once and then three times, each worker once per round of its loop.
\<close>

type_synonym barrier_state = "(nat \<times> bool) list"

definition WAITS :: nat where
  "WAITS = 1 + 3"

definition ROUNDS :: nat where
  "ROUNDS = 4"

text \<open>\<open>pthread_barrier_wait\<close> releases all when the count of the initialisation has arrived.\<close>

definition pass_barrier :: "barrier_state \<Rightarrow> barrier_state" where
  "pass_barrier s = map (\<lambda>(k, w). if w then (k + 1, False) else (k, w)) s"

text \<open>Participant 0 is the main thread.\<close>

definition waits_of :: "nat \<Rightarrow> nat" where
  "waits_of p = (if p = 0 then WAITS else ROUNDS)"

inductive barrier_step :: "nat \<Rightarrow> barrier_state \<Rightarrow> barrier_state \<Rightarrow> bool" for count :: nat where
  arrive: "p < length s \<Longrightarrow> s ! p = (k, False) \<Longrightarrow> k < waits_of p \<Longrightarrow>
    barrier_step count s (s[p := (k, True)])"
| release: "length (filter snd s) = count \<Longrightarrow> 0 < count \<Longrightarrow> barrier_step count s (pass_barrier s)"

definition barrier_start :: "nat \<Rightarrow> barrier_state \<Rightarrow> bool" where
  "barrier_start n s \<longleftrightarrow> s = replicate n (0, False)"

definition barrier_done :: "barrier_state \<Rightarrow> bool" where
  "barrier_done s \<longleftrightarrow> (\<forall>p < length s. s ! p = (waits_of p, False))"

section \<open>Starting the threads\<close>

text \<open>
  \<open>created i\<close> tells whether \<open>pthread_create\<close> can start a thread on CPU \<open>i\<close> (it refuses a CPU that
  does not exist), \<open>ret i\<close> is what that thread returns. The result of \<open>pthread_create\<close> is not
  looked at. There is room for 128 thread identifiers; the counts are \<open>uint64_t\<close>. A barrier for
  0 participants is not initialised, and its use undefined; one for more than there are is
  never passed, and the function does not return: the value is \<open>None\<close>. To join a thread that
  was not created reads an identifier that was never written.
\<close>

definition thread_ids :: "u64 \<Rightarrow> u64 \<Rightarrow> u64 list" where
  "thread_ids first_cpu last_cpu = map of_nat [unat first_cpu..<Suc (unat last_cpu)]"

definition barrier_count :: "u64 \<Rightarrow> u64 \<Rightarrow> u32" where
  "barrier_count first_cpu last_cpu = ucast (last_cpu - first_cpu + 2)"

definition start_threads ::
  "u64 \<Rightarrow> u64 \<Rightarrow> (u64 \<Rightarrow> bool) \<Rightarrow> (u64 \<Rightarrow> u64) \<Rightarrow> u64 res option" where
  "start_threads first_cpu last_cpu created ret =
     (let ids = thread_ids first_cpu last_cpu; count = barrier_count first_cpu last_cpu
      in if count = 0 then Some (Inl UninitRead)
         else if \<exists>i \<in> set ids. 128 \<le> i then Some (Inl OutOfBounds)
         else if Suc (length (filter created ids)) < unat count then None
         else if \<exists>i \<in> set ids. \<not> created i then Some (Inl UninitRead)
         else let sum = fold (\<lambda>i m. m + ret i) ids 0;
                  n = last_cpu - first_cpu + 1
              in if n = 0 then Some (Inl DivByZero) else Some (Inr (sum div n)))"

section \<open>The workers\<close>

text \<open>
  Addresses are numbers; the mapping is far below \<open>2 ^ 64\<close>. An access is a 16-byte store or
  load, the clearing of a line, or a prefetch hint with its level.
\<close>

datatype access = St nat | Ld nat | Zva nat | Prefetch nat nat

function lines_loop :: "nat \<Rightarrow> nat \<Rightarrow> nat list" where
  "lines_loop d e = (if d < e then d # lines_loop (d + 128) e else [])"
  by pat_completeness auto
termination
  by (relation "measure (\<lambda>(d, e). e - d)") auto

declare lines_loop.simps [simp del]

text \<open>
  Four rounds of \<open>itn\<close> passes over the thread's lines; \<open>body\<close> is what a pass does to a line.
  The result is the least of the four times. \<open>ts\<close> are the counter readings.
\<close>

definition worker ::
  "(nat \<Rightarrow> access list) \<Rightarrow> nat \<Rightarrow> nat \<Rightarrow> nat \<Rightarrow> (u64 \<times> u64) list \<Rightarrow> nat \<Rightarrow> access list \<times> u64" where
  "worker body area sz itn ts me =
     (let a = area + me * sz; e = area + me * sz + sz
      in (concat (replicate ROUNDS (concat (replicate itn (concat (map body (lines_loop a e)))))),
          fold (\<lambda>(t0, t1) m. if t1 - t0 < m then t1 - t0 else m) (take ROUNDS ts) (- 1)))"

definition vectors :: "nat \<Rightarrow> nat list" where
  "vectors d = map (\<lambda>j. d + 16 * j) [0..<8]"

definition thread_write_cache_area ::
  "nat \<Rightarrow> nat \<Rightarrow> nat \<Rightarrow> (u64 \<times> u64) list \<Rightarrow> nat \<Rightarrow> access list \<times> u64" where
  "thread_write_cache_area = worker (\<lambda>d. map St (vectors d))"

definition thread_clear_cache_area ::
  "nat \<Rightarrow> nat \<Rightarrow> nat \<Rightarrow> (u64 \<times> u64) list \<Rightarrow> nat \<Rightarrow> access list \<times> u64" where
  "thread_clear_cache_area = worker (\<lambda>d. [Zva d])"

text \<open>Beyond the first-level cache size lines are prefetched, the further ahead the larger.\<close>

definition thread_read_cache_area ::
  "nat \<Rightarrow> nat \<Rightarrow> nat \<Rightarrow> nat \<Rightarrow> (u64 \<times> u64) list \<Rightarrow> nat \<Rightarrow> access list \<times> u64" where
  "thread_read_cache_area l2_cache_size area sz =
     (if sz \<le> 32768 then worker (\<lambda>d. map Ld (vectors d)) area sz
      else if sz \<le> l2_cache_size then
        worker (\<lambda>d. Prefetch 1 (d + 4 * 128) # map Ld (vectors d)) area sz
      else
        worker (\<lambda>d. Prefetch 1 (d + 4 * 128) # Prefetch 2 (d + 64 * 128) # map Ld (vectors d)) area sz)"

text \<open>The bytes an access needs; a prefetch hint cannot fault.\<close>

fun bytes_of :: "access \<Rightarrow> nat set" where
  "bytes_of (St a) = {a..<a + 16}"
| "bytes_of (Ld a) = {a..<a + 16}"
| "bytes_of (Zva a) = {a..<a + 128}"
| "bytes_of (Prefetch l a) = {}"

definition footprint :: "access list \<Rightarrow> nat set" where
  "footprint as = (\<Union>a \<in> set as. bytes_of a)"

section \<open>The barrier is passed in lockstep\<close>

definition barrier_inv :: "nat \<Rightarrow> barrier_state \<Rightarrow> bool" where
  "barrier_inv n s \<longleftrightarrow> length s = n \<and>
     (\<exists>k \<le> 4. \<forall>x \<in> set s. fst x = k \<and> (snd x \<longrightarrow> k < 4))"

lemma waits_of_4: "waits_of p = 4"
  by (simp add: waits_of_def WAITS_def ROUNDS_def)

lemma all_waiting: "length (filter snd s) = length s \<longleftrightarrow> (\<forall>x \<in> set s. snd x)"
proof (induction s)
  case (Cons x s)
  have "length (filter snd s) \<noteq> Suc (length s)" using length_filter_le [of snd s] by linarith
  then show ?case using Cons by auto
qed simp

lemma barrier_same: "barrier_inv n s \<Longrightarrow> x \<in> set s \<Longrightarrow> y \<in> set s \<Longrightarrow> fst x = fst y"
  unfolding barrier_inv_def by metis

lemma barrier_uniform:
  assumes "barrier_inv n s" and "\<forall>x \<in> set s. snd x = w" and "0 < n"
  obtains k where "s = replicate n (k, w)" and "k \<le> 4" and "w \<longrightarrow> k < 4"
proof -
  obtain k where k: "k \<le> 4" "\<forall>x \<in> set s. fst x = k \<and> (snd x \<longrightarrow> k < 4)" and n: "length s = n"
    using assms(1) by (auto simp: barrier_inv_def)
  have "s \<noteq> []" using n assms(3) by auto
  then have "w \<longrightarrow> k < 4" using k(2) assms(2) by (cases s) auto
  moreover have "s = replicate n (k, w)"
    using k(2) assms(2) n by (intro nth_equalityI) (auto simp: prod_eq_iff)
  ultimately show thesis using that k(1) by blast
qed

lemma barrier_step_inv:
  assumes "barrier_inv n s" and "barrier_step n s t"
  shows "barrier_inv n t"
  using assms(2)
proof cases
  case (arrive p k)
  then have "(k, False) \<in> set s" by (metis nth_mem)
  then have "\<forall>x \<in> set s. fst x = k" and "length s = n"
    using barrier_same [OF assms(1), of _ "(k, False)"] assms(1) by (simp_all add: barrier_inv_def)
  moreover have "k < 4" using arrive(4) by (simp add: waits_of_4)
  ultimately have s: "\<forall>x \<in> set s. fst x = k" "length s = n" "k < 4" by blast+
  have "\<forall>x \<in> set t. fst x = k"
    using s(1) arrive(1) by (auto dest!: set_update_subset_insert [THEN subsetD])
  then show ?thesis
    using s(2,3) arrive(1) by (auto simp: barrier_inv_def intro!: exI [of _ k])
next
  case release
  have "\<forall>x \<in> set s. snd x = True"
    using release assms(1) all_waiting [of s] by (simp add: barrier_inv_def)
  from barrier_uniform [OF assms(1) this release(3)] obtain k where
    "s = replicate n (k, True)" "k < 4" by auto
  then show ?thesis
    using release(1) by (auto simp: barrier_inv_def pass_barrier_def intro!: exI [of _ "k + 1"])
qed

interpretation bar: transition_system "barrier_start n" "barrier_step n" "barrier_inv n" for n
proof
  show "barrier_start n s \<Longrightarrow> barrier_inv n s" for s
    by (auto simp: barrier_start_def barrier_inv_def)
  show "barrier_inv n s \<Longrightarrow> barrier_step n s t \<Longrightarrow> barrier_inv n t" for s t
    by (rule barrier_step_inv)
qed

text \<open>How many arrivals and releases are still to come.\<close>

definition barrier_left :: "barrier_state \<Rightarrow> nat" where
  "barrier_left s = (\<Sum>(k, w) \<leftarrow> s. 2 * (4 - k) - (if w then 1 else 0))"

lemma barrier_progress:
  assumes "barrier_inv n s" and "0 < n" and "\<not> barrier_done s"
  shows "\<exists>t. barrier_step n s t"
proof (cases "\<forall>x \<in> set s. snd x")
  case True
  then have "length (filter snd s) = n"
    using assms(1) all_waiting [of s] by (simp add: barrier_inv_def)
  then show ?thesis using assms(2) by (blast intro: release)
next
  case False
  then obtain p where p: "p < length s" "\<not> snd (s ! p)" by (auto simp: in_set_conv_nth)
  obtain k where k: "k \<le> 4" "\<forall>x \<in> set s. fst x = k \<and> (snd x \<longrightarrow> k < 4)"
    using assms(1) by (auto simp: barrier_inv_def)
  have "k < 4"
  proof (rule ccontr)
    assume "\<not> k < 4"
    then have "\<forall>x \<in> set s. x = (4, False)" using k by (auto simp: prod_eq_iff)
    then show False using assms(3) by (auto simp: barrier_done_def waits_of_4)
  qed
  moreover have "s ! p = (k, False)" using p k(2) nth_mem [OF p(1)] by (auto simp: prod_eq_iff)
  ultimately show ?thesis using barrier_step.arrive [OF p(1), of k n] by (auto simp: waits_of_4)
qed

lemma barrier_step_left:
  assumes "barrier_inv n s" and "barrier_step n s t"
  shows "barrier_left t < barrier_left s"
  using assms(2)
proof cases
  case (arrive p k)
  let ?f = "\<lambda>(k, w). 2 * (4 - k) - (if w then 1 else (0 :: nat))"
  have "?f (s ! p) \<le> sum_list (map ?f s)"
    using arrive(2) by (intro member_le_sum_list) (auto simp: image_iff)
  moreover have "map ?f t = (map ?f s)[p := ?f (k, True)]" by (simp add: arrive(1) map_update)
  then have "sum_list (map ?f t) = sum_list (map ?f s) + ?f (k, True) - ?f (s ! p)"
    using arrive(2) sum_list_update [of p "map ?f s" "?f (k, True)"] by simp
  moreover have "k < 4" using arrive(4) by (simp add: waits_of_4)
  ultimately show ?thesis using arrive(3) by (simp add: barrier_left_def)
next
  case release
  have "length s = n" using assms(1) by (simp add: barrier_inv_def)
  then have "\<forall>x \<in> set s. snd x = True" using release all_waiting [of s] by simp
  from barrier_uniform [OF assms(1) this release(3)] obtain k where
    "s = replicate n (k, True)" "k < 4" by auto
  then show ?thesis
    using release(1,3) by (simp add: barrier_left_def pass_barrier_def sum_list_replicate)
qed

lemma barrier_count_threads:
  assumes "first_cpu \<le> last_cpu" and "last_cpu < 128"
  shows "unat (barrier_count first_cpu last_cpu) = Suc (length (thread_ids first_cpu last_cpu))"
proof -
  have u: "unat first_cpu \<le> unat last_cpu" "unat last_cpu < 128"
    using assms by (simp_all add: word_le_nat_alt word_less_nat_alt)
  then have "unat (last_cpu - first_cpu) = unat last_cpu - unat first_cpu"
    by (simp add: unat_sub word_le_nat_alt)
  then have "unat (last_cpu - first_cpu + 2) = unat last_cpu - unat first_cpu + 2"
    using u by (simp add: unat_word_ariths)
  then have "unat (barrier_count first_cpu last_cpu) = unat last_cpu - unat first_cpu + 2"
    using u by (simp add: barrier_count_def unsigned_ucast_eq take_bit_nat_eq_self)
  then show ?thesis using u by (simp add: thread_ids_def)
qed

text \<open>With fewer participants than the barrier counts, nobody ever passes it.\<close>

definition stuck_inv :: "nat \<Rightarrow> barrier_state \<Rightarrow> bool" where
  "stuck_inv n s \<longleftrightarrow> length s = n \<and> (\<forall>x \<in> set s. fst x = 0)"

lemma stuck_step:
  assumes "n < count" and "stuck_inv n s" and "barrier_step count s t"
  shows "stuck_inv n t"
  using assms(3)
proof cases
  case (arrive p k)
  then have "(k, False) \<in> set s" by (metis nth_mem)
  then have "k = 0" using assms(2) by (auto simp: stuck_inv_def)
  with arrive(1) assms(2) show ?thesis
    by (auto simp: stuck_inv_def dest!: set_update_subset_insert [THEN subsetD])
next
  case release
  then show ?thesis
    using assms(1,2) length_filter_le [of snd s] by (simp add: stuck_inv_def)
qed

lemma stuck_reach:
  assumes "reach (barrier_start n) (barrier_step count) s" and "n < count"
  shows "stuck_inv n s"
  using assms(1)
proof induction
  case (reach_init s)
  then show ?case by (simp add: barrier_start_def stuck_inv_def)
next
  case (reach_step s t)
  then show ?case by (blast intro: stuck_step [OF assms(2)])
qed

lemma created_threads:
  "length (filter created ids) < length ids \<longleftrightarrow> (\<exists>i \<in> set ids. \<not> created i)"
proof (induction ids)
  case (Cons i ids)
  then show ?case using length_filter_le [of created ids] by (cases "created i") (auto simp: less_Suc_eq_le)
qed simp

text \<open>
  C9: for any range of at most 128 CPUs the barrier of \<open>start_threads\<close> is initialised with the
  number of its participants, the workers and the main thread, if every worker could be
  created. Then, in every state of every run, all have passed the same number of waits (no
  round is timed while another thread is in an earlier one); unless every participant has
  passed its four waits some participant can go on, and each step brings the end closer, so
  that no run hangs or goes on for ever. If a single worker is missing, no participant ever
  passes its first wait.
\<close>

theorem start_threads_barrier:
  assumes "first_cpu \<le> last_cpu" and "last_cpu < 128"
    and "reach (barrier_start (Suc (length (filter created (thread_ids first_cpu last_cpu)))))
           (barrier_step (unat (barrier_count first_cpu last_cpu))) s"
  shows "((\<forall>i \<in> set (thread_ids first_cpu last_cpu). created i) \<longrightarrow>
      (\<forall>x \<in> set s. \<forall>y \<in> set s. fst x = fst y) \<and>
      (\<not> barrier_done s \<longrightarrow> (\<exists>t. barrier_step (unat (barrier_count first_cpu last_cpu)) s t)) \<and>
      (\<forall>t. barrier_step (unat (barrier_count first_cpu last_cpu)) s t \<longrightarrow> barrier_left t < barrier_left s)) \<and>
    ((\<exists>i \<in> set (thread_ids first_cpu last_cpu). \<not> created i) \<longrightarrow> (\<forall>x \<in> set s. fst x = 0))"
proof (intro conjI impI)
  let ?ids = "thread_ids first_cpu last_cpu"
  let ?n = "Suc (length ?ids)"
  note n = barrier_count_threads [OF assms(1,2)]
  {
    assume "\<forall>i \<in> set ?ids. created i"
    then have "filter created ?ids = ?ids" by simp
    with assms(3) have inv: "barrier_inv ?n s" unfolding n by (simp only:) (rule bar.reach_inv)
    show "\<forall>x \<in> set s. \<forall>y \<in> set s. fst x = fst y"
      using barrier_same [OF inv] by blast
    show "\<exists>t. barrier_step (unat (barrier_count first_cpu last_cpu)) s t" if "\<not> barrier_done s"
      unfolding n using barrier_progress [OF inv _ that] by blast
    show "\<forall>t. barrier_step (unat (barrier_count first_cpu last_cpu)) s t \<longrightarrow> barrier_left t < barrier_left s"
      unfolding n using barrier_step_left [OF inv] by blast
  }
  assume "\<exists>i \<in> set ?ids. \<not> created i"
  then have "Suc (length (filter created ?ids)) < ?n"
    unfolding Suc_less_eq created_threads .
  with assms(3) show "\<forall>x \<in> set s. fst x = 0"
    unfolding n using stuck_reach unfolding stuck_inv_def by blast
qed

theorem start_threads_barrier_witness:
  "\<exists>t. barrier_step 3 [(0, True), (0, True), (0, False)] t"
proof -
  have "thread_ids 4 5 = [4, 5]" by (simp add: thread_ids_def upt_conv_Cons)
  then have n: "Suc (length (thread_ids 4 5)) = 3" by simp
  have c: "unat (barrier_count 4 5) = 3" by (simp add: barrier_count_def)
  have "barrier_start 3 [(0, False), (0, False), (0, False)]"
    by (simp add: barrier_start_def numeral_3_eq_3)
  then have "reach (barrier_start 3) (barrier_step 3) [(0, False), (0, False), (0, False)]"
    by (rule reach_init)
  moreover have "barrier_step 3 [(0, False), (0, False), (0, False)] [(0, True), (0, False), (0, False)]"
    using arrive [of 0 "[(0, False), (0, False), (0, False)]" 0 3] by (simp add: waits_of_4)
  ultimately have "reach (barrier_start 3) (barrier_step 3) [(0, True), (0, False), (0, False)]"
    by (rule reach_step)
  moreover have "barrier_step 3 [(0, True), (0, False), (0, False)] [(0, True), (0, True), (0, False)]"
    using arrive [of 1 "[(0, True), (0, False), (0, False)]" 0 3] by (simp add: waits_of_4)
  ultimately have "reach (barrier_start 3) (barrier_step 3) [(0, True), (0, True), (0, False)]"
    by (rule reach_step)
  moreover have "\<not> barrier_done [(0, True), (0, True), (0, False)]"
    by (auto simp: barrier_done_def waits_of_4)
  ultimately show ?thesis
    using start_threads_barrier [of 4 5 "\<lambda>_. True" "[(0, True), (0, True), (0, False)]"]
    unfolding filter_True [OF ballI [OF TrueI]] n c by simp
qed

section \<open>What the workers touch\<close>

lemma lines_loop_eq: "lines_loop a (a + 128 * m) = map (\<lambda>k. a + 128 * k) [0..<m]"
proof (induction m arbitrary: a)
  case 0
  then show ?case by (simp add: lines_loop.simps)
next
  case (Suc m)
  have "lines_loop a (a + 128 * Suc m) = a # lines_loop (a + 128) (a + 128 + 128 * m)"
    by (subst lines_loop.simps) (simp add: add.assoc)
  also have "lines_loop (a + 128) (a + 128 + 128 * m) = map (\<lambda>k. a + 128 + 128 * k) [0..<m]"
    by (rule Suc.IH)
  finally show ?case
    by (simp add: map_upt_Suc add.assoc del: upt_Suc)
qed

lemma footprint_append: "footprint (as @ bs) = footprint as \<union> footprint bs"
  by (auto simp: footprint_def)

lemma footprint_concat: "footprint (concat xss) = (\<Union>xs \<in> set xss. footprint xs)"
  by (induction xss) (auto simp: footprint_append footprint_def)

lemma set_replicate_pos: "0 < n \<Longrightarrow> set (replicate n x) = {x}"
  by auto

lemma lines_cover: "(\<Union>k < (m :: nat). {a + 128 * k..<a + 128 * k + 128}) = {a..<a + 128 * m}"
  by (induction m) (auto simp: lessThan_Suc)

lemma worker_footprint:
  assumes "sz = 128 * m" and "0 < itn" and "\<And>d. footprint (body d) = {d..<d + 128}"
  shows "footprint (fst (worker body area sz itn ts me)) = {area + me * sz..<area + me * sz + sz}"
proof -
  have "footprint (fst (worker body area sz itn ts me)) =
      (\<Union>k < m. {area + me * sz + 128 * k..<area + me * sz + 128 * k + 128})"
    using assms(2,3)
    by (simp add: worker_def Let_def footprint_concat set_replicate_pos ROUNDS_def assms(1)
        lines_loop_eq lessThan_atLeast0)
  then show ?thesis by (simp add: lines_cover assms(1))
qed

lemma vectors_cover: "(\<Union>a \<in> set (vectors d). {a..<a + 16}) = {d..<d + 128}"
proof -
  have "vectors d = [d, d + 16, d + 32, d + 48, d + 64, d + 80, d + 96, d + 112]"
    by (simp add: vectors_def upt_conv_Cons)
  then show ?thesis by auto
qed

lemma body_footprints:
  "footprint (map St (vectors d)) = {d..<d + 128}" "footprint (map Ld (vectors d)) = {d..<d + 128}"
  "footprint [Zva d] = {d..<d + 128}" "footprint (Prefetch l a # as) = footprint as"
  using vectors_cover [of d] by (simp_all add: footprint_def image_image)

lemma own_footprint:
  assumes "128 dvd sz" and "0 < itn"
    and "u \<in> {thread_write_cache_area area sz itn ts, thread_clear_cache_area area sz itn ts,
              thread_read_cache_area l2 area sz itn ts}"
  shows "footprint (fst (u i)) = {area + i * sz..<area + i * sz + sz}"
proof -
  obtain m where m: "sz = 128 * m" using assms(1) by (elim dvdE)
  note f = worker_footprint [OF m assms(2)]
  have "footprint (fst (thread_write_cache_area area sz itn ts i)) = {area + i * sz..<area + i * sz + sz}"
    and "footprint (fst (thread_clear_cache_area area sz itn ts i)) = {area + i * sz..<area + i * sz + sz}"
    unfolding thread_write_cache_area_def thread_clear_cache_area_def
    by (rule f, rule body_footprints, rule f, rule body_footprints)
  moreover have "footprint (fst (thread_read_cache_area l2 area sz itn ts i)) =
      {area + i * sz..<area + i * sz + sz}"
    by (cases "sz \<le> 32768"; cases "sz \<le> l2")
      (simp_all add: thread_read_cache_area_def f body_footprints)
  ultimately show ?thesis using assms(3) by blast
qed

text \<open>
  C13: for an area size that is a multiple of the cache line, each of the three workers touches
  exactly the bytes of its own part of the area (every byte and none outside), whatever the
  prefetching; so two threads never touch a common byte.
\<close>

theorem worker_areas_disjoint:
  assumes "128 dvd sz" and "0 < itn"
    and "w \<in> {thread_write_cache_area area sz itn ts, thread_clear_cache_area area sz itn ts,
              thread_read_cache_area l2 area sz itn ts}"
    and "v \<in> {thread_write_cache_area area sz itn ts, thread_clear_cache_area area sz itn ts,
              thread_read_cache_area l2 area sz itn ts}"
  shows "footprint (fst (w me)) = {area + me * sz..<area + me * sz + sz} \<and>
    (me \<noteq> other \<longrightarrow> footprint (fst (w me)) \<inter> footprint (fst (v other)) = {})"
proof -
  have "{area + i * sz..<area + i * sz + sz} \<inter> {area + j * sz..<area + j * sz + sz} = {}"
    if "i < j" for i j
  proof -
    have "Suc i * sz \<le> j * sz" using that by (intro mult_le_mono1) simp
    then show ?thesis by auto
  qed
  then show ?thesis
    using own_footprint [OF assms(1-3), of me] own_footprint [OF assms(1,2,4), of other]
    by (cases me other rule: linorder_cases) blast+
qed

theorem worker_areas_disjoint_witness:
  "footprint (fst (thread_read_cache_area 65536 4096 256 2 [] 3)) = {4864..<5120} \<and>
   footprint (fst (thread_write_cache_area 4096 256 2 [] 3)) \<inter>
     footprint (fst (thread_clear_cache_area 4096 256 2 [] 4)) = {}"
proof
  show "footprint (fst (thread_read_cache_area 65536 4096 256 2 [] 3)) = {4864..<5120}"
    using worker_areas_disjoint [of 256 2 "thread_read_cache_area 65536 4096 256 2 []" 4096 "[]" 65536
        "thread_read_cache_area 65536 4096 256 2 []" 3 3] by simp
  show "footprint (fst (thread_write_cache_area 4096 256 2 [] 3)) \<inter>
     footprint (fst (thread_clear_cache_area 4096 256 2 [] 4)) = {}"
    using worker_areas_disjoint [of 256 2 "thread_write_cache_area 4096 256 2 []" 4096 "[]" 65536
        "thread_clear_cache_area 4096 256 2 []" 3 4, THEN conjunct2] by simp
qed

section \<open>The result of the threads\<close>

lemma fold_add_words:
  assumes "unat m + (\<Sum>i \<leftarrow> ids. unat (ret i)) < 2 ^ 64"
  shows "unat (fold (\<lambda>i m. m + ret i) ids (m :: u64)) = unat m + (\<Sum>i \<leftarrow> ids. unat (ret i))"
  using assms
proof (induction ids arbitrary: m)
  case (Cons i ids)
  have "unat (m + ret i) = unat m + unat (ret i)"
    using Cons.prems by (simp add: unat_word_ariths)
  then show ?case using Cons.IH [of "m + ret i"] Cons.prems by simp
qed simp

text \<open>
  C37: for a range of at most 128 CPUs on each of which a thread could be created, and whose
  times do not add up beyond 64 bits, \<open>start_threads\<close> returns the mean of the threads' times,
  rounded down. If one thread could not be created it never returns.
\<close>

theorem start_threads_mean:
  assumes "first_cpu \<le> last_cpu" and "last_cpu < 128"
    and "(\<Sum>i \<leftarrow> thread_ids first_cpu last_cpu. unat (ret i)) < 2 ^ 64"
  shows "((\<forall>i \<in> set (thread_ids first_cpu last_cpu). created i) \<longrightarrow>
      (\<exists>r. start_threads first_cpu last_cpu created ret = Some (Inr r) \<and>
        unat r = (\<Sum>i \<leftarrow> thread_ids first_cpu last_cpu. unat (ret i)) div length (thread_ids first_cpu last_cpu))) \<and>
    ((\<exists>i \<in> set (thread_ids first_cpu last_cpu). \<not> created i) \<longrightarrow>
      start_threads first_cpu last_cpu created ret = None)"
proof -
  let ?ids = "thread_ids first_cpu last_cpu"
  have u: "unat first_cpu \<le> unat last_cpu" "unat last_cpu < 128"
    using assms(1,2) by (simp_all add: word_le_nat_alt word_less_nat_alt)
  have "\<not> (\<exists>i \<in> set ?ids. 128 \<le> i)"
    using u by (auto simp: thread_ids_def word_le_nat_alt unsigned_of_nat take_bit_nat_eq_self)
  moreover have "unat (last_cpu - first_cpu) = unat last_cpu - unat first_cpu"
    using u by (simp add: unat_sub word_le_nat_alt)
  then have n: "unat (last_cpu - first_cpu + 1) = length ?ids"
    using u by (simp add: thread_ids_def unat_word_ariths)
  moreover have "last_cpu - first_cpu + 1 \<noteq> 0"
  proof
    assume "last_cpu - first_cpu + 1 = 0"
    then have "unat (last_cpu - first_cpu + 1) = 0" by simp
    then show False using n u by (simp add: thread_ids_def)
  qed
  moreover note count = barrier_count_threads [OF assms(1,2)]
  moreover from this have "barrier_count first_cpu last_cpu \<noteq> 0" by auto
  moreover have "unat (fold (\<lambda>i m. m + ret i) ?ids 0) = (\<Sum>i \<leftarrow> ?ids. unat (ret i))"
    using fold_add_words [where m = 0 and ids = ?ids and ret = ret] assms(3) by simp
  ultimately show ?thesis
    using created_threads [of created ?ids] by (auto simp: start_threads_def Let_def unat_div)
qed

theorem start_threads_mean_witness:
  "(\<exists>r. start_threads 4 5 (\<lambda>i. i < 48) (\<lambda>i. i * 100) = Some (Inr r) \<and> unat r = 450) \<and>
   start_threads 4 5 (\<lambda>i. i < 5) (\<lambda>i. i * 100) = None"
proof -
  have "thread_ids 4 5 = [4, 5]" by (simp add: thread_ids_def upt_conv_Cons)
  moreover have "900 div Suc (Suc 0) = (450 :: nat)" by (simp add: numeral_2_eq_2 [symmetric])
  ultimately show ?thesis
    using start_threads_mean [of 4 5 "\<lambda>i. i * 100" "\<lambda>i. i < 48"]
      start_threads_mean [of 4 5 "\<lambda>i. i * 100" "\<lambda>i. i < 5"] by simp
qed

text \<open>When it returns at all, the range was a good one: any other ends in a fault or never.\<close>

lemma take_bit_64_32:
  "take_bit 32 (take_bit 64 a + take_bit 64 b) = take_bit 32 (a + b :: int)"
  "take_bit 32 (take_bit 64 a - take_bit 64 b) = take_bit 32 (a - b :: int)"
  using take_bit_add [of 32 "take_bit 64 a" "take_bit 64 b"] take_bit_add [of 32 a b]
    take_bit_diff [of 32 "take_bit 64 a" "take_bit 64 b"] take_bit_diff [of 32 a b]
  by simp_all

lemma ucast_down:
  "ucast (a + b :: u64) = (ucast a + ucast b :: u32)" "ucast (a - b :: u64) = (ucast a - ucast b :: u32)"
  by (transfer, simp add: take_bit_64_32)+

lemma ucast_up_down: "ucast (ucast f :: u64) = (f :: u32)"
  by transfer simp

lemma start_threads_returns:
  fixes f l :: u32
  assumes "start_threads (ucast f) (ucast l) created ret = Some (Inr r)"
  shows "f \<le> l" and "l < 128"
proof -
  let ?f = "ucast f :: u64" and ?l = "ucast l :: u64"
  have uf: "unat ?f = unat f" "unat ?l = unat l"
    using unsigned_less [of f, where 'a = nat] unsigned_less [of l, where 'a = nat]
    by (simp_all add: unsigned_ucast_eq take_bit_nat_eq_self)
  note ret = assms [unfolded start_threads_def Let_def]
  have count: "barrier_count ?f ?l = l - f + 2"
    unfolding barrier_count_def by (simp add: ucast_down ucast_up_down)
  show le: "f \<le> l"
  proof (rule ccontr)
    assume gt: "\<not> f \<le> l"
    then have "thread_ids ?f ?l = []" by (simp add: thread_ids_def uf word_le_nat_alt)
    then have "l - f + 2 \<noteq> 0" "unat (l - f + 2) \<le> 1"
      using ret unfolding count by (auto split: if_splits)
    moreover from this have "unat (l - f + 2) \<noteq> 0" by (metis unat_eq_zero)
    ultimately have "unat (l - f + 2) = 1" by linarith
    then have "l - f + 2 = 1" by (metis unat_1 unsigned_word_eqI)
    then have "f = l + 1" by (simp add: algebra_simps)
    moreover from this have "unat f = Suc (unat l)"
      using gt by (simp add: word_le_nat_alt unat_word_ariths split: if_splits)
    ultimately have "?f = ?l + 1" using uf by (simp add: word_unat_eq_iff unat_word_ariths)
    then have "?l - ?f + 1 = 0" by simp
    then show False using ret by (auto split: if_splits)
  qed
  have "unat l \<in> {unat ?f..<Suc (unat ?l)}" using le by (simp add: uf word_le_nat_alt)
  then have "of_nat (unat l) \<in> set (thread_ids ?f ?l)" unfolding thread_ids_def by auto
  then have "(of_nat (unat l) :: u64) < 128" using ret by (auto split: if_splits)
  then show "l < 128" by (simp add: word_less_nat_alt unsigned_of_nat uf)
qed

end
