(* ===== verification/MbC2C.thy ===== *)
theory MbC2C
  imports Prelude
begin

text \<open>
  The core-to-core latency test of \<open>mb_enzian.c\<close>: two threads hand values to each other through
  two cache lines, \<open>c2c_data[0]\<close> and \<open>c2c_data[16]\<close>, after meeting the main thread at a barrier.
  The steps of the three are interleaved on a sequentially consistent memory (the program
  issues a full barrier after every store).
\<close>

section \<open>The threads\<close>

datatype pc1 = Start0 | Start16 | Bar1 | Store1 nat | Spin1 nat | End1
datatype pc2 = Bar2 | Load2 | Copy2 nat | Test2 nat | End2
datatype pc_main = MStart | MBar | MJoin

text \<open>
  \<open>d0\<close> and \<open>d16\<close> are the two cells; all values are at most 1000, or what the memory held before.
  \<open>trips\<close> counts the values thread 1 has seen come back; it is not part of the program.
\<close>

record c2c =
  d0 :: nat
  d16 :: nat
  at1 :: pc1
  at2 :: pc2
  atm :: pc_main
  trips :: nat

definition COUNT_DOWN :: nat where
  "COUNT_DOWN = 1000"

definition t1_next :: "c2c \<Rightarrow> c2c" where
  "t1_next s =
     (case at1 s of
        Start0 \<Rightarrow> s\<lparr>d0 := 1, at1 := Start16\<rparr>
      | Start16 \<Rightarrow> s\<lparr>d16 := 1, at1 := Bar1\<rparr>
      | Bar1 \<Rightarrow> s
      | Store1 i \<Rightarrow> s\<lparr>d0 := i, at1 := Spin1 i\<rparr>
      | Spin1 i \<Rightarrow>
          if i \<noteq> d16 s then s
          else s\<lparr>at1 := (if 0 < i then Store1 (i - 1) else End1), trips := trips s + 1\<rparr>
      | End1 \<Rightarrow> s)"

definition t2_next :: "c2c \<Rightarrow> c2c" where
  "t2_next s =
     (case at2 s of
        Bar2 \<Rightarrow> s
      | Load2 \<Rightarrow> s\<lparr>at2 := Copy2 (d0 s)\<rparr>
      | Copy2 v \<Rightarrow> s\<lparr>d16 := v, at2 := Test2 v\<rparr>
      | Test2 v \<Rightarrow> s\<lparr>at2 := (if v = 0 then End2 else Load2)\<rparr>
      | End2 \<Rightarrow> s)"

text \<open>The barrier has three participants; all go on when all have arrived.\<close>

definition barrier_next :: "c2c \<Rightarrow> c2c" where
  "barrier_next s =
     (if at1 s = Bar1 \<and> at2 s = Bar2 \<and> atm s = MBar
      then s\<lparr>at1 := Store1 COUNT_DOWN, at2 := Load2, atm := MJoin\<rparr> else s)"

definition main_next :: "c2c \<Rightarrow> c2c" where
  "main_next s = (if atm s = MStart then s\<lparr>atm := MBar\<rparr> else s)"

inductive c2c_step :: "c2c \<Rightarrow> c2c \<Rightarrow> bool" where
  thread1: "c2c_step s (t1_next s)"
| thread2: "c2c_step s (t2_next s)"
| main_thread: "c2c_step s (main_next s)"
| barrier: "c2c_step s (barrier_next s)"

definition c2c_init :: "c2c \<Rightarrow> bool" where
  "c2c_init s \<longleftrightarrow> at1 s = Start0 \<and> at2 s = Bar2 \<and> atm s = MStart \<and> trips s = 0"

text \<open>
  How \<open>do_c2c_test\<close> sets this up: where the cells are, for how many the barrier is, and which
  thread runs on which CPU. With \<open>second_cpu\<close> -1 the FPGA plays the second thread.
\<close>

definition do_c2c_test :: "u64 \<Rightarrow> int \<Rightarrow> int \<Rightarrow> u64 \<times> nat \<times> (int \<times> string) list" where
  "do_c2c_test area first_cpu second_cpu =
     (if second_cpu = -1 then area + 0x8000000080 else area,
      if second_cpu \<noteq> -1 then 3 else 2,
      (first_cpu, ''thread_c2c_1'') #
        (if second_cpu \<noteq> -1 then [(second_cpu, ''thread_c2c_2'')] else []))"

section \<open>The invariant\<close>

text \<open>The value handed over before \<open>i\<close>.\<close>

definition before :: "nat \<Rightarrow> nat" where
  "before i = (if i = COUNT_DOWN then 1 else i + 1)"

lemma before_neq [simp]: "before i \<noteq> i" "i \<noteq> before i" "before i \<noteq> 0" "0 < before i"
  by (simp_all add: before_def COUNT_DOWN_def)

lemma before_pred: "0 < i \<Longrightarrow> i \<le> COUNT_DOWN \<Longrightarrow> before (i - 1) = i"
  by (auto simp: before_def COUNT_DOWN_def)

fun c2c_inv_at :: "pc1 \<Rightarrow> c2c \<Rightarrow> bool" where
  "c2c_inv_at Start0 s \<longleftrightarrow> at2 s = Bar2 \<and> atm s \<noteq> MJoin \<and> trips s = 0"
| "c2c_inv_at Start16 s \<longleftrightarrow> at2 s = Bar2 \<and> atm s \<noteq> MJoin \<and> trips s = 0 \<and> d0 s = 1"
| "c2c_inv_at Bar1 s \<longleftrightarrow> at2 s = Bar2 \<and> atm s \<noteq> MJoin \<and> trips s = 0 \<and> d0 s = 1 \<and> d16 s = 1"
| "c2c_inv_at (Store1 i) s \<longleftrightarrow> atm s = MJoin \<and> i \<le> COUNT_DOWN \<and> trips s = COUNT_DOWN - i \<and>
     d0 s = before i \<and> d16 s = before i \<and>
     at2 s \<in> {Load2, Copy2 (before i), Test2 (before i)}"
| "c2c_inv_at (Spin1 i) s \<longleftrightarrow> atm s = MJoin \<and> i \<le> COUNT_DOWN \<and> trips s = COUNT_DOWN - i \<and> d0 s = i \<and>
     (d16 s = i \<and> at2 s \<in> {Load2, Copy2 i, Test2 i} \<or> d16 s = i \<and> i = 0 \<and> at2 s = End2 \<or>
      d16 s = before i \<and> at2 s \<in> {Load2, Copy2 i, Copy2 (before i), Test2 (before i)})"
| "c2c_inv_at End1 s \<longleftrightarrow> atm s = MJoin \<and> trips s = COUNT_DOWN + 1 \<and> d0 s = 0 \<and> d16 s = 0 \<and>
     at2 s \<in> {Load2, Copy2 0, Test2 0, End2}"

definition c2c_inv :: "c2c \<Rightarrow> bool" where
  "c2c_inv s \<longleftrightarrow> c2c_inv_at (at1 s) s"

lemma t1_inv:
  assumes "c2c_inv s" shows "c2c_inv (t1_next s)"
proof (cases "at1 s")
  case (Spin1 i)
  show ?thesis
  proof (cases "d16 s = i")
    case False
    then show ?thesis using assms Spin1 by (simp add: t1_next_def)
  next
    case True
    have inv: "atm s = MJoin" "i \<le> COUNT_DOWN" "trips s = COUNT_DOWN - i" "d0 s = i"
      "at2 s \<in> {Load2, Copy2 i, Test2 i} \<or> i = 0 \<and> at2 s = End2"
      using assms Spin1 True by (auto simp: c2c_inv_def)
    show ?thesis
    proof (cases i)
      case 0
      then show ?thesis using inv Spin1 True by (auto simp: c2c_inv_def t1_next_def)
    next
      case (Suc j)
      then have "before j = i" using before_pred [of i] inv(2) by simp
      then show ?thesis using inv Spin1 True Suc by (auto simp: c2c_inv_def t1_next_def)
    qed
  qed
qed (use assms in \<open>auto simp: c2c_inv_def t1_next_def\<close>)

lemma t2_inv: "c2c_inv s \<Longrightarrow> c2c_inv (t2_next s)"
  by (cases "at1 s") (auto simp: c2c_inv_def t2_next_def)

lemma main_inv: "c2c_inv s \<Longrightarrow> c2c_inv (main_next s)"
  by (cases "at1 s") (auto simp: c2c_inv_def main_next_def)

lemma barrier_next_inv: "c2c_inv s \<Longrightarrow> c2c_inv (barrier_next s)"
  by (cases "at1 s") (auto simp: c2c_inv_def barrier_next_def before_def)

interpretation c2c: transition_system c2c_init c2c_step c2c_inv
proof
  show "c2c_init s \<Longrightarrow> c2c_inv s" for s
    by (simp add: c2c_init_def c2c_inv_def)
  show "c2c_inv s \<Longrightarrow> c2c_step s t \<Longrightarrow> c2c_inv t" for s t
    by (auto elim!: c2c_step.cases intro: t1_inv t2_inv main_inv barrier_next_inv)
qed

section \<open>The test can always be finished\<close>

definition both_done :: "c2c \<Rightarrow> bool" where
  "both_done s \<longleftrightarrow> at1 s = End1 \<and> at2 s = End2"

definition can_finish :: "c2c \<Rightarrow> bool" where
  "can_finish s \<longleftrightarrow> (\<exists>t. c2c_step\<^sup>*\<^sup>* s t \<and> both_done t)"

lemma finish_step: "c2c_step s t \<Longrightarrow> can_finish t \<Longrightarrow> can_finish s"
  unfolding can_finish_def by (meson converse_rtranclp_into_rtranclp)

lemmas finish1 = finish_step [OF thread1]
lemmas finish2 = finish_step [OF thread2]
lemmas finish_bar = finish_step [OF barrier]
lemmas finish_main = finish_step [OF main_thread]

lemma finish_End1:
  assumes "c2c_inv s" and "at1 s = End1"
  shows "can_finish s"
proof -
  have fin: "at1 t = End1 \<Longrightarrow> at2 t = End2 \<Longrightarrow> can_finish t" for t
    by (auto simp: can_finish_def both_done_def)
  have test: "at1 t = End1 \<Longrightarrow> at2 t = Test2 0 \<Longrightarrow> can_finish t" for t
    by (rule finish2, rule fin) (simp_all add: t2_next_def)
  have copy: "at1 t = End1 \<Longrightarrow> at2 t = Copy2 0 \<Longrightarrow> can_finish t" for t
    by (rule finish2, rule test) (simp_all add: t2_next_def)
  have load: "at1 t = End1 \<Longrightarrow> at2 t = Load2 \<Longrightarrow> d0 t = 0 \<Longrightarrow> can_finish t" for t
    by (rule finish2, rule copy) (simp_all add: t2_next_def)
  show ?thesis
    using assms fin test copy load by (auto simp: c2c_inv_def)
qed

text \<open>A state in which thread 1 waits for \<open>i\<close> leads to one in which \<open>i\<close> is there.\<close>

lemma finish_Spin1:
  assumes seen: "\<And>t. c2c_inv t \<Longrightarrow> at1 t = Spin1 i \<Longrightarrow> d16 t = i \<Longrightarrow> can_finish t"
    and "c2c_inv s" and "at1 s = Spin1 i"
  shows "can_finish s"
proof -
  have copy: "can_finish t" if "c2c_inv t" "at1 t = Spin1 i" "at2 t = Copy2 i" for t
    using that by (intro finish2 [of t] seen t2_inv) (simp_all add: t2_next_def)
  have load: "can_finish t" if "c2c_inv t" "at1 t = Spin1 i" "at2 t = Load2" for t
    using that by (intro finish2 [of t] copy t2_inv) (simp_all add: t2_next_def c2c_inv_def)
  have test: "can_finish t" if "c2c_inv t" "at1 t = Spin1 i" "at2 t = Test2 (before i)" for t
    using that by (intro finish2 [of t] load t2_inv) (simp_all add: t2_next_def)
  have copy': "can_finish t" if "c2c_inv t" "at1 t = Spin1 i" "at2 t = Copy2 (before i)" for t
    using that by (intro finish2 [of t] test t2_inv) (simp_all add: t2_next_def)
  show ?thesis
    using assms copy load test copy' by (auto simp: c2c_inv_def)
qed

lemma finish_count:
  "(c2c_inv s \<longrightarrow> at1 s = Spin1 i \<longrightarrow> can_finish s) \<and> (c2c_inv s \<longrightarrow> at1 s = Store1 i \<longrightarrow> can_finish s)"
proof (induction i arbitrary: s)
  case 0
  have spin: "can_finish t" if "c2c_inv t" "at1 t = Spin1 0" for t
  proof (rule finish_Spin1 [OF _ that])
    fix u assume "c2c_inv u" "at1 u = Spin1 0" "d16 u = 0"
    then show "can_finish u"
      by (intro finish1 [of u] finish_End1 t1_inv) (simp_all add: t1_next_def)
  qed
  then show ?case
    by (auto intro!: finish1 [of s] spin t1_inv simp: t1_next_def)
next
  case (Suc i)
  have spin: "can_finish t" if "c2c_inv t" "at1 t = Spin1 (Suc i)" for t
  proof (rule finish_Spin1 [OF _ that])
    fix u assume u: "c2c_inv u" "at1 u = Spin1 (Suc i)" "d16 u = Suc i"
    then have "at1 (t1_next u) = Store1 i" by (simp add: t1_next_def)
    with u(1) show "can_finish u" using Suc t1_inv finish1 by blast
  qed
  then show ?case
    by (auto intro!: finish1 [of s] spin t1_inv simp: t1_next_def)
qed

lemma finish_Bar1:
  assumes "c2c_inv s" and "at1 s = Bar1"
  shows "can_finish s"
proof -
  have bar: "can_finish t" if "c2c_inv t" "at1 t = Bar1" "atm t = MBar" for t
  proof -
    have "at2 t = Bar2" using that by (simp add: c2c_inv_def)
    then have "at1 (barrier_next t) = Store1 COUNT_DOWN" using that by (simp add: barrier_next_def)
    then show ?thesis
      using finish_count barrier_next_inv [OF that(1)] finish_bar by blast
  qed
  show ?thesis
  proof (cases "atm s = MBar")
    case False
    then have "atm s = MStart" using assms by (cases "atm s") (simp_all add: c2c_inv_def)
    then show ?thesis
      using assms by (intro finish_main [of s] bar main_inv) (simp_all add: main_next_def)
  qed (use assms bar in blast)
qed

lemma finish_inv:
  assumes "c2c_inv s" shows "can_finish s"
proof -
  have s16: "can_finish t" if "c2c_inv t" "at1 t = Start16" for t
    using that by (intro finish1 [of t] finish_Bar1 t1_inv) (simp_all add: t1_next_def)
  have s0: "can_finish t" if "c2c_inv t" "at1 t = Start0" for t
    using that by (intro finish1 [of t] s16 t1_inv) (simp_all add: t1_next_def)
  show ?thesis
    using assms s0 s16 finish_Bar1 finish_count finish_End1 by (cases "at1 s") blast+
qed

text \<open>Only the test of thread 1 itself ends its spin, and only on the value awaited.\<close>

lemma leaves_spin:
  assumes "c2c_inv s" and "c2c_step s t" and "at1 s = Spin1 i" and "at1 t \<noteq> Spin1 i"
  shows "d16 s = i \<and> trips t = Suc (trips s)"
  using assms(2)
proof cases
  case thread1
  with assms(3,4) show ?thesis by (auto simp: t1_next_def split: if_split_asm)
next
  case thread2
  with assms(3,4) show ?thesis by (auto simp: t2_next_def split: pc2.splits)
next
  case main_thread
  with assms(3,4) show ?thesis by (auto simp: main_next_def split: if_split_asm)
next
  case barrier
  with assms(3,4) show ?thesis by (auto simp: barrier_next_def split: if_split_asm)
qed

text \<open>
  C5: whatever the two cache lines held before, the values are handed over strictly in turn.
  In every state the interleaved threads can reach: thread 1 is about to store a value only
  when the one before it (1 before the first) has come back; while it waits for a value, that
  value is in the first cell, and the second holds it or the one before; every step that ends
  a wait finds the awaited value in the second cell. So thread 1 has left only after 1001
  values came back, thread 2 only after 0 was handed over, and both can always still
  finish: neither ever waits for a value that will not come.
\<close>

theorem c2c_handshake:
  assumes "reach c2c_init c2c_step s"
  shows "(at2 s = End2 \<longrightarrow> d0 s = 0 \<and> d16 s = 0) \<and>
    (at1 s = End1 \<longrightarrow> trips s = 1001 \<and> d16 s = 0) \<and>
    (\<forall>i. at1 s = Store1 i \<longrightarrow> trips s = 1000 - i \<and> d16 s = (if i = 1000 then 1 else i + 1)) \<and>
    (\<forall>i. at1 s = Spin1 i \<longrightarrow> trips s = 1000 - i \<and> d0 s = i \<and>
      d16 s \<in> {i, if i = 1000 then 1 else i + 1}) \<and>
    (\<forall>i t. at1 s = Spin1 i \<and> c2c_step s t \<and> at1 t \<noteq> Spin1 i \<longrightarrow>
      d16 s = i \<and> trips t = Suc (trips s)) \<and>
    (\<exists>t. c2c_step\<^sup>*\<^sup>* s t \<and> at1 t = End1 \<and> at2 t = End2)"
proof -
  have inv: "c2c_inv s" using assms by (rule c2c.reach_inv)
  then have fin: "\<exists>t. c2c_step\<^sup>*\<^sup>* s t \<and> at1 t = End1 \<and> at2 t = End2"
    using finish_inv unfolding can_finish_def both_done_def by blast
  have leave: "d16 s = i \<and> trips t = Suc (trips s)"
    if "at1 s = Spin1 i" and "c2c_step s t" and "at1 t \<noteq> Spin1 i" for i t
    using leaves_spin [OF inv that(2,1,3)] .
  have ends: "(at2 s = End2 \<longrightarrow> d0 s = 0 \<and> d16 s = 0) \<and> (at1 s = End1 \<longrightarrow> trips s = 1001 \<and> d16 s = 0)"
    using inv by (cases "at1 s") (auto simp: c2c_inv_def COUNT_DOWN_def)
  have stores: "trips s = 1000 - i \<and> d16 s = (if i = 1000 then 1 else i + 1)" if "at1 s = Store1 i" for i
    using inv that by (simp add: c2c_inv_def before_def COUNT_DOWN_def)
  have spins: "trips s = 1000 - i \<and> d0 s = i \<and> d16 s \<in> {i, if i = 1000 then 1 else i + 1}"
    if "at1 s = Spin1 i" for i
    using inv that by (auto simp: c2c_inv_def before_def COUNT_DOWN_def)
  show ?thesis
    using ends stores spins leave fin by blast
qed

theorem c2c_handshake_witness:
  "\<exists>t. c2c_step\<^sup>*\<^sup>*
    \<lparr>d0 = 1, d16 = 8, at1 = Start16, at2 = Bar2, atm = MStart, trips = 0\<rparr> t \<and>
    at1 t = End1 \<and> at2 t = End2"
proof -
  let ?s = "\<lparr>d0 = 7, d16 = 8, at1 = Start0, at2 = Bar2, atm = MStart, trips = 0\<rparr>"
  have "reach c2c_init c2c_step ?s" by (rule reach_init) (simp add: c2c_init_def)
  then have "reach c2c_init c2c_step (t1_next ?s)" by (rule reach_step) (rule thread1)
  from c2c_handshake [OF this] show ?thesis by (simp add: t1_next_def)
qed

end
