(* ===== verification/MbMain.thy ===== *)
theory MbMain
  imports MbThreads MbC2C
begin

text \<open>
  \<open>main\<close> of \<open>mb_enzian.c\<close>: the options, the mapping, and which tests are run with which
  parameters in which order. The calls of the tests appear in a trace; what each of them does
  is the subject of the other theories.
\<close>

section \<open>Options\<close>

record mb_opts =
  first_cpu :: u32
  last_cpu :: u32
  use_cpu_memory :: bool
  do_overall :: bool
  do_cache_to_cache :: bool
  do_latency :: bool
  do_seq_latency :: bool
  do_throughput :: bool
  do_stress :: nat

definition mb_defaults :: mb_opts where
  "mb_defaults = \<lparr>first_cpu = 0, last_cpu = 0, use_cpu_memory = False, do_overall = False,
     do_cache_to_cache = False, do_latency = False, do_seq_latency = False,
     do_throughput = False, do_stress = 0\<rparr>"

text \<open>One option as \<open>getopt\<close> returns it, with its argument.\<close>

definition opt_step :: "char \<times> string \<Rightarrow> mb_opts \<Rightarrow> mb_opts res" where
  "opt_step = (\<lambda>(opt, optarg) os.
     if opt = CHR ''h'' then Inr os
     else if opt = CHR ''b'' then Inr (os\<lparr>do_overall := True\<rparr>)
     else if opt = CHR ''f'' then Inr (os\<lparr>first_cpu := word_of_int (atoi optarg)\<rparr>)
     else if opt = CHR ''l'' then Inr (os\<lparr>last_cpu := word_of_int (atoi optarg)\<rparr>)
     else if opt = CHR ''s'' then Inr (os\<lparr>do_seq_latency := True\<rparr>)
     else if opt = CHR ''t'' then Inr (os\<lparr>do_latency := True\<rparr>)
     else if opt = CHR ''m'' then Inr (os\<lparr>do_throughput := True\<rparr>)
     else if opt = CHR ''c'' then Inr (os\<lparr>do_cache_to_cache := True\<rparr>)
     else if opt = CHR ''p'' then Inr (os\<lparr>use_cpu_memory := True\<rparr>)
     else if opt = CHR ''r'' then
       (case optarg of
          c # _ \<Rightarrow>
            Inr (if c = CHR ''w'' then os\<lparr>do_stress := 1\<rparr>
                 else if c = CHR ''c'' then os\<lparr>do_stress := 2\<rparr>
                 else if c = CHR ''r'' then os\<lparr>do_stress := 3\<rparr>
                 else if c = CHR ''l'' then os\<lparr>do_stress := 4\<rparr>
                 else os)
        | [] \<Rightarrow> Inr os)
     else Inl AssertFailed)"

definition parse_options :: "(char \<times> string) list \<Rightarrow> mb_opts res" where
  "parse_options opts = fold_res opt_step opts mb_defaults"

section \<open>The trace\<close>

datatype kind = Write | Clear | Read

datatype action =
    OpenDev string
  | MapFpga u64 u64
  | MapCpu u64
  | Touch nat
  | StartThreads u32 u32 kind nat nat
  | C2C int int
  | Bind u32
  | Latency nat
  | SeqLatency nat
  | Unmap u64

text \<open>
  How the program ends, if it does: by a return or an exit, with a fault, waiting for ever, or
  repeating some actions for ever.
\<close>

datatype ending = Return int | Exit int | Fault fault | Hang | Forever "action list"

type_synonym plan = "action list \<times> ending option"

text \<open>Plans in sequence: what follows an end is not reached.\<close>

fun in_order :: "plan list \<Rightarrow> plan" where
  "in_order [] = ([], None)"
| "in_order ((as, Some e) # ps) = (as, Some e)"
| "in_order ((as, None) # ps) = (let (bs, e) = in_order ps in (as @ bs, e))"

text \<open>
  What the program meets: the device, the two mappings, the CPUs on which a thread can be
  created (for the throughput tests and for the core-to-core test), the times its threads
  return, whether it can be bound to a CPU, and the number of processors.
\<close>

record mb_env =
  dev_open :: int
  fpga_map :: "u64 option"
  cpu_map :: "u64 option"
  thread_created :: "kind \<Rightarrow> nat \<Rightarrow> u64 \<Rightarrow> bool"
  thread_ret :: "kind \<Rightarrow> nat \<Rightarrow> u64 \<Rightarrow> u64"
  c2c_created :: "int \<Rightarrow> bool"
  bind_ok :: "u32 \<Rightarrow> bool"
  nprocs :: u64

definition SIZE :: u64 where
  "SIZE = push_bit 26 1"

definition act :: "action \<Rightarrow> plan" where
  "act a = ([a], None)"

definition stop_if :: "bool \<Rightarrow> ending \<Rightarrow> plan" where
  "stop_if b e = ([], if b then Some e else None)"

definition run_threads :: "mb_env \<Rightarrow> mb_opts \<Rightarrow> kind \<Rightarrow> nat \<Rightarrow> nat \<Rightarrow> plan" where
  "run_threads env os k sz itn =
     ([StartThreads (first_cpu os) (last_cpu os) k sz itn],
      case start_threads (ucast (first_cpu os)) (ucast (last_cpu os)) (thread_created env k sz)
          (thread_ret env k sz) of
        None \<Rightarrow> Some Hang
      | Some (Inl f) \<Rightarrow> Some (Fault f)
      | Some (Inr _) \<Rightarrow> None)"

definition three_kinds :: "mb_env \<Rightarrow> mb_opts \<Rightarrow> nat \<Rightarrow> nat \<Rightarrow> plan list" where
  "three_kinds env os sz itn = map (\<lambda>k. run_threads env os k sz itn) [Write, Clear, Read]"

text \<open>
  The core-to-core test: its barrier counts the threads it means to have, so that one that is
  not created leaves the rest waiting.
\<close>

definition c2c_test :: "mb_env \<Rightarrow> mb_opts \<Rightarrow> plan" where
  "c2c_test env os =
     (let cpu1 = sint (first_cpu os); cpu2 = (if use_cpu_memory os then sint (last_cpu os) else -1)
      in ([C2C cpu1 cpu2],
          if c2c_created env cpu1 \<and> (cpu2 \<noteq> -1 \<longrightarrow> c2c_created env cpu2) then None else Some Hang))"

definition bind_first :: "mb_env \<Rightarrow> mb_opts \<Rightarrow> plan list" where
  "bind_first env os =
     [act (Bind (first_cpu os)), stop_if (\<not> bind_ok env (first_cpu os)) (Fault AssertFailed)]"

section \<open>The parts of main\<close>

definition map_area :: "mb_env \<Rightarrow> mb_opts \<Rightarrow> plan list" where
  "map_area env os =
     (if \<not> use_cpu_memory os then
        [act (OpenDev ''/dev/fpgamem''), stop_if (dev_open env < 0) (Fault AssertFailed),
         act (MapFpga 0x100000000000 0x10000000000), stop_if (fpga_map env = None) (Fault AssertFailed)]
      else
        [act (MapCpu (SIZE * 48)), stop_if (cpu_map env = None) (Exit 1)])"

definition touch_area :: "plan list" where
  "touch_area = [act (Touch 0), act (Touch 0x40000000), act (Touch 0x80000000)]"

text \<open>The overall test sets the CPU range for itself and for all that follows.\<close>

definition overall :: "mb_env \<Rightarrow> mb_opts \<Rightarrow> mb_opts \<times> plan list" where
  "overall env os =
     (if do_overall os then
        (let os = os\<lparr>first_cpu := 0, last_cpu := 1\<rparr>
         in (os, three_kinds env os (2 ^ 25) 1 @ [c2c_test env os] @ bind_first env os @ [act (SeqLatency 26)]))
      else (os, []))"

definition throughput_itn :: "nat \<Rightarrow> nat" where
  "throughput_itn i = (if 22 < i then 1 else 2 ^ (22 - i))"

definition throughput :: "mb_env \<Rightarrow> mb_opts \<Rightarrow> plan list" where
  "throughput env os =
     (if do_throughput os
      then concat (map (\<lambda>i. three_kinds env os (2 ^ i) (throughput_itn i)) [14..<26])
      else [])"

text \<open>The stress loop: a round that ends is repeated for ever.\<close>

definition stress_round :: "mb_env \<Rightarrow> mb_opts \<Rightarrow> plan list" where
  "stress_round env os =
     (if do_stress os = 1 then [run_threads env os Write (2 ^ 25) 100]
      else if do_stress os = 2 then [run_threads env os Clear (2 ^ 25) 100]
      else if do_stress os = 3 then [run_threads env os Read (2 ^ 25) 100]
      else bind_first env os @ [([], Some (Forever [SeqLatency 0]))])"

definition stress :: "mb_env \<Rightarrow> mb_opts \<Rightarrow> plan list" where
  "stress env os =
     (if do_stress os \<noteq> 0 then
        (case in_order (stress_round env os) of
           (as, Some e) \<Rightarrow> [(as, Some e)]
         | (as, None) \<Rightarrow> [([], Some (Forever as))])
      else [])"

definition single_tests :: "mb_env \<Rightarrow> mb_opts \<Rightarrow> plan list" where
  "single_tests env os =
     (if do_cache_to_cache os then [c2c_test env os] else []) @
     (if do_latency os then bind_first env os @ map (\<lambda>i. act (Latency i)) [14..<27] else []) @
     (if do_seq_latency os then bind_first env os @ map (\<lambda>i. act (SeqLatency i)) [14..<27] else [])"

definition mb_tests :: "mb_env \<Rightarrow> mb_opts \<Rightarrow> plan list" where
  "mb_tests env os =
     (let (os', ps) = overall env os
      in ps @ throughput env os' @ stress env os' @ single_tests env os')"

definition mb_main :: "mb_env \<Rightarrow> (char \<times> string) list \<Rightarrow> plan" where
  "mb_main env opts =
     (case parse_options opts of
        Inl f \<Rightarrow> ([], Some (Fault f))
      | Inr os \<Rightarrow>
          if last_cpu os - first_cpu os + 1 = 0 then ([], Some (Fault DivByZero))
          else in_order (map_area env os @ touch_area @ mb_tests env os @
                 [act (Unmap (SIZE * nprocs env)), ([], Some (Return 0))]))"

section \<open>What the tests may touch\<close>

text \<open>The actions of a plan, those repeated for ever included.\<close>

definition actions :: "plan \<Rightarrow> action set" where
  "actions p = set (fst p) \<union> (case snd p of Some (Forever as) \<Rightarrow> set as | _ \<Rightarrow> {})"

text \<open>What a test needs of its sizes, and how much is moved per measurement.\<close>

definition sized :: "action \<Rightarrow> bool" where
  "sized a \<longleftrightarrow> (case a of
     StartThreads f l k sz itn \<Rightarrow> 128 dvd sz \<and> sz \<le> 2 ^ 25 \<and> 0 < itn \<and> 2 ^ 22 \<le> itn * sz
   | Latency n \<Rightarrow> 14 \<le> n \<and> n \<le> 26
   | SeqLatency n \<Rightarrow> n = 0 \<or> 14 \<le> n \<and> n \<le> 26
   | _ \<Rightarrow> True)"

text \<open>A range of CPUs for which the table of thread identifiers has room.\<close>

definition in_table :: "action \<Rightarrow> bool" where
  "in_table a \<longleftrightarrow> (case a of StartThreads f l k sz itn \<Rightarrow> f \<le> l \<and> l < 128 | _ \<Rightarrow> True)"

text \<open>
  The bytes an action may touch, as an upper bound counted from the start of the area: up to the
  end of the part of the last CPU; up to word 16 behind the first cell of the core-to-core
  test; all lines of a latency test. Threads outside the table touch nothing: the call
  faults, or none of them passes the first barrier.
\<close>

definition extent :: "action \<Rightarrow> nat" where
  "extent a = (case a of
     StartThreads f l k sz itn \<Rightarrow> if in_table a then Suc (unat l) * sz else 0
   | C2C cpu1 cpu2 \<Rightarrow> unat (fst (do_c2c_test 0 cpu1 cpu2)) + 16 * 8 + 8
   | Latency n \<Rightarrow> 128 * unat (lat_lines n)
   | SeqLatency n \<Rightarrow> 128 * unat (seq_lines n)
   | Touch i \<Rightarrow> i + 1
   | _ \<Rightarrow> 0)"

text \<open>That is where the workers stay: the part of each CPU of the range ends at or before it.\<close>

lemma extent_threads:
  assumes "128 dvd sz" and "0 < itn" and "in_table (StartThreads f l k sz itn)" and "i \<le> unat l"
    and "w \<in> {thread_write_cache_area area sz itn ts, thread_clear_cache_area area sz itn ts,
              thread_read_cache_area l2 area sz itn ts}"
  shows "footprint (fst (w i)) \<subseteq> {area..<area + extent (StartThreads f l k sz itn)}"
proof -
  have "Suc i * sz \<le> Suc (unat l) * sz"
    using assms(4) by (intro mult_le_mono1) simp
  then show ?thesis
    using assms(3) own_footprint [OF assms(1,2,5)] by (auto simp: extent_def)
qed

definition area_bytes :: "mb_opts \<Rightarrow> nat" where
  "area_bytes os = (if use_cpu_memory os then unat (SIZE * 48) else 0x10000000000)"

text \<open>
  The one case in which the area may be too small: the CPU mapping has room for the parts of
  CPUs 0 to 95 (and with a last CPU of -1 the core-to-core test uses the FPGA's offset on it).
\<close>

definition within_area :: "mb_opts \<Rightarrow> action \<Rightarrow> bool" where
  "within_area os a \<longleftrightarrow> extent a \<le> area_bytes os \<or> use_cpu_memory os \<and> 96 \<le> last_cpu os"




text \<open>The properties of one action of a run with options \<open>os\<close>.\<close>

definition action_ok :: "mb_opts \<Rightarrow> action \<Rightarrow> bool" where
  "action_ok os a \<longleftrightarrow> sized a \<and> within_area os a"





definition plans_ok :: "mb_opts \<Rightarrow> plan list \<Rightarrow> bool" where
  "plans_ok os ps \<longleftrightarrow> (\<forall>p \<in> set ps. \<forall>a \<in> actions p. action_ok os a)"

lemma plans_ok_append [simp]: "plans_ok os (ps @ qs) \<longleftrightarrow> plans_ok os ps \<and> plans_ok os qs"
  by (auto simp: plans_ok_def)


lemma plans_ok_Cons [simp]: "plans_ok os (p # ps) \<longleftrightarrow> (\<forall>a \<in> actions p. action_ok os a) \<and> plans_ok os ps"
  by (simp add: plans_ok_def)

lemma actions_act [simp]: "actions (act a) = {a}"
  by (simp add: actions_def act_def)

lemma actions_stop_if [simp]: "(\<forall>as. e \<noteq> Forever as) \<Longrightarrow> actions (stop_if b e) = {}"
  by (auto simp: actions_def stop_if_def split: ending.split)





























lemma list_all_concat: "(\<And>x. list_all P (f x)) \<Longrightarrow> list_all P (concat (map f xs))"
  by (induction xs) simp_all

lemma list_all_acts: "(\<And>x. P (f x)) \<Longrightarrow> list_all P (map f xs)"
  by (induction xs) simp_all



text \<open>
  When the first CPU given is one above the last one, as for \<open>-f 1\<close> without \<open>-l\<close>, the program
  divides by zero for the cache size per thread, before it has opened or mapped anything.
\<close>

lemma main_division_by_zero:
  assumes "parse_options opts = Inr os" and "first_cpu os = last_cpu os + 1"
  shows "mb_main env opts = ([], Some (Fault DivByZero))"
  using assms by (simp add: mb_main_def)

definition sample_mb_env :: mb_env where
  "sample_mb_env = \<lparr>dev_open = 3, fpga_map = Some 0x100000000000, cpu_map = None,
     thread_created = (\<lambda>_ _ i. i < 48), thread_ret = (\<lambda>_ _ i. i), c2c_created = (\<lambda>i. 0 \<le> i \<and> i < 48),
     bind_ok = (\<lambda>_. True), nprocs = 48\<rparr>"

text \<open>
  The exception is a real one: with 32 MiB per thread, CPU 96 works behind the 3 GiB.
\<close>

lemma cpu_memory_too_small:
  assumes "f \<le> l" and "96 \<le> l" and "l < 128"
  shows "3 * 2 ^ 30 < extent (StartThreads f l k (2 ^ 25) itn)"
proof -
  have "96 \<le> unat l" using assms(2) by (simp add: word_le_nat_alt)
  then show ?thesis using assms(1,3) by (simp add: extent_def in_table_def)
qed

section \<open>What a run that returns has done\<close>

lemma in_order_append:
  "in_order (ps @ qs) = (case in_order ps of
     (as, Some e) \<Rightarrow> (as, Some e)
   | (as, None) \<Rightarrow> (as @ fst (in_order qs), snd (in_order qs)))"
  by (induction ps rule: in_order.induct) (auto split: prod.splits option.splits)

lemma in_order_None: "in_order ps = (as, None) \<Longrightarrow> (\<forall>p \<in> set ps. snd p = None) \<and> as = concat (map fst ps)"
  by (induction ps arbitrary: as rule: in_order.induct) (auto split: prod.splits)

lemma in_order_Some: "in_order ps = (as, Some e) \<Longrightarrow> \<exists>p \<in> set ps. snd p = Some e"
  by (induction ps arbitrary: as rule: in_order.induct) (auto split: prod.splits)

text \<open>
  A part of the program: it does not return from \<open>main\<close>, and if the program goes on behind it
  the threads it started were in the table.
\<close>

definition part_ok :: "plan \<Rightarrow> bool" where
  "part_ok p \<longleftrightarrow> (\<forall>n. snd p \<noteq> Some (Return n)) \<and>
     (snd p = None \<longrightarrow> (\<forall>f l k sz itn. StartThreads f l k sz itn \<in> set (fst p) \<longrightarrow> f \<le> l \<and> l < 128))"

lemma part_ok_run_threads: "part_ok (run_threads env os k sz itn)"
  by (auto simp: part_ok_def run_threads_def dest: start_threads_returns
      split: option.splits sum.splits)

lemma part_ok_other:
  "(\<forall>f l k sz itn. a \<noteq> StartThreads f l k sz itn) \<Longrightarrow> part_ok (act a)"
  "(\<forall>n. e \<noteq> Return n) \<Longrightarrow> part_ok (stop_if b e)"
  by (auto simp: part_ok_def act_def stop_if_def)

lemma parts_ok:
  "list_all part_ok (bind_first env os)" "list_all part_ok (three_kinds env os sz itn)"
  "list_all part_ok (map_area env os)" "list_all part_ok touch_area" "part_ok (c2c_test env os)"
  by (simp_all add: bind_first_def three_kinds_def map_area_def touch_area_def
      part_ok_other part_ok_run_threads) (simp add: c2c_test_def part_ok_def Let_def)

lemma stress_ends:
  assumes "do_stress os \<noteq> 0"
  obtains as e where "stress env os = [(as, Some e)]" and "\<forall>n. e \<noteq> Return n"
proof (cases "in_order (stress_round env os)")
  case (Pair as e)
  show thesis
  proof (cases e)
    case None
    then show thesis using assms Pair that by (simp add: stress_def)
  next
    case (Some x)
    from in_order_Some [OF Pair [unfolded Some]] have "\<forall>n. x \<noteq> Return n"
      by (auto simp: stress_round_def run_threads_def bind_first_def act_def stop_if_def
          split: option.splits sum.splits if_splits)
    then show thesis using assms Pair Some that by (simp add: stress_def)
  qed
qed

lemma parts_ok_stress: "list_all part_ok (stress env os)"
proof (cases "do_stress os = 0")
  case False
  obtain as e where "stress env os = [(as, Some e)]" "\<forall>n. e \<noteq> Return n"
    by (rule stress_ends [OF False])
  then show ?thesis by (simp add: part_ok_def)
qed (simp add: stress_def)

lemma parts_ok_tests: "list_all part_ok (mb_tests env os)"
proof -
  have "list_all part_ok (snd (overall env os))"
    by (simp add: overall_def Let_def parts_ok part_ok_other)
  moreover have "list_all part_ok (throughput env os)" for os
    by (simp add: throughput_def parts_ok list_all_concat)
  moreover have "list_all part_ok (single_tests env os)" for os
    by (simp add: single_tests_def parts_ok part_ok_other list_all_acts)
  ultimately show ?thesis
    by (simp add: mb_tests_def parts_ok_stress split: prod.split) (metis snd_conv)
qed

text \<open>
  C19: a run that returns 0 has got its mapping, was not asked for a stress test (that one never
  returns), has started threads only on ranges of CPUs that are not empty and fit the table of
  128 thread identifiers, and has unmapped as its last action.
\<close>

theorem main_returns:
  assumes "mb_main env opts = (as, Some (Return 0))"
  shows "\<exists>os bs. parse_options opts = Inr os \<and> do_stress os = 0 \<and>
    (if use_cpu_memory os then cpu_map env \<noteq> None else 0 \<le> dev_open env \<and> fpga_map env \<noteq> None) \<and>
    (\<forall>f l k sz itn. StartThreads f l k sz itn \<in> set as \<longrightarrow> f \<le> l \<and> l < 128) \<and>
    as = bs @ [Unmap (SIZE * nprocs env)]"
proof -
  obtain os where os: "parse_options opts = Inr os"
    and run: "in_order ((map_area env os @ touch_area @ mb_tests env os) @
      [act (Unmap (SIZE * nprocs env)), ([], Some (Return 0))]) = (as, Some (Return 0))"
    using assms by (auto simp: mb_main_def split: sum.splits if_splits)
  let ?ps = "map_area env os @ touch_area @ mb_tests env os"
  obtain bs e where b: "in_order ?ps = (bs, e)" by fastforce
  have ok: "part_ok p" if "p \<in> set ?ps" for p
  proof -
    have "list_all part_ok ?ps" by (simp add: parts_ok parts_ok_tests)
    then show ?thesis using that unfolding list_all_iff by blast
  qed
  have e: "e = None"
  proof (cases e)
    case (Some x)
    then have "x = Return 0" using run unfolding in_order_append [of ?ps] b by simp
    with in_order_Some [OF b [unfolded Some]] ok show ?thesis unfolding part_ok_def by metis
  qed
  have as: "as = bs @ [Unmap (SIZE * nprocs env)]"
    using run unfolding in_order_append [of ?ps] b e by (simp add: act_def)
  note none = in_order_None [OF b [unfolded e], THEN conjunct1]
  have "f \<le> l \<and> l < 128" if a: "StartThreads f l k sz itn \<in> set as" for f l k sz itn
  proof -
    have "StartThreads f l k sz itn \<in> set bs" using a as by simp
    then have "StartThreads f l k sz itn \<in> set (concat (map fst ?ps))"
      using in_order_None [OF b [unfolded e], THEN conjunct2] by (simp only:)
    then obtain p where "p \<in> set ?ps" "StartThreads f l k sz itn \<in> set (fst p)"
      unfolding set_concat set_map by blast
    with ok none show ?thesis unfolding part_ok_def by blast
  qed
  moreover have "list_all (\<lambda>p. snd p = None) ?ps" using none unfolding list_all_iff .
  then have "if use_cpu_memory os then cpu_map env \<noteq> None else 0 \<le> dev_open env \<and> fpga_map env \<noteq> None"
    by (auto simp: map_area_def stop_if_def act_def split: if_splits)
  moreover have "do_stress os = 0"
  proof (rule ccontr)
    obtain os' qs where o: "overall env os = (os', qs)" by fastforce
    assume "do_stress os \<noteq> 0"
    then have "do_stress os' \<noteq> 0" using o by (auto simp: overall_def Let_def split: if_splits)
    then obtain xs x where "stress env os' = [(xs, Some x)]" using stress_ends by metis
    then show False using \<open>list_all (\<lambda>p. snd p = None) ?ps\<close> by (simp add: mb_tests_def o)
  qed
  ultimately show ?thesis using os as by blast
qed


theorem main_returns_witness:
  "\<exists>as. mb_main sample_mb_env [(CHR ''c'', [])] = (as, Some (Return 0)) \<and>
    last as = Unmap (SIZE * 48)"
proof -
  have run: "mb_main sample_mb_env [(CHR ''c'', [])] =
      ([OpenDev ''/dev/fpgamem'', MapFpga 0x100000000000 0x10000000000, Touch 0, Touch 0x40000000,
        Touch 0x80000000, C2C 0 (-1), Unmap (SIZE * 48)], Some (Return 0))"
    by (simp add: mb_main_def parse_options_def opt_step_def mb_defaults_def map_area_def
        sample_mb_env_def act_def stop_if_def touch_area_def mb_tests_def overall_def
        throughput_def stress_def single_tests_def c2c_test_def)
  from main_returns [OF this] show ?thesis
    unfolding run by (auto simp: sample_mb_env_def)
qed



end
