(* ===== verification/Arena.thy ===== *)
theory Arena
  imports CLib
begin

text \<open>
  The FPGA memory arena of \<open>redis_fpga.c\<close>: mapping the device, the bump allocator on the
  mapping with its fallback to the heap, and reading a file into a block of it.
\<close>

section \<open>The contract of a bump allocator\<close>

fun alloc_all :: "('st \<Rightarrow> 'n \<Rightarrow> ('p \<times> 'st) res) \<Rightarrow> 'st \<Rightarrow> 'n list \<Rightarrow> ('p list \<times> 'st) res" where
  "alloc_all f st [] = Inr ([], st)"
| "alloc_all f st (n # ns) =
     rbind (f st n) (\<lambda>(p, st). rbind (alloc_all f st ns) (\<lambda>(ps, st). Inr (p # ps, st)))"

text \<open>
  Every successful request takes its block from between the low-water mark and the end of
  the region, and moves the mark past it.
\<close>

locale region_allocator =
  fixes alloc :: "'st \<Rightarrow> 'n \<Rightarrow> ('p \<times> 'st) res"
    and ok :: "'st \<Rightarrow> bool"
    and admissible :: "'n \<Rightarrow> bool"
    and addr :: "'p \<Rightarrow> nat"
    and size_of :: "'n \<Rightarrow> nat"
    and low :: "'st \<Rightarrow> nat"
    and high :: "'st \<Rightarrow> nat"
  assumes alloc_ok: "ok st \<Longrightarrow> admissible n \<Longrightarrow> alloc st n = Inr (p, st') \<Longrightarrow> ok st'"
    and alloc_low: "ok st \<Longrightarrow> admissible n \<Longrightarrow> alloc st n = Inr (p, st') \<Longrightarrow> low st \<le> addr p"
    and alloc_next: "ok st \<Longrightarrow> admissible n \<Longrightarrow> alloc st n = Inr (p, st') \<Longrightarrow>
      addr p + size_of n \<le> low st'"
    and alloc_high: "ok st \<Longrightarrow> admissible n \<Longrightarrow> alloc st n = Inr (p, st') \<Longrightarrow> high st' = high st"
    and low_high: "ok st \<Longrightarrow> low st \<le> high st"
begin

text \<open>A sequence of allocations yields blocks in address order that never overlap.\<close>

lemma alloc_all_blocks:
  assumes "ok st" and "\<forall>n \<in> set ns. admissible n" and "alloc_all alloc st ns = Inr (ps, st')"
  shows "ok st' \<and> length ps = length ns \<and> low st \<le> low st' \<and> high st' = high st \<and>
    (\<forall>(p, n) \<in> set (zip ps ns). low st \<le> addr p \<and> addr p + size_of n \<le> low st') \<and>
    sorted_wrt (\<lambda>(p, n) (q, m). addr p + size_of n \<le> addr q) (zip ps ns)"
  using assms
proof (induction ns arbitrary: st ps)
  case Nil
  then show ?case by simp
next
  case (Cons n ns)
  then obtain p st1 qs where step: "alloc st n = Inr (p, st1)"
    and rest: "alloc_all alloc st1 ns = Inr (qs, st')" and ps: "ps = p # qs"
    by (auto simp: rbind_eq_Inr split: prod.splits)
  have n: "admissible n" using Cons.prems(2) by simp
  note laws = alloc_ok [OF Cons.prems(1) n step] alloc_low [OF Cons.prems(1) n step]
    alloc_next [OF Cons.prems(1) n step] alloc_high [OF Cons.prems(1) n step]
  have "\<forall>n \<in> set ns. admissible n" using Cons.prems(2) by simp
  note IH = Cons.IH [OF laws(1) this rest]
  have "addr p + size_of n \<le> addr q" and "low st \<le> addr q" if "(q, m) \<in> set (zip qs ns)" for q m
    using that IH laws(2,3) by fastforce+
  with IH laws show ?case by (auto simp: ps)
qed

end

section \<open>The arena\<close>

text \<open>The three globals, 0 standing for \<open>NULL\<close>, and the C heap behind \<open>malloc\<close>.\<close>

record 'h arena =
  gArenaBase :: u64
  gArenaCur :: u64
  gArenaEnd :: u64
  heap :: 'h

definition ALIGN :: u64 where
  "ALIGN = 64"

definition align_up :: "u64 \<Rightarrow> u64" where
  "align_up cur = (cur + (ALIGN - 1)) AND NOT (ALIGN - 1)"

text \<open>\<open>mal\<close> is \<open>malloc\<close>: 0 where it fails.\<close>

definition fpga_alloc ::
  "('h \<Rightarrow> u64 \<Rightarrow> u64 \<times> 'h) \<Rightarrow> 'h arena \<Rightarrow> u64 \<Rightarrow> (u64 \<times> 'h arena) res" where
  "fpga_alloc mal st n =
     (if gArenaBase st = 0 then
        (let (p, h) = mal (heap st) n
         in if p = 0 then Inl (ExitWith 1) else Inr (p, st\<lparr>heap := h\<rparr>))
      else
        (let cur = gArenaCur st;
             aligned = align_up cur
         in if gArenaEnd st < aligned + n then Inl (ExitWith 1)
            else Inr (aligned, st\<lparr>gArenaCur := aligned + n\<rparr>)))"

text \<open>
  The mapping's set-up touches one byte every 4 MB. \<open>i\<close> runs over byte offsets; the mapping
  is far below \<open>2 ^ 64\<close>, so that the counter of type \<open>size_t\<close> does not wrap.
\<close>

function touch_loop :: "nat \<Rightarrow> nat \<Rightarrow> nat list" where
  "touch_loop i n = (if i < n then i # touch_loop (i + 4096 * 1024) n else [])"
  by pat_completeness auto
termination
  by (relation "measure (\<lambda>(i, n). n - i)") auto

declare touch_loop.simps [simp del]

text \<open>
  \<open>SetupEnzianMemoryMapping\<close>: \<open>fd\<close> is what \<open>open\<close> returned, \<open>addr\<close> what \<open>mmap\<close> returned
  (\<open>None\<close> for \<open>MAP_FAILED\<close>). The result is the new state and the addresses written.
\<close>

definition SetupEnzianMemoryMapping ::
  "int \<Rightarrow> u64 option \<Rightarrow> u64 \<Rightarrow> 'h arena \<Rightarrow> 'h arena \<times> u64 list" where
  "SetupEnzianMemoryMapping fd addr mapBytes st =
     (if fd < 0 then (st, [])
      else case addr of
        None \<Rightarrow> (st, [])
      | Some a \<Rightarrow>
          (st\<lparr>gArenaBase := a, gArenaCur := a, gArenaEnd := a + mapBytes\<rparr>,
           map (\<lambda>i. a + of_nat i) (touch_loop 0 (unat mapBytes))))"

text \<open>The size \<open>main\<close> asks for: \<open>mapGb\<close> gigabytes.\<close>

definition map_bytes :: "int \<Rightarrow> u64" where
  "map_bytes mapGb = word_of_int mapGb * 1024 * 1024 * 1024"

section \<open>The allocator on a mapped arena\<close>

text \<open>
  A mapped arena in user space: the marks are in order and the end is a user address, below
  \<open>2 ^ 63\<close>.
\<close>

definition arena_ok :: "'h arena \<Rightarrow> bool" where
  "arena_ok st \<longleftrightarrow> gArenaBase st \<noteq> 0 \<and> unat (gArenaBase st) \<le> unat (gArenaCur st) \<and>
     unat (gArenaCur st) \<le> unat (gArenaEnd st) \<and> unat (gArenaEnd st) < 2 ^ 63"

lemma and_not_63: "x AND - 64 = push_bit 6 (drop_bit 6 (x :: u64))"
proof -
  have "x AND NOT (mask 6) = push_bit 6 (drop_bit 6 x)"
    by (auto intro!: bit_word_eqI simp: bit_simps)
  then show ?thesis by (simp add: mask_eq_exp_minus_1)
qed

lemma round_down_le: "64 * ((m + 63) div 64) \<le> m + (63 :: nat)"
  by simp

lemma round_up_ge: "(m :: nat) \<le> 64 * ((m + 63) div 64)"
  using mult_div_mod_eq [of 64 "m + 63"] mod_less_divisor [of 64 "m + 63"] by linarith

lemma round_up_less: "64 * (((m :: nat) + 63) div 64) < m + 64"
  using round_down_le [of m] by linarith

lemma unat_align_up:
  assumes "unat cur < 2 ^ 63"
  shows "unat (align_up cur) = 64 * ((unat cur + 63) div 64)"
proof -
  have "unat (cur + 63) = unat cur + 63"
    using assms by (simp add: unat_word_ariths)
  moreover have "64 * ((unat cur + 63) div 64) < 2 ^ 64"
    using assms round_down_le [of "unat cur"] by simp
  ultimately show ?thesis
    by (simp add: align_up_def ALIGN_def and_not_63 push_bit_eq_mult drop_bit_eq_div
        unat_word_ariths(2) unat_div mult.commute)
qed

lemma align_up_bounds:
  assumes "unat cur < 2 ^ 63"
  shows "unat cur \<le> unat (align_up cur)" and "unat (align_up cur) < unat cur + 64"
    and "64 dvd unat (align_up cur)"
  unfolding unat_align_up [OF assms] by (rule round_up_ge, rule round_up_less, simp)

lemma fpga_alloc_arena:
  assumes "arena_ok st" and "unat n < 2 ^ 62"
  shows "fpga_alloc mal st n =
    (if unat (align_up (gArenaCur st)) + unat n \<le> unat (gArenaEnd st)
     then Inr (align_up (gArenaCur st), st\<lparr>gArenaCur := align_up (gArenaCur st) + n\<rparr>)
     else Inl (ExitWith 1))"
proof -
  have cur: "unat (gArenaCur st) < 2 ^ 63" and base: "gArenaBase st \<noteq> 0"
    using assms(1) by (auto simp: arena_ok_def)
  have "unat (align_up (gArenaCur st) + n) = unat (align_up (gArenaCur st)) + unat n"
    using align_up_bounds(2) [OF cur] cur assms(2) by (simp add: unat_word_ariths)
  then show ?thesis
    using base by (simp add: fpga_alloc_def Let_def word_less_nat_alt)
qed

lemma fpga_alloc_Inr:
  assumes "arena_ok st" and "unat n < 2 ^ 62" and "fpga_alloc mal st n = Inr (p, st')"
  shows "p = align_up (gArenaCur st)" and "unat p + unat n \<le> unat (gArenaEnd st)"
    and "st' = st\<lparr>gArenaCur := p + n\<rparr>" and "unat (p + n) = unat p + unat n"
    and "unat (gArenaCur st) \<le> unat p" and "64 dvd unat p"
proof -
  have cur: "unat (gArenaCur st) < 2 ^ 63" and "unat (gArenaEnd st) < 2 ^ 63"
    using assms(1) by (auto simp: arena_ok_def)
  then show p: "p = align_up (gArenaCur st)" and le: "unat p + unat n \<le> unat (gArenaEnd st)"
    and "st' = st\<lparr>gArenaCur := p + n\<rparr>"
    using assms(3) by (auto simp: fpga_alloc_arena [OF assms(1,2)] split: if_splits)
  show "unat (p + n) = unat p + unat n"
    using le \<open>unat (gArenaEnd st) < 2 ^ 63\<close> by (simp add: unat_word_ariths)
  show "unat (gArenaCur st) \<le> unat p" and "64 dvd unat p"
    using align_up_bounds [OF cur] by (simp_all add: p)
qed

interpretation bump: region_allocator "fpga_alloc mal" arena_ok "\<lambda>n. unat n < 2 ^ 62" unat unat
  "\<lambda>st. unat (gArenaCur st)" "\<lambda>st. unat (gArenaEnd st)" for mal
proof
  fix st st' :: "'a arena" and n p
  assume ok: "arena_ok st"
  then show "unat (gArenaCur st) \<le> unat (gArenaEnd st)" by (simp add: arena_ok_def)
  assume "unat n < 2 ^ 62" and "fpga_alloc mal st n = Inr (p, st')"
  note facts = fpga_alloc_Inr [OF ok this]
  show "unat (gArenaCur st) \<le> unat p" by (rule facts(5))
  show "unat p + unat n \<le> unat (gArenaCur st')" by (simp add: facts(3,4))
  show "unat (gArenaEnd st') = unat (gArenaEnd st)" by (simp add: facts(3))
  show "arena_ok st'"
    using ok facts(2,4,5) by (simp add: arena_ok_def facts(3))
qed

text \<open>
  C7: on a mapped arena any sequence of requests below \<open>2 ^ 62\<close> bytes each that succeeds
  returns blocks that lie inside the mapping above the previous mark, follow one another in
  address order without overlap, and leave a well-formed arena with the same end. The bound on
  the requests is needed, see \<open>fpga_alloc_size_wraps\<close> below: the space test wraps beyond it.
\<close>

theorem arena_blocks_disjoint:
  assumes "arena_ok st" and "\<forall>n \<in> set ns. unat n < 2 ^ 62"
    and "alloc_all (fpga_alloc mal) st ns = Inr (ps, st')"
  shows "arena_ok st' \<and> length ps = length ns \<and> unat (gArenaEnd st') = unat (gArenaEnd st) \<and>
    (\<forall>(p, n) \<in> set (zip ps ns).
       unat (gArenaCur st) \<le> unat p \<and> unat p + unat n \<le> unat (gArenaEnd st)) \<and>
    sorted_wrt (\<lambda>(p, n) (q, m). unat p + unat n \<le> unat q) (zip ps ns)"
proof -
  note blocks = bump.alloc_all_blocks [OF assms]
  moreover have "unat (gArenaCur st') \<le> unat (gArenaEnd st')"
    using blocks bump.low_high by blast
  ultimately show ?thesis by fastforce
qed

text \<open>
  C20: what the allocator answers to every request on a mapped arena: the next multiple of 64,
  fewer than 64 bytes past the mark, if the end of the block, computed modulo \<open>2 ^ 64\<close>, does
  not exceed the end of the arena, and an exit with status 1 otherwise. For requests below
  \<open>2 ^ 62\<close> bytes nothing wraps: they succeed exactly when the block fits.
\<close>

theorem fpga_alloc_exact:
  assumes "arena_ok st"
  shows "\<exists>a. 64 dvd unat a \<and> unat (gArenaCur st) \<le> unat a \<and> unat a < unat (gArenaCur st) + 64 \<and>
    fpga_alloc mal st n =
      (if (unat a + unat n) mod 2 ^ 64 \<le> unat (gArenaEnd st) then Inr (a, st\<lparr>gArenaCur := a + n\<rparr>)
       else Inl (ExitWith 1)) \<and>
    (unat n < 2 ^ 62 \<longrightarrow> (unat a + unat n) mod 2 ^ 64 = unat a + unat n)"
proof -
  have cur: "unat (gArenaCur st) < 2 ^ 63" and base: "gArenaBase st \<noteq> 0"
    using assms by (auto simp: arena_ok_def)
  have "(unat (align_up (gArenaCur st)) + unat n) mod 2 ^ 64 = unat (align_up (gArenaCur st)) + unat n"
    if "unat n < 2 ^ 62"
    using align_up_bounds(2) [OF cur] cur that by simp
  then show ?thesis
    using align_up_bounds [OF cur] base
    by (intro exI [of _ "align_up (gArenaCur st)"])
      (simp add: fpga_alloc_def Let_def word_less_nat_alt unat_word_ariths)
qed

definition sample_arena :: "unit arena" where
  "sample_arena = \<lparr>gArenaBase = 0x10000000, gArenaCur = 0x10000400, gArenaEnd = 0x10001000, heap = ()\<rparr>"

lemma align_up_aligned:
  assumes "unat x < 2 ^ 63" and "64 dvd unat x"
  shows "align_up x = x"
proof -
  obtain k where k: "unat x = 64 * k" using assms(2) by (elim dvdE)
  then have "unat (align_up x) = unat x"
    by (simp add: unat_align_up [OF assms(1)])
  then show ?thesis by (rule unsigned_word_eqI)
qed

text \<open>
  C39: why the bound on the requests is needed. On every mapped arena that is not full, and
  for every aligned address below the mark, also one below the arena or inside a block given
  out before, there is a request that is granted although it does not fit (the sum in the
  space test wraps) and after which the next request gets a block at exactly that address.
\<close>

theorem fpga_alloc_size_wraps:
  assumes "arena_ok st" and "unat (align_up (gArenaCur st)) \<le> unat (gArenaEnd st)"
    and "unat x < unat (gArenaCur st)" and "64 dvd unat x"
    and "unat x + unat m \<le> unat (gArenaEnd st)"
  shows "\<exists>n st'. unat (gArenaEnd st) < unat (align_up (gArenaCur st)) + unat n \<and>
    alloc_all (fpga_alloc mal) st [n, m] = Inr ([align_up (gArenaCur st), x], st')"
proof -
  let ?a = "align_up (gArenaCur st)"
  let ?n = "x - ?a"
  have cur: "unat (gArenaCur st) < 2 ^ 63" and fin: "unat (gArenaEnd st) < 2 ^ 63"
    and base: "gArenaBase st \<noteq> 0"
    using assms(1) by (auto simp: arena_ok_def)
  have x: "unat x < unat ?a" using align_up_bounds(1) [OF cur] assms(3) by simp
  have "\<not> gArenaEnd st < ?a + ?n"
    using x assms(2) by (simp add: word_less_nat_alt)
  then have first: "fpga_alloc mal st ?n = Inr (?a, st\<lparr>gArenaCur := x\<rparr>)"
    using base by (simp add: fpga_alloc_def Let_def)
  have "align_up x = x"
    using x assms(2,4) fin by (intro align_up_aligned) simp_all
  moreover have "unat (x + m) = unat x + unat m"
    using assms(5) fin by (simp add: unat_word_ariths)
  ultimately have second: "fpga_alloc mal (st\<lparr>gArenaCur := x\<rparr>) m = Inr (x, st\<lparr>gArenaCur := x + m\<rparr>)"
    using base assms(5) by (simp add: fpga_alloc_def Let_def word_less_nat_alt)
  have "unat (gArenaEnd st) < unat ?a + unat ?n"
  proof (rule ccontr)
    assume "\<not> ?thesis"
    then have "unat (?a + ?n) = unat ?a + unat ?n"
      using fin by (subst unat_word_ariths(1)) simp
    then show False using x by simp
  qed
  then show ?thesis
    using first second by (intro exI [of _ ?n] exI [of _ "st\<lparr>gArenaCur := x + m\<rparr>"]) simp
qed

lemma sample_arena_ok: "arena_ok sample_arena"
  by (simp add: arena_ok_def sample_arena_def)

lemma sample_allocs:
  "alloc_all (fpga_alloc (\<lambda>h _. (0, h))) sample_arena [100, 10] =
    Inr ([0x10000400, 0x10000480], sample_arena\<lparr>gArenaCur := 0x1000048A\<rparr>)"
  by (simp add: sample_arena_def fpga_alloc_def align_up_def ALIGN_def)

theorem arena_blocks_disjoint_witness:
  "sorted_wrt (\<lambda>(p, n) (q, m). unat p + unat n \<le> unat q)
    (zip [0x10000400, 0x10000480 :: u64] [100, 10 :: u64])"
  using arena_blocks_disjoint [OF sample_arena_ok _ sample_allocs] by simp

text \<open>The block below the arena, at \<open>0xFFF0000\<close>, is handed out.\<close>

theorem fpga_alloc_size_wraps_witness:
  "\<exists>n st'. alloc_all (fpga_alloc (\<lambda>h _. (0, h))) sample_arena [n, 64] =
    Inr ([align_up (gArenaCur sample_arena), 0xFFF0000], st')"
proof -
  have "align_up (gArenaCur sample_arena) = 0x10000400"
    by (simp add: align_up_def ALIGN_def sample_arena_def)
  then show ?thesis
    using fpga_alloc_size_wraps [OF sample_arena_ok, where x = "0xFFF0000" and m = "64" and
        mal = "\<lambda>h _. (0, h)"] by (auto simp: sample_arena_def)
qed

theorem fpga_alloc_exact_witness:
  "\<exists>a. 64 dvd unat a \<and> fpga_alloc (\<lambda>h _. (0, h)) sample_arena 100 =
    Inr (a, sample_arena\<lparr>gArenaCur := a + 100\<rparr>)"
proof -
  obtain a where a: "64 dvd unat a" "unat a < unat (gArenaCur sample_arena) + 64"
    "fpga_alloc (\<lambda>h _. (0, h)) sample_arena 100 =
      (if unat a + unat (100 :: u64) \<le> unat (gArenaEnd sample_arena)
       then Inr (a, sample_arena\<lparr>gArenaCur := a + 100\<rparr>) else Inl (ExitWith 1))"
    using fpga_alloc_exact [OF sample_arena_ok, of "\<lambda>h _. (0, h)" 100] by auto
  moreover from a(2) have "unat a + 100 \<le> unat (gArenaEnd sample_arena)"
    by (simp add: sample_arena_def)
  ultimately show ?thesis by auto
qed

section \<open>Setting up the mapping\<close>

lemma touch_loop_eq: "touch_loop i n = (if i < n then i # touch_loop (i + 4194304) n else [])"
  by (subst touch_loop.simps) simp

lemma touch_loop_set:
  "x \<in> set (touch_loop i n) \<longleftrightarrow> x < n \<and> (\<exists>k. x = i + 4194304 * k)"
proof (induction i n rule: touch_loop.induct)
  case (1 i n)
  show ?case
  proof (cases "i < n")
    case True
    then have "x \<in> set (touch_loop i n) \<longleftrightarrow> x = i \<or> (x < n \<and> (\<exists>k. x = i + 4194304 + 4194304 * k))"
      using "1.IH" by (subst touch_loop_eq) simp
    also have "\<dots> \<longleftrightarrow> x < n \<and> (\<exists>k. x = i + 4194304 * k)"
    proof
      assume "x = i \<or> (x < n \<and> (\<exists>k. x = i + 4194304 + 4194304 * k))"
      then show "x < n \<and> (\<exists>k. x = i + 4194304 * k)"
        using True by (auto intro: exI [of _ 0] exI [of _ "Suc _"])
    next
      assume "x < n \<and> (\<exists>k. x = i + 4194304 * k)"
      then obtain k where "x < n" "x = i + 4194304 * k" by blast
      then show "x = i \<or> (x < n \<and> (\<exists>k. x = i + 4194304 + 4194304 * k))"
        by (cases k) auto
    qed
    finally show ?thesis .
  next
    case False
    then show ?thesis by (subst touch_loop_eq) auto
  qed
qed

text \<open>
  C36: a successful set-up for a user-space mapping leaves a well-formed empty arena of the
  requested size, and the bytes it writes lie inside the mapping, at the multiples of 4 MB
  from its base. Without the device or the mapping the globals stay as they were.
\<close>

theorem setup_mapping_result:
  assumes "a \<noteq> 0" and "unat a + unat n < 2 ^ 63"
  shows "(case SetupEnzianMemoryMapping fd (Some a) n st of (st', touched) \<Rightarrow>
      if fd < 0 then st' = st \<and> touched = []
      else arena_ok st' \<and> gArenaBase st' = a \<and> gArenaCur st' = a \<and>
        unat (gArenaEnd st') = unat a + unat n \<and>
        unat ` set touched = {unat a + 4194304 * k | k. 4194304 * k < unat n}) \<and>
    SetupEnzianMemoryMapping fd None n st = (st, [])"
proof (cases "fd < 0")
  case False
  have "unat (a + of_nat i) = unat a + i" if "i < unat n" for i
    using that assms(2) by (simp add: unat_word_ariths unsigned_of_nat take_bit_nat_eq_self)
  then have "unat ` (\<lambda>i. a + of_nat i) ` set (touch_loop 0 (unat n)) =
      (\<lambda>i. unat a + i) ` set (touch_loop 0 (unat n))"
    unfolding image_image by (intro image_cong) (auto simp: touch_loop_set)
  also have "\<dots> = {unat a + 4194304 * k | k. 4194304 * k < unat n}"
    by (auto simp: touch_loop_set)
  finally show ?thesis
    using False assms by (simp add: SetupEnzianMemoryMapping_def arena_ok_def unat_word_ariths)
qed (simp add: SetupEnzianMemoryMapping_def)

theorem setup_mapping_result_witness:
  "case SetupEnzianMemoryMapping 3 (Some 0x10000000) (map_bytes 1)
      \<lparr>gArenaBase = 0, gArenaCur = 0, gArenaEnd = 0, heap = ()\<rparr> of
    (st', touched) \<Rightarrow> arena_ok st' \<and> unat (gArenaEnd st') = 0x50000000"
  using setup_mapping_result [where a = "0x10000000" and n = "map_bytes 1" and fd = 3
      and st = "\<lparr>gArenaBase = 0, gArenaCur = 0, gArenaEnd = 0, heap = ()\<rparr>"]
  by (auto simp: map_bytes_def split: prod.splits)

lemma unat_map_bytes:
  assumes "0 < mapGb" and "fits 32 mapGb"
  shows "unat (map_bytes mapGb) = nat mapGb * 2 ^ 30"
proof -
  have "nat mapGb < 2 ^ 31"
    using assms by (simp add: fits_def)
  have w: "(word_of_int mapGb :: u64) = of_nat (nat mapGb)"
    using assms(1) by simp
  have "unat (word_of_int mapGb :: u64) = nat mapGb"
    using \<open>nat mapGb < 2 ^ 31\<close> unfolding w by (simp add: unsigned_of_nat take_bit_nat_eq_self)
  then show ?thesis
    using \<open>nat mapGb < 2 ^ 31\<close> by (simp add: map_bytes_def unat_word_ariths)
qed

section \<open>Reading a file into a block\<close>

text \<open>
  What the file system answers: the size \<open>stat\<close> reports and the bytes \<open>fopen\<close> and \<open>fread\<close>
  deliver (\<open>None\<close> where the call fails; the two may disagree). The result is the block's
  address and its bytes, or \<open>NULL\<close>. The block is one byte longer than the file.
\<close>

record file_env =
  stat_size :: "u64 option"
  contents :: "string option"

definition read_file_into_buffer ::
  "('h \<Rightarrow> u64 \<Rightarrow> u64 \<times> 'h) \<Rightarrow> file_env \<Rightarrow> 'h arena \<Rightarrow> ((u64 \<times> buf) option \<times> 'h arena) res" where
  "read_file_into_buffer mal env st =
     (case stat_size env of
        None \<Rightarrow> Inr (None, st)
      | Some sz \<Rightarrow>
          (case contents env of
             None \<Rightarrow> Inr (None, st)
           | Some bytes \<Rightarrow>
               rbind (fpga_alloc mal st (sz + 1)) (\<lambda>(p, st).
                 let got = take (unat sz) bytes
                 in if length got \<noteq> unat sz then Inr (None, st)
                    else Inr (Some (p, got @ [NUL]), st))))"

text \<open>
  C35: a buffer that is returned is the first \<open>st_size\<close> bytes of the file with a terminator
  after them, in a 64-byte aligned block of that length inside the arena.
\<close>

theorem read_file_buffer:
  assumes "arena_ok st" and "stat_size env = Some sz" and "unat sz < 2 ^ 61"
    and "read_file_into_buffer mal env st = Inr (Some (p, b), st')"
  shows "\<exists>bytes. contents env = Some bytes \<and> b = take (unat sz) bytes @ [NUL] \<and>
    length b = unat sz + 1 \<and> 64 dvd unat p \<and> unat (gArenaCur st) \<le> unat p \<and>
    unat p + length b \<le> unat (gArenaEnd st) \<and> arena_ok st'"
proof -
  obtain bytes st1 where c: "contents env = Some bytes"
    and al: "fpga_alloc mal st (sz + 1) = Inr (p, st1)"
    and b: "b = take (unat sz) bytes @ [NUL]" "length (take (unat sz) bytes) = unat sz" "st' = st1"
    using assms(2,4)
    by (auto simp: read_file_into_buffer_def rbind_eq_Inr Let_def split: option.splits if_splits)
  have sz1: "unat (sz + 1) = unat sz + 1"
    using assms(3) by (simp add: unat_word_ariths)
  then have "unat (sz + 1) < 2 ^ 62" using assms(3) by simp
  note facts = fpga_alloc_Inr [OF assms(1) this al] bump.alloc_ok [OF assms(1) this al]
  show ?thesis
    using c b facts sz1 by auto
qed

definition sample_file :: file_env where
  "sample_file = \<lparr>stat_size = Some 4, contents = Some ''a,b''\<rparr>"

theorem read_file_buffer_witness:
  "\<exists>bytes. contents (sample_file\<lparr>stat_size := Some 3\<rparr>) = Some bytes \<and>
    ''a,b'' @ [NUL] = take 3 bytes @ [NUL] \<and> 64 dvd unat (0x10000400 :: u64)"
proof -
  have "read_file_into_buffer (\<lambda>h _. (0, h)) (sample_file\<lparr>stat_size := Some 3\<rparr>) sample_arena =
      Inr (Some (0x10000400, ''a,b'' @ [NUL]), sample_arena\<lparr>gArenaCur := 0x10000404\<rparr>)"
    by (simp add: read_file_into_buffer_def sample_file_def sample_arena_def fpga_alloc_def
        align_up_def ALIGN_def)
  from read_file_buffer [OF sample_arena_ok _ _ this, of 3] show ?thesis by auto
qed

end
