(* ===== verification/Csv.thy ===== *)
theory Csv
  imports CLib
begin

text \<open>
  Reading lines out of a buffer in place, as \<open>next_line\<close> of \<open>redis_fpga.c\<close> does, and the
  lines of a text as a list.
\<close>

section \<open>The line reader\<close>

text \<open>
  \<open>next_line\<close> on a buffer and a cursor into it: the line's pointer if there is one, the buffer
  with the line terminated, and the new cursor.
\<close>

definition next_line :: "buf \<Rightarrow> nat \<Rightarrow> (nat option \<times> buf \<times> nat) res" where
  "next_line b cursor =
     rbind (rd b cursor) (\<lambda>c.
       if c = NUL then Inr (None, b, cursor)
       else rbind (strchr b cursor LF) (\<lambda>nl.
         case nl of
           Some nl \<Rightarrow>
             rbind (wr b nl NUL) (\<lambda>b.
             rbind (strlen b cursor) (\<lambda>len.
               if len = 0 then Inr (Some cursor, b, nl + 1)
               else rbind (rd b (cursor + len - 1)) (\<lambda>l.
                      if l = CR then
                        rbind (wr b (cursor + len - 1) NUL) (\<lambda>b. Inr (Some cursor, b, nl + 1))
                      else Inr (Some cursor, b, nl + 1))))
         | None \<Rightarrow> rbind (strlen b cursor) (\<lambda>len. Inr (Some cursor, b, cursor + len))))"

section \<open>The lines of a text\<close>

definition chomp_cr :: "string \<Rightarrow> string" where
  "chomp_cr l = (if l \<noteq> [] \<and> last l = CR then butlast l else l)"

definition split_line :: "string \<Rightarrow> (string \<times> string) option" where
  "split_line s =
     (if s = [] then None
      else if LF \<in> set s
      then Some (chomp_cr (takeWhile (\<lambda>c. c \<noteq> LF) s), tl (dropWhile (\<lambda>c. c \<noteq> LF) s))
      else Some (s, []))"

lemma split_line_shorter: "split_line s = Some (l, r) \<Longrightarrow> length r < length s"
proof -
  assume sp: "split_line s = Some (l, r)"
  have "length (dropWhile (\<lambda>c. c \<noteq> LF) s) \<le> length s" and "s \<noteq> []"
    using sp by (auto simp: split_line_def length_dropWhile_le)
  then have "length (tl (dropWhile (\<lambda>c. c \<noteq> LF) s)) < length s"
    unfolding length_tl by (cases s) auto
  with sp show ?thesis
    by (auto simp: split_line_def split: if_splits)
qed

function csv_lines :: "string \<Rightarrow> string list" where
  "csv_lines s = (case split_line s of None \<Rightarrow> [] | Some (l, r) \<Rightarrow> l # csv_lines r)"
  by pat_completeness auto
termination
  by (relation "measure length") (auto intro: split_line_shorter)

declare csv_lines.simps [simp del]

lemma csv_lines_None: "split_line s = None \<Longrightarrow> csv_lines s = []"
  by (simp add: csv_lines.simps [of s])

lemma csv_lines_Some: "split_line s = Some (l, r) \<Longrightarrow> csv_lines s = l # csv_lines r"
  by (simp add: csv_lines.simps [of s])

section \<open>The reader computes the lines\<close>

lemma next_line_None: "holds b p s \<Longrightarrow> split_line s = None \<Longrightarrow> next_line b p = Inr (None, b, p)"
  using rd_holds_head [of b p s] by (simp add: next_line_def split_line_def split: if_splits)

lemma strchr_found:
  assumes "c \<notin> set l" and "NUL \<notin> set l" and "length pre = p"
  shows "strchr (pre @ l @ c # post) p c = Inr (Some (p + length l))"
proof -
  have "\<forall>x \<in> set l. \<not> (x = c \<or> x = NUL)" using assms(1,2) by auto
  then have "scan (\<lambda>x. x = c \<or> x = NUL) (pre @ l @ c # post) p = Inr (p + length l)"
    using scan_append [of l "\<lambda>x. x = c \<or> x = NUL" c pre post] assms(3) by simp
  moreover have "rd (pre @ l @ c # post) (p + length l) = Inr c"
    using assms(3) by (simp add: rd_def nth_append)
  ultimately show ?thesis by (simp add: strchr_def)
qed

lemma strchr_absent:
  assumes "c \<notin> set s" and "NUL \<notin> set s" and "c \<noteq> NUL" and "length pre = p"
  shows "strchr (pre @ s @ NUL # post) p c = Inr None"
proof -
  have "\<forall>x \<in> set s. \<not> (x = c \<or> x = NUL)" using assms(1,2) by auto
  then have "scan (\<lambda>x. x = c \<or> x = NUL) (pre @ s @ NUL # post) p = Inr (p + length s)"
    using scan_append [of s "\<lambda>x. x = c \<or> x = NUL" NUL pre post] assms(4) by simp
  moreover have "rd (pre @ s @ NUL # post) (p + length s) = Inr NUL"
    using assms(4) by (simp add: rd_def nth_append)
  ultimately show ?thesis using assms(3) by (simp add: strchr_def)
qed

lemma next_line_Some:
  assumes h: "holds b p s" and sp: "split_line s = Some (l, r)"
  shows "\<exists>b' p'. next_line b p = Inr (Some p, b', p') \<and> length b' = length b \<and>
    holds b' p l \<and> holds b' p' r \<and> p < p' \<and> p + length l \<le> p' \<and>
    (r \<noteq> [] \<longrightarrow> p + length l < p') \<and> p' + length r = p + length s \<and>
    (\<forall>j. j < p \<or> p + length s \<le> j \<longrightarrow> b' ! j = b ! j)"
proof -
  obtain pre post where b: "b = pre @ s @ NUL # post" and p: "length pre = p" and N: "NUL \<notin> set s"
    using h by (rule holdsE)
  have ne: "s \<noteq> []" using sp by (auto simp: split_line_def)
  then have rd0: "\<exists>c. rd b p = Inr c \<and> c \<noteq> NUL"
    using rd_holds_head [OF h] N by (cases s) auto
  show ?thesis
  proof (cases "LF \<in> set s")
    case False
    then have lr: "l = s" "r = []" using sp ne by (auto simp: split_line_def)
    have "strchr b p LF = Inr None"
      using strchr_absent [OF False N _ p] by (simp add: b)
    then have "next_line b p = Inr (Some p, b, p + length s)"
      using rd0 strlen_holds [OF h] by (auto simp: next_line_def)
    moreover have "holds b (p + length s) []"
      using holdsI [of "[]" "pre @ s" "p + length s" post] by (simp add: b p)
    ultimately show ?thesis using h ne by (simp add: lr)
  next
    case True
    define l0 where "l0 = takeWhile (\<lambda>c. c \<noteq> LF) s"
    have lr: "l = chomp_cr l0" "r = tl (dropWhile (\<lambda>c. c \<noteq> LF) s)"
      using sp True ne by (auto simp: split_line_def l0_def)
    have "dropWhile (\<lambda>c. c \<noteq> LF) s \<noteq> []" using True by simp
    then have "dropWhile (\<lambda>c. c \<noteq> LF) s = LF # r"
      using hd_dropWhile [of "\<lambda>c. c \<noteq> LF" s] lr(2) by (cases "dropWhile (\<lambda>c. c \<noteq> LF) s") auto
    then have s: "s = l0 @ LF # r"
      by (metis l0_def takeWhile_dropWhile_id)
    have l0: "LF \<notin> set l0"
      by (auto simp: l0_def dest: set_takeWhileD)
    let ?b1 = "pre @ l0 @ NUL # r @ NUL # post"
    have nl: "strchr b p LF = Inr (Some (p + length l0))"
      using strchr_found [of LF l0 pre p "r @ NUL # post"] l0 N p by (simp add: b s)
    have wr1: "wr b (p + length l0) NUL = Inr ?b1"
      using p by (simp add: b s wr_def list_update_append)
    have h1: "holds ?b1 p l0"
      using holdsI [of l0 pre p "r @ NUL # post"] N s p by simp
    have hr: "holds ?b1 (p + length l0 + 1) r"
      using holdsI [of r "pre @ l0 @ [NUL]" "p + length l0 + 1" post] N s p by simp
    show ?thesis
    proof (cases "l0 \<noteq> [] \<and> last l0 = CR")
      case False
      then have l: "l = l0" by (auto simp: lr(1) chomp_cr_def)
      have "rd ?b1 (p + length l0 - 1) = Inr (last l0)" if "l0 \<noteq> []"
        using that p by (cases l0 rule: rev_cases) (simp_all add: rd_def nth_append)
      then have "next_line b p = Inr (Some p, ?b1, p + length l0 + 1)"
        using rd0 nl wr1 strlen_holds [OF h1] False by (auto simp: next_line_def)
      then show ?thesis
        using h1 hr p by (auto simp: l b s nth_append nth_Cons split: nat.split)
    next
      case True
      then obtain k where k: "l0 = k @ [CR]" by (cases l0 rule: rev_cases) auto
      then have l: "l = k" by (simp add: lr chomp_cr_def)
      let ?b2 = "pre @ k @ NUL # NUL # r @ NUL # post"
      have "rd ?b1 (p + length l0 - 1) = Inr CR" and "wr ?b1 (p + length l0 - 1) NUL = Inr ?b2"
        using p by (simp_all add: k rd_def wr_def nth_append list_update_append)
      then have "next_line b p = Inr (Some p, ?b2, p + length l0 + 1)"
        using rd0 nl wr1 strlen_holds [OF h1] True by (auto simp: next_line_def)
      moreover have "holds ?b2 p k" "holds ?b2 (p + length l0 + 1) r"
        using holdsI [of k pre p "NUL # r @ NUL # post"]
          holdsI [of r "pre @ k @ [NUL, NUL]" "p + length l0 + 1" post] N s p k by simp_all
      ultimately show ?thesis
        using p k by (auto simp: l b s nth_append nth_Cons split: nat.split)
    qed
  qed
qed

text \<open>
  C15: on a terminated string in the buffer \<open>next_line\<close> never leaves the buffer. It returns the
  first line without its line feed and without a carriage return before that, leaves the
  cursor on the rest of the text, and changes only bytes of the text it was given; at the end
  of the text it returns nothing and changes nothing.
\<close>

theorem next_line_refines_split_line:
  assumes "holds b p s"
  shows "case split_line s of
      None \<Rightarrow> next_line b p = Inr (None, b, p)
    | Some (l, r) \<Rightarrow> (\<exists>b' p'. next_line b p = Inr (Some p, b', p') \<and> length b' = length b \<and>
        holds b' p l \<and> holds b' p' r \<and> p' + length r = p + length s \<and>
        (\<forall>j. j < p \<or> p + length s \<le> j \<longrightarrow> b' ! j = b ! j))"
proof (cases "split_line s")
  case None
  then show ?thesis using next_line_None [OF assms] by simp
next
  case (Some lr)
  then show ?thesis
    using next_line_Some [OF assms, of "fst lr" "snd lr"] by (auto split: prod.split)
qed

theorem next_line_refines_split_line_witness:
  "\<exists>b' p'. next_line (''a,b'' @ [CR, LF] @ ''1'' @ [NUL]) 0 = Inr (Some 0, b', p') \<and>
    holds b' 0 ''a,b'' \<and> holds b' p' ''1''"
proof -
  have h: "holds (''a,b'' @ [CR, LF] @ ''1'' @ [NUL]) 0 (''a,b'' @ [CR, LF] @ ''1'')"
    by (simp add: holds_def)
  show ?thesis
    using next_line_refines_split_line [OF h] by (simp add: split_line_def chomp_cr_def) blast
qed

lemma cut_at_LF:
  "LF \<notin> set l \<Longrightarrow> takeWhile (\<lambda>c. c \<noteq> LF) (l @ LF # r) = l"
  "LF \<notin> set l \<Longrightarrow> dropWhile (\<lambda>c. c \<noteq> LF) (l @ LF # r) = LF # r"
  by (induction l) auto

lemma split_line_append:
  "LF \<notin> set l \<Longrightarrow> split_line (l @ LF # r) = Some (chomp_cr l, r)"
  by (simp add: split_line_def cut_at_LF)

text \<open>
  Lines written with their line ends are read back: for lines that contain no line feed
  and do not end in a carriage return, both the LF and the CR LF convention give the lines.
\<close>

lemma csv_lines_roundtrip:
  assumes "\<forall>l \<in> set ls. LF \<notin> set l \<and> (l = [] \<or> last l \<noteq> CR)" and "eol = [LF] \<or> eol = [CR, LF]"
  shows "csv_lines (concat (map (\<lambda>l. l @ eol) ls)) = ls"
  using assms(1)
proof (induction ls)
  case Nil
  then show ?case by (simp add: csv_lines_None split_line_def)
next
  case (Cons l ls)
  let ?r = "concat (map (\<lambda>l. l @ eol) ls)"
  have l: "LF \<notin> set l" "l = [] \<or> last l \<noteq> CR" using Cons.prems by simp_all
  have "split_line (l @ eol @ ?r) = Some (l, ?r)"
    using assms(2) l split_line_append [of l ?r] split_line_append [of "l @ [CR]" ?r]
    by (auto simp: chomp_cr_def)
  then show ?case
    using Cons by (simp add: csv_lines_Some)
qed

end
