(* ===== verification/RedisModel.thy ===== *)
theory RedisModel
  imports CLib
begin

text \<open>
  What \<open>redis_fpga.c\<close> and \<open>redis_loader.c\<close> share: the column descriptions, the replies of the
  hiredis client library as far as the programs look into them, and the connection. The
  library and the server behind it are not part of the repository: \<open>ex\<close>, a parameter, says
  what \<open>redisCommand\<close> with a format and its arguments returns and does to the server.
\<close>

section \<open>Columns\<close>

text \<open>
  The \<open>name\<close> array byte by byte, \<open>None\<close> for a byte never written; \<open>mean\<close> is a \<open>double\<close> that
  neither program touches, kept as its 64 bits.
\<close>

record Column =
  col_name :: "char option list"
  is_int :: int
  mean :: u64

definition MAX_COLS :: nat where
  "MAX_COLS = 32"

text \<open>\<open>strncpy\<close> of at most \<open>n\<close> bytes: the copied bytes, zero padding up to \<open>n\<close>, the rest kept.\<close>

definition strncpy :: "char option list \<Rightarrow> string \<Rightarrow> nat \<Rightarrow> char option list" where
  "strncpy dst src n =
     map Some (take n src) @ replicate (n - length src) (Some NUL) @ drop n dst"

text \<open>Reading such an array as a C string.\<close>

fun cells_string :: "char option list \<Rightarrow> string res" where
  "cells_string [] = Inl OutOfBounds"
| "cells_string (None # cs) = Inl UninitRead"
| "cells_string (Some c # cs) =
     (if c = NUL then Inr [] else rbind (cells_string cs) (\<lambda>s. Inr (c # s)))"

lemma cells_string_terminated:
  "NUL \<notin> set s \<Longrightarrow> cells_string (map Some s @ Some NUL # cs) = Inr s"
  by (induction s) auto

lemma cells_string_untouched:
  "NUL \<notin> set s \<Longrightarrow> cells_string (map Some s @ None # cs) = Inl UninitRead"
  by (induction s) auto

text \<open>A column array as its caller declares it: nothing in it is initialised.\<close>

definition fresh_column :: Column where
  "fresh_column = \<lparr>col_name = replicate 64 None, is_int = 0, mean = 0\<rparr>"

definition fresh_schema :: "Column list" where
  "fresh_schema = replicate MAX_COLS fresh_column"

definition schema_ok :: "Column list \<Rightarrow> bool" where
  "schema_ok schema \<longleftrightarrow> length schema = MAX_COLS \<and> (\<forall>c \<in> set schema. length (col_name c) = 64)"

definition column_name :: "Column list \<Rightarrow> nat \<Rightarrow> string res" where
  "column_name schema i = rbind (idx schema i) (\<lambda>c. cells_string (col_name c))"

section \<open>The connection\<close>

datatype reply_type = REDIS_REPLY_ARRAY | REDIS_REPLY_OTHER

text \<open>A reply: its type, its string if it has one, its elements (each possibly \<open>NULL\<close>).\<close>

datatype redisReply =
  Reply (rtype: reply_type) (rstr: "string option") (element: "redisReply option list")

text \<open>
  The client's side: the server's state, how many replies are allocated and not freed, and
  the commands sent, as format and arguments.
\<close>

record 's client =
  server :: 's
  live :: int
  sent :: "(string \<times> string list) list"

type_synonym 's exec = "'s \<Rightarrow> string \<Rightarrow> string list \<Rightarrow> redisReply option \<times> 's"

definition redisCommand ::
  "'s exec \<Rightarrow> string \<Rightarrow> string list \<Rightarrow> 's client \<Rightarrow> redisReply option \<times> 's client" where
  "redisCommand ex fmt args cl =
     (let (r, s) = ex (server cl) fmt args
      in (r, \<lparr>server = s, live = (if r = None then live cl else live cl + 1),
              sent = sent cl @ [(fmt, args)]\<rparr>))"

definition freeReplyObject :: "redisReply option \<Rightarrow> 's client \<Rightarrow> 's client" where
  "freeReplyObject r cl = (case r of None \<Rightarrow> cl | Some _ \<Rightarrow> cl\<lparr>live := live cl - 1\<rparr>)"

text \<open>\<open>rr = redisCommand(c, ...); if (rr) freeReplyObject(rr);\<close>\<close>

definition command :: "'s exec \<Rightarrow> string \<Rightarrow> string list \<Rightarrow> 's client \<Rightarrow> 's client" where
  "command ex fmt args cl = (let (rr, cl) = redisCommand ex fmt args cl in freeReplyObject rr cl)"

text \<open>Its effect: the server moves, the command is logged, no reply stays allocated.\<close>

definition send :: "'s exec \<Rightarrow> string \<times> string list \<Rightarrow> 's client \<Rightarrow> 's client" where
  "send ex c cl = cl\<lparr>server := snd (ex (server cl) (fst c) (snd c)), sent := sent cl @ [c]\<rparr>"

lemma command_send: "command ex fmt args cl = send ex (fmt, args) cl"
  by (simp add: command_def redisCommand_def freeReplyObject_def send_def
      split: prod.split option.split)

text \<open>
  The programs pass their way of sending a command, \<open>put\<close>, to the steps of the upload they
  share.
\<close>

definition pc :: "(string \<Rightarrow> string list \<Rightarrow> 'c \<Rightarrow> 'c) \<Rightarrow> string \<times> string list \<Rightarrow> 'c \<Rightarrow> 'c" where
  "pc put c = put (fst c) (snd c)"

lemma put_pc: "put fmt args cl = pc put (fmt, args) cl"
  by (simp add: pc_def)

lemma pc_command: "pc (command ex) = send ex"
  by (simp add: fun_eq_iff pc_def command_send)

text \<open>
  The contract of such a way of sending: the server sees the command and the command is logged.
  What becomes of the reply is left open.
\<close>

locale command_sender =
  fixes ex :: "'s exec"
    and put :: "string \<Rightarrow> string list \<Rightarrow> 's client \<Rightarrow> 's client"
  assumes put_server: "server (put fmt args cl) = snd (ex (server cl) fmt args)"
    and put_sent: "sent (put fmt args cl) = sent cl @ [(fmt, args)]"
begin

lemma fold_sent: "sent (fold (pc put) cs cl) = sent cl @ cs"
  by (induction cs arbitrary: cl) (simp_all add: pc_def put_sent)

lemma fold_server:
  "server (fold (pc put) cs cl) = fold (\<lambda>c s. snd (ex s (fst c) (snd c))) cs (server cl)"
  by (induction cs arbitrary: cl) (simp_all add: pc_def put_server)

end

interpretation freed: command_sender ex "command ex" for ex
  by unfold_locales (simp_all add: command_send send_def)

lemmas sent_sends = freed.fold_sent [unfolded pc_command]

lemmas server_sends = freed.fold_server [unfolded pc_command]

lemma live_sends: "live (fold (send ex) cs cl) = live cl"
  by (induction cs arbitrary: cl) (simp_all add: send_def)

text \<open>The key of a row: \<open>snprintf(key, sizeof(key), "row:%d", row)\<close>.\<close>

definition row_key :: "int \<Rightarrow> string" where
  "row_key row = ''row:'' @ show_int row"

lemma row_key_inj [simp]: "row_key i = row_key j \<longleftrightarrow> i = j"
  by (simp add: row_key_def show_int_inj)

lemma row_key_not_schema [simp]: "row_key i \<noteq> ''schema''" "''schema'' \<noteq> row_key i"
  by (simp_all add: row_key_def)

end
