(* ===== verification/RedisFpga.thy ===== *)
theory RedisFpga
  imports Arena Csv RedisModel
begin

text \<open>
  \<open>load_dataset_generic\<close> of \<open>redis_fpga.c\<close>: the CSV file is read into the arena, cut into lines
  and fields in place, the column types are inferred from the first row, and schema and rows
  are sent to Redis. The loader is shown to send what a list-level description of the CSV
  file prescribes.
\<close>

section \<open>Header and first row\<close>

definition set_column :: "Column \<Rightarrow> string \<Rightarrow> Column" where
  "set_column c tok = c\<lparr>col_name := (strncpy (col_name c) tok 63)[63 := Some NUL], is_int := 1\<rparr>"

text \<open>
  The loop over the header, with the entry of a column (\<open>setc\<close>) and the delimiters (\<open>d\<close>) as
  parameters: \<open>redis_loader.c\<close> has the same loop with another entry and other delimiters.
\<close>

definition header_body ::
  "(Column \<Rightarrow> string \<Rightarrow> Column) \<Rightarrow> nat \<Rightarrow> nat \<Rightarrow> string \<Rightarrow> Column list \<Rightarrow> Column list res" where
  "header_body setc cols p tok schema =
     rbind (idx schema cols) (\<lambda>c. upd schema cols (setc c tok))"

definition load_header ::
  "(Column \<Rightarrow> string \<Rightarrow> Column) \<Rightarrow> string \<Rightarrow> buf \<Rightarrow> nat \<Rightarrow> Column list \<Rightarrow> (Column list \<times> nat \<times> buf) res" where
  "load_header setc d b line schema = tok_for d (header_body setc) MAX_COLS b line schema"

text \<open>The test of one value: digits and minus signs only.\<close>

fun looks_int :: "string \<Rightarrow> bool" where
  "looks_int [] = True"
| "looks_int (c # cs) =
     (if ((of_char c :: nat) < 48 \<or> 57 < (of_char c :: nat)) \<and> c \<noteq> CHR ''-'' then False
      else looks_int cs)"

definition infer_body ::
  "nat \<Rightarrow> nat \<Rightarrow> string \<Rightarrow> nat option list \<times> Column list \<Rightarrow> (nat option list \<times> Column list) res"
where
  "infer_body i p tok = (\<lambda>(toks, schema).
     rbind (upd toks i (Some p)) (\<lambda>toks.
       if looks_int tok then Inr (toks, schema)
       else rbind (idx schema i) (\<lambda>c.
            rbind (upd schema i (c\<lparr>is_int := 0\<rparr>)) (\<lambda>schema. Inr (toks, schema)))))"

text \<open>\<open>tokens\<close> is an array of uninitialised pointers when the loop starts.\<close>

definition infer_types ::
  "string \<Rightarrow> nat \<Rightarrow> buf \<Rightarrow> nat \<Rightarrow> Column list \<Rightarrow> ((nat option list \<times> Column list) \<times> nat \<times> buf) res" where
  "infer_types d cols b line schema =
     tok_for d infer_body cols b line (replicate MAX_COLS None, schema)"

section \<open>Sending\<close>

definition store_schema ::
  "(string \<Rightarrow> string list \<Rightarrow> 'c \<Rightarrow> 'c) \<Rightarrow> Column list \<Rightarrow> nat \<Rightarrow> 'c \<Rightarrow> 'c res" where
  "store_schema put schema cols cl =
     (let cl = put ''DEL schema'' [] cl
      in fold_res (\<lambda>i cl.
           rbind (column_name schema i) (\<lambda>n.
           rbind (idx schema i) (\<lambda>c.
             Inr (put ''HSET schema %s %s''
               [n, if is_int c \<noteq> 0 then ''int'' else ''string''] cl)))) [0..<cols] cl)"

definition store_first_row ::
  "(string \<Rightarrow> string list \<Rightarrow> 'c \<Rightarrow> 'c) \<Rightarrow> buf \<Rightarrow> Column list \<Rightarrow> nat option list \<Rightarrow> nat \<Rightarrow> 'c \<Rightarrow> 'c res" where
  "store_first_row put b schema toks cols cl =
     (let row = 1; key = row_key row
      in fold_res (\<lambda>i cl.
           rbind (column_name schema i) (\<lambda>n.
           rbind (idx toks i) (\<lambda>t.
             case t of
               None \<Rightarrow> Inl UninitRead
             | Some p \<Rightarrow> rbind (c_string b p) (\<lambda>v.
                 Inr (put ''HSET %s %s %s'' [key, n, v] cl))))) [0..<cols] cl)"

definition row_body ::
  "(string \<Rightarrow> string list \<Rightarrow> 'c \<Rightarrow> 'c) \<Rightarrow> Column list \<Rightarrow> string \<Rightarrow> nat \<Rightarrow> nat \<Rightarrow> string \<Rightarrow> 'c \<Rightarrow> 'c res" where
  "row_body put schema key i p tok cl =
     rbind (column_name schema i) (\<lambda>n. Inr (put ''HSET %s %s %s'' [key, n, tok] cl))"

text \<open>The loop over the remaining lines ends because the cursor moves on with every line.\<close>

lemma next_line_progress:
  assumes "next_line b cur = Inr (Some p, b', cur')"
  shows "length b' = length b \<and> cur < cur' \<and> cur < length b"
proof -
  obtain c where c: "rd b cur = Inr c" "c \<noteq> NUL"
    using assms by (auto simp: next_line_def rbind_eq_Inr split: if_splits)
  then have cur: "cur < length b" "b ! cur \<noteq> NUL"
    by (auto simp: rd_def split: if_splits)
  have scan_ge: "scan P b cur = Inr e \<Longrightarrow> cur \<le> e" for P e
    by (auto simp: scan_def Let_def split: if_splits)
  have len: "strlen b cur = Inr n \<Longrightarrow> 0 < n" for n
  proof -
    assume "strlen b cur = Inr n"
    then have "n = length (takeWhile (\<lambda>x. x \<noteq> NUL) (drop cur b))"
      by (auto simp: strlen_def scan_def Let_def split: if_splits)
    moreover have "drop cur b = b ! cur # drop (Suc cur) b"
      using cur(1) by (simp add: Cons_nth_drop_Suc)
    ultimately show "0 < n" using cur(2) by simp
  qed
  show ?thesis
    using assms c cur(1) scan_ge
    by (auto simp: next_line_def strchr_def rbind_eq_Inr dest!: wr_length len
        split: if_splits option.splits) (fastforce dest!: scan_ge)+
qed

function load_rows ::
  "'s exec \<Rightarrow> Column list \<Rightarrow> nat \<Rightarrow> buf \<Rightarrow> nat \<Rightarrow> int \<Rightarrow> 's client \<Rightarrow> (int \<times> 's client) res" where
  "load_rows ex schema cols b cursor row cl =
     rbind (next_line b cursor) (\<lambda>(line, b, cursor).
       case line of
         None \<Rightarrow> Inr (row, cl)
       | Some line \<Rightarrow>
           rbind (rd b line) (\<lambda>c.
             if c = NUL then load_rows ex schema cols b cursor row cl
             else rbind (sadd 32 row 1) (\<lambda>row.
                  rbind (tok_for '','' (row_body (command ex) schema (row_key row)) cols b line cl)
                    (\<lambda>(cl, i, b). load_rows ex schema cols b cursor row cl))))"
  by pat_completeness auto
termination
proof (relation "measure (\<lambda>(ex, schema, cols, b, cursor, row, cl). length b - cursor)", goal_cases)
  case 1
  show ?case by simp
next
  case (2 ex schema cols b cursor row cl)
  then show ?case by (auto dest!: next_line_progress)
next
  case (3 ex schema cols b cursor row cl)
  then show ?case by (auto dest!: next_line_progress tok_for_length)
qed

declare load_rows.simps [simp del]

text \<open>
  The whole function: the rows loaded, the schema and column count of the caller, the
  connection, and the arena.
\<close>

definition load_dataset_generic ::
  "('h \<Rightarrow> u64 \<Rightarrow> u64 \<times> 'h) \<Rightarrow> file_env \<Rightarrow> 's exec \<Rightarrow> Column list \<Rightarrow> int \<Rightarrow> 's client \<Rightarrow> 'h arena \<Rightarrow>
   (int \<times> Column list \<times> int \<times> 's client \<times> 'h arena) res" where
  "load_dataset_generic mal env ex schema ns cl st =
     rbind (read_file_into_buffer mal env st) (\<lambda>(filebuf, st).
     case filebuf of
       None \<Rightarrow> Inr (0, schema, ns, cl, st)
     | Some (p, b) \<Rightarrow>
         rbind (next_line b 0) (\<lambda>(line, b, cursor).
         case line of
           None \<Rightarrow> Inr (0, schema, ns, cl, st)
         | Some line \<Rightarrow>
             rbind (load_header set_column '','' b line schema) (\<lambda>(schema, cols, b).
             rbind (next_line b cursor) (\<lambda>(line, b, cursor).
             case line of
               None \<Rightarrow> Inr (0, schema, int cols, cl, st)
             | Some line \<Rightarrow>
                 rbind (infer_types '','' cols b line schema) (\<lambda>((toks, schema), i, b).
                 rbind (store_schema (command ex) schema cols cl) (\<lambda>cl.
                 rbind (store_first_row (command ex) b schema toks cols cl) (\<lambda>cl.
                 rbind (load_rows ex schema cols b cursor 1 cl) (\<lambda>(row, cl).
                   Inr (row, schema, int cols, cl, st)))))))))"

section \<open>What is to be sent\<close>

text \<open>
  The same on lists. The header gives at most 32 names, cut to 63 bytes; a column is an
  integer column unless the first row has a value for it that does not look like one. Empty
  lines after the first row are skipped, and of each line the first fields up to the number
  of columns are used.
\<close>

definition header_names :: "string \<Rightarrow> string list" where
  "header_names h = map (take 63) (take MAX_COLS (tokens '','' h))"

definition column_types :: "nat \<Rightarrow> string list \<Rightarrow> bool list" where
  "column_types cols vals = map (\<lambda>i. i < length vals \<longrightarrow> looks_int (vals ! i)) [0..<cols]"

definition row_values :: "nat \<Rightarrow> string \<Rightarrow> string list" where
  "row_values cols l = take cols (tokens '','' l)"

definition schema_cmds :: "string list \<Rightarrow> bool list \<Rightarrow> (string \<times> string list) list" where
  "schema_cmds names types =
     (''DEL schema'', []) #
     map (\<lambda>(n, t). (''HSET schema %s %s'', [n, if t then ''int'' else ''string''])) (zip names types)"

definition row_cmds :: "string list \<Rightarrow> int \<Rightarrow> string list \<Rightarrow> (string \<times> string list) list" where
  "row_cmds names row vals =
     map (\<lambda>(n, v). (''HSET %s %s %s'', [row_key row, n, v])) (zip names vals)"

fun rows_cmds :: "string list \<Rightarrow> int \<Rightarrow> string list list \<Rightarrow> (string \<times> string list) list" where
  "rows_cmds names row [] = []"
| "rows_cmds names row (r # rs) = row_cmds names row r @ rows_cmds names (row + 1) rs"

text \<open>The values of the rows after the first, from the lines that follow it.\<close>

definition data_rows :: "nat \<Rightarrow> string list \<Rightarrow> string list list" where
  "data_rows cols ls = map (row_values cols) (filter (\<lambda>l. l \<noteq> []) ls)"

text \<open>A column array that represents names and types.\<close>

definition schema_rep :: "Column list \<Rightarrow> string list \<Rightarrow> bool list \<Rightarrow> bool" where
  "schema_rep schema names types \<longleftrightarrow> length schema = MAX_COLS \<and> length names \<le> MAX_COLS \<and>
     length types = length names \<and>
     (\<forall>i < length names. column_name schema i = Inr (names ! i) \<and>
        (is_int (schema ! i) \<noteq> 0 \<longleftrightarrow> types ! i))"

section \<open>The loops compute it\<close>

lemma set_column_name:
  assumes "length (col_name c) = 64" and "NUL \<notin> set t"
  shows "cells_string (col_name (set_column c t)) = Inr (take 63 t)"
    and "length (col_name (set_column c t)) = 64"
proof -
  obtain x where x: "drop 63 (col_name c) = [x]"
    using assms(1) by (cases "drop 63 (col_name c)") (auto dest: arg_cong [of _ _ length])
  define A where "A = map Some (take 63 t) @ replicate (63 - length t) (Some NUL)"
  have "length A = 63" by (simp add: A_def)
  then have "(A @ [x])[63 := Some NUL] = A @ [Some NUL]"
    by (metis list_update_length)
  then have "col_name (set_column c t) =
      map Some (take 63 t) @ replicate (63 - length t) (Some NUL) @ [Some NUL]"
    by (simp add: set_column_def strncpy_def x A_def)
  also have "\<dots> = map Some (take 63 t) @ Some NUL # replicate (63 - length t) (Some NUL)"
    by (simp add: replicate_append_same)
  finally have col: "col_name (set_column c t) = \<dots>" .
  have "NUL \<notin> set (take 63 t)" using assms(2) by (auto dest: in_set_takeD)
  then show "cells_string (col_name (set_column c t)) = Inr (take 63 t)"
    by (simp add: col cells_string_terminated)
  show "length (col_name (set_column c t)) = 64"
    by (simp add: col)
qed

lemma header_body_eq:
  "i < length schema \<Longrightarrow> header_body setc i p t schema = Inr (schema[i := setc (schema ! i) t])"
  by (simp add: header_body_def idx_def upd_def)

lemma fold_header:
  assumes "i + length xs \<le> length schema" and "length ps = length xs"
  shows "fold_body (header_body setc) i (zip ps xs) schema =
    Inr (take i schema @ map2 setc (take (length xs) (drop i schema)) xs @
         drop (i + length xs) schema)"
  using assms
proof (induction xs arbitrary: i ps schema)
  case Nil
  then show ?case by simp
next
  case (Cons x xs)
  obtain q qs where ps: "ps = q # qs" using Cons.prems(2) by (cases ps) auto
  have i: "i < length schema" using Cons.prems(1) by simp
  let ?s = "schema[i := setc (schema ! i) x]"
  have "fold_body (header_body setc) (Suc i) (zip qs xs) ?s =
      Inr (take (Suc i) ?s @ map2 setc (take (length xs) (drop (Suc i) ?s)) xs @
           drop (Suc i + length xs) ?s)"
    using Cons.prems by (intro Cons.IH) (simp_all add: ps)
  moreover have "take (Suc i) ?s = take i schema @ [setc (schema ! i) x]"
    using i by (simp add: take_Suc_conv_app_nth)
  moreover have "drop i schema = schema ! i # drop (Suc i) schema"
    using i by (simp add: Cons_nth_drop_Suc)
  ultimately show ?case
    using i by (simp add: ps header_body_eq)
qed

lemma header_schema_rep:
  assumes ok: "schema_ok schema" and xs: "length xs \<le> MAX_COLS" and len: "length ps = length xs"
    and good: "\<And>c t. length (col_name c) = 64 \<Longrightarrow> t \<in> set xs \<Longrightarrow>
      cells_string (col_name (setc c t)) = Inr (nm t) \<and> is_int (setc c t) = 1"
  shows "\<exists>schema'. fold_body (header_body setc) 0 (zip ps xs) schema = Inr schema' \<and>
    schema_rep schema' (map nm xs) (replicate (length xs) True)"
proof -
  let ?s = "map2 setc (take (length xs) schema) xs @ drop (length xs) schema"
  have ls: "length schema = MAX_COLS" "\<And>i. i < MAX_COLS \<Longrightarrow> length (col_name (schema ! i)) = 64"
    using ok by (auto simp: schema_ok_def)
  have "fold_body (header_body setc) 0 (zip ps xs) schema = Inr ?s"
    using fold_header [of 0 xs schema ps] xs ls(1) len by simp
  moreover have nth: "?s ! i = setc (schema ! i) (xs ! i)" if "i < length xs" for i
    using that xs ls(1) by (simp add: nth_append)
  have "column_name ?s i = Inr (nm (xs ! i)) \<and> is_int (?s ! i) = 1" if i: "i < length xs" for i
  proof -
    have "i < length ?s" using i xs ls(1) by simp
    then show ?thesis
      using good [of "schema ! i" "xs ! i"] ls(2) [of i] i xs nth [OF i]
      by (simp add: column_name_def idx_def)
  qed
  then have "schema_rep ?s (map nm xs) (replicate (length xs) True)"
    using xs ls(1) by (simp add: schema_rep_def)
  ultimately show ?thesis by blast
qed

lemma infer_body_eq:
  assumes "i < length toks" and "i < length schema"
  shows "infer_body i p t (toks, schema) =
    Inr (toks[i := Some p],
         if looks_int t then schema else schema[i := (schema ! i)\<lparr>is_int := 0\<rparr>])"
  using assms by (simp add: infer_body_def upd_def idx_def)

lemma fold_infer:
  assumes "i + length ts \<le> length toks" and "length toks = length schema" and "length ps = length ts"
  shows "\<exists>toks' schema'. fold_body infer_body i (zip ps ts) (toks, schema) = Inr (toks', schema') \<and>
    length toks' = length toks \<and> length schema' = length schema \<and>
    (\<forall>j. toks' ! j = (if i \<le> j \<and> j < i + length ts then Some (ps ! (j - i)) else toks ! j)) \<and>
    (\<forall>j. schema' ! j = (if i \<le> j \<and> j < i + length ts \<and> \<not> looks_int (ts ! (j - i))
       then (schema ! j)\<lparr>is_int := 0\<rparr> else schema ! j))"
  using assms
proof (induction ts arbitrary: i ps toks schema)
  case Nil
  then show ?case by auto
next
  case (Cons t ts)
  obtain q qs where ps: "ps = q # qs" using Cons.prems(3) by (cases ps) auto
  let ?toks = "toks[i := Some q]"
  let ?schema = "if looks_int t then schema else schema[i := (schema ! i)\<lparr>is_int := 0\<rparr>]"
  have "\<exists>toks' schema'. fold_body infer_body (Suc i) (zip qs ts) (?toks, ?schema) = Inr (toks', schema') \<and>
    length toks' = length ?toks \<and> length schema' = length ?schema \<and>
    (\<forall>j. toks' ! j = (if Suc i \<le> j \<and> j < Suc i + length ts then Some (qs ! (j - Suc i)) else ?toks ! j)) \<and>
    (\<forall>j. schema' ! j = (if Suc i \<le> j \<and> j < Suc i + length ts \<and> \<not> looks_int (ts ! (j - Suc i))
       then (?schema ! j)\<lparr>is_int := 0\<rparr> else ?schema ! j))"
    using Cons.prems by (intro Cons.IH) (simp_all add: ps)
  then obtain toks' schema' where
    run: "fold_body infer_body (Suc i) (zip qs ts) (?toks, ?schema) = Inr (toks', schema')"
    and len: "length toks' = length toks" "length schema' = length schema"
    and tk: "\<And>j. toks' ! j = (if Suc i \<le> j \<and> j < Suc i + length ts then Some (qs ! (j - Suc i)) else ?toks ! j)"
    and sc: "\<And>j. schema' ! j = (if Suc i \<le> j \<and> j < Suc i + length ts \<and> \<not> looks_int (ts ! (j - Suc i))
       then (?schema ! j)\<lparr>is_int := 0\<rparr> else ?schema ! j)"
    by auto
  have i: "i < length toks" "i < length schema" using Cons.prems by simp_all
  have "toks' ! j = (if i \<le> j \<and> j < i + length (t # ts) then Some (ps ! (j - i)) else toks ! j) \<and>
      schema' ! j = (if i \<le> j \<and> j < i + length (t # ts) \<and> \<not> looks_int ((t # ts) ! (j - i))
       then (schema ! j)\<lparr>is_int := 0\<rparr> else schema ! j)" for j
  proof (cases "i < j")
    case True
    then have "j - i = Suc (j - Suc i)" by simp
    then show ?thesis using True by (simp add: tk [of j] sc [of j] ps)
  next
    case False
    then show ?thesis using i by (cases "j = i") (auto simp: tk sc ps)
  qed
  then have "\<forall>j. toks' ! j = (if i \<le> j \<and> j < i + length (t # ts) then Some (ps ! (j - i)) else toks ! j)"
    and "\<forall>j. schema' ! j = (if i \<le> j \<and> j < i + length (t # ts) \<and> \<not> looks_int ((t # ts) ! (j - i))
       then (schema ! j)\<lparr>is_int := 0\<rparr> else schema ! j)" by blast+
  moreover have "fold_body infer_body i (zip ps (t # ts)) (toks, schema) = Inr (toks', schema')"
    using run i by (simp add: ps infer_body_eq)
  ultimately show ?case using len by blast
qed

lemma infer_schema_rep:
  assumes rep: "schema_rep schema names (replicate (length names) True)"
    and len: "length ts \<le> length names" "length ps = length ts"
  shows "\<exists>toks schema'. fold_body infer_body 0 (zip ps ts) (replicate MAX_COLS None, schema) =
      Inr (toks, schema') \<and> length toks = MAX_COLS \<and>
    (\<forall>i < MAX_COLS. toks ! i = (if i < length ts then Some (ps ! i) else None)) \<and>
    schema_rep schema' names (column_types (length names) ts)"
proof -
  have "0 + length ts \<le> length (replicate MAX_COLS (None :: nat option))"
    and "length (replicate MAX_COLS (None :: nat option)) = length schema"
    using rep len by (simp_all add: schema_rep_def)
  from fold_infer [OF this len(2)] obtain toks schema' where
    "fold_body infer_body 0 (zip ps ts) (replicate MAX_COLS None, schema) = Inr (toks, schema')"
    "length toks = MAX_COLS" "length schema' = length schema"
    "\<And>j. toks ! j = (if j < length ts then Some (ps ! j) else replicate MAX_COLS None ! j)"
    "\<And>j. schema' ! j = (if j < length ts \<and> \<not> looks_int (ts ! j) then (schema ! j)\<lparr>is_int := 0\<rparr> else schema ! j)"
    by auto
  moreover from this have "schema_rep schema' names (column_types (length names) ts)"
    using rep by (auto simp: schema_rep_def column_types_def column_name_def idx_def)
  ultimately show ?thesis by auto
qed

lemma map_zip_upt:
  "length ys = length xs \<Longrightarrow>
    map (\<lambda>(x, y). f x y) (zip xs ys) = map (\<lambda>i. f (xs ! i) (ys ! i)) [0..<length xs]"
  by (intro nth_equalityI) auto

lemma fold_send_upt: "fold (\<lambda>i. pc put (c i)) is cl = fold (pc put) (map c is) cl"
  by (induction "is" arbitrary: cl) simp_all

lemma schema_rep_lengths: "schema_rep schema names types \<Longrightarrow> length types = length names"
  by (simp add: schema_rep_def)

lemma schema_repD:
  assumes "schema_rep schema names types" and "i < length names"
  shows "column_name schema i = Inr (names ! i)" and "idx schema i = Inr (schema ! i)"
    and "(is_int (schema ! i) \<noteq> 0) = types ! i"
  using assms by (simp_all add: schema_rep_def idx_def)

lemma store_schema_sends:
  assumes "schema_rep schema names types"
  shows "store_schema put schema (length names) cl = Inr (fold (pc put) (schema_cmds names types) cl)"
proof -
  let ?c = "\<lambda>i. (''HSET schema %s %s'', [names ! i, if types ! i then ''int'' else ''string''])"
  have "store_schema put schema (length names) cl =
      Inr (fold (\<lambda>i. pc put (?c i)) [0..<length names] (pc put (''DEL schema'', []) cl))"
    unfolding store_schema_def Let_def pc_def fst_conv snd_conv
  proof (rule fold_res_Inr)
    fix i acc assume "i \<in> set [0..<length names]"
    then have "i < length names" by simp
    note repD = schema_repD [OF assms this]
    show "rbind (column_name schema i) (\<lambda>n. rbind (idx schema i) (\<lambda>c.
        Inr (put ''HSET schema %s %s'' [n, if is_int c \<noteq> 0 then ''int'' else ''string''] acc))) =
      Inr (put ''HSET schema %s %s'' [names ! i, if types ! i then ''int'' else ''string''] acc)"
      by (simp only: repD rbind_Inr)
  qed
  moreover have "schema_cmds names types = (''DEL schema'', []) # map ?c [0..<length names]"
    unfolding schema_cmds_def map_zip_upt [OF schema_rep_lengths [OF assms]] ..
  ultimately show ?thesis by (simp only: fold_send_upt [symmetric] fold.simps comp_apply)
qed

lemma store_first_row_prefix:
  assumes "schema_rep schema names types" and "length ts \<le> length names"
    and "\<forall>i < length ts. i < length toks \<and> toks ! i = Some (ps ! i) \<and> holds b (ps ! i) (ts ! i)"
  shows "fold_res (\<lambda>i cl. rbind (column_name schema i) (\<lambda>n. rbind (idx toks i) (\<lambda>t.
        case t of None \<Rightarrow> Inl UninitRead
        | Some p \<Rightarrow> rbind (c_string b p) (\<lambda>v. Inr (put ''HSET %s %s %s'' [key, n, v] cl)))))
      [0..<length ts] cl =
    Inr (fold (\<lambda>i. pc put (''HSET %s %s %s'', [key, names ! i, ts ! i])) [0..<length ts] cl)"
proof (rule fold_res_Inr)
  fix i acc assume "i \<in> set [0..<length ts]"
  then have i: "i < length names" "i < length ts" using assms(2) by simp_all
  have t: "i < length toks \<and> toks ! i = Some (ps ! i) \<and> holds b (ps ! i) (ts ! i)"
    using assms(3) i(2) by simp
  then have k: "idx toks i = Inr (Some (ps ! i))" by (simp add: idx_def)
  have "c_string b (ps ! i) = Inr (ts ! i)" using t by (intro c_string_holds) blast
  note eqs = this k schema_repD(1) [OF assms(1) i(1)]
  show "rbind (column_name schema i) (\<lambda>n. rbind (idx toks i) (\<lambda>t.
        case t of None \<Rightarrow> Inl UninitRead
        | Some p \<Rightarrow> rbind (c_string b p) (\<lambda>v. Inr (put ''HSET %s %s %s'' [key, n, v] acc)))) =
      Inr (pc put (''HSET %s %s %s'', [key, names ! i, ts ! i]) acc)"
    by (simp only: eqs rbind_Inr option.case pc_def fst_conv snd_conv)
qed

lemma store_first_row_sends:
  assumes "schema_rep schema names types" and "length ts = length names"
    and "\<forall>i < length ts. i < length toks \<and> toks ! i = Some (ps ! i) \<and> holds b (ps ! i) (ts ! i)"
  shows "store_first_row put b schema toks (length names) cl =
    Inr (fold (pc put) (row_cmds names 1 ts) cl)"
proof -
  have "row_cmds names 1 ts =
      map (\<lambda>i. (''HSET %s %s %s'', [row_key 1, names ! i, ts ! i])) [0..<length names]"
    unfolding row_cmds_def by (rule map_zip_upt [OF assms(2)])
  moreover have "length ts \<le> length names" using assms(2) by simp
  note store_first_row_prefix [OF assms(1) this assms(3), unfolded assms(2)]
  ultimately show ?thesis
    unfolding store_first_row_def Let_def by (simp only: fold_send_upt [symmetric])
qed

lemma store_first_row_short:
  assumes "schema_rep schema names types" and "length ts < length names"
    and "\<forall>i < length ts. i < length toks \<and> toks ! i = Some (ps ! i) \<and> holds b (ps ! i) (ts ! i)"
    and "idx toks (length ts) = Inr None"
  shows "store_first_row put b schema toks (length names) cl = Inl UninitRead"
proof -
  have "[0..<length names] = [0..<length ts] @ length ts # [Suc (length ts)..<length names]"
    using assms(2) upt_add_eq_append [of 0 "length ts" "length names - length ts"]
    by (simp add: upt_conv_Cons)
  then show ?thesis
    unfolding store_first_row_def Let_def
    by (simp only: fold_res_append store_first_row_prefix [OF assms(1) less_imp_le [OF assms(2)] assms(3)]
        rbind_Inr fold_res.simps schema_repD(1) [OF assms(1,2)] assms(4) option.case rbind_Inl)
qed

lemma row_body_eq:
  assumes "schema_rep schema names types" and "i < length names"
  shows "row_body put schema key i p t cl = Inr (pc put (''HSET %s %s %s'', [key, names ! i, t]) cl)"
  by (simp only: row_body_def schema_repD(1) [OF assms] pc_def fst_conv snd_conv rbind_Inr)

lemma fold_row_body:
  assumes "schema_rep schema names types" and "i + length xs \<le> length names"
    and "length ps = length xs"
  shows "fold_body (row_body put schema (row_key row)) i (zip ps xs) cl =
    Inr (fold (pc put) (row_cmds (drop i names) row xs) cl)"
  using assms(2,3)
proof (induction xs arbitrary: i ps cl)
  case Nil
  then show ?case by (simp add: row_cmds_def)
next
  case (Cons x xs)
  obtain q qs where ps: "ps = q # qs" using Cons.prems(2) by (cases ps) auto
  have i: "i < length names" using Cons.prems(1) by simp
  then have d: "drop i names = names ! i # drop (Suc i) names"
    by (simp add: Cons_nth_drop_Suc)
  have "fold_body (row_body put schema (row_key row)) (Suc i) (zip qs xs)
      (pc put (''HSET %s %s %s'', [row_key row, names ! i, x]) cl) =
    Inr (fold (pc put) (row_cmds (drop (Suc i) names) row xs)
      (pc put (''HSET %s %s %s'', [row_key row, names ! i, x]) cl))"
    using Cons.prems ps by (intro Cons.IH) simp_all
  then show ?case
    by (simp only: ps d row_body_eq [OF assms(1) i] rbind_Inr row_cmds_def zip_Cons_Cons fold_body.simps list.map fold.simps comp_apply prod.case)
qed

lemma load_rows_line:
  assumes rep: "schema_rep schema names types" and h: "holds b p s"
    and sp: "split_line s = Some (l, r)" and row: "fits 32 (row + 1)" and ne: "l \<noteq> []"
  shows "\<exists>b' p'. holds b' p' r \<and> load_rows ex schema (length names) b p row cl =
    load_rows ex schema (length names) b' p' (row + 1)
      (fold (send ex) (row_cmds names (row + 1) (row_values (length names) l)) cl)"
proof -
  obtain b1 p1 where nl: "next_line b p = Inr (Some p, b1, p1)" "holds b1 p l" "holds b1 p1 r"
    "p + length l \<le> p1" "r \<noteq> [] \<longrightarrow> p + length l < p1"
    using next_line_Some [OF h sp] by blast
  obtain c where c: "rd b1 p = Inr c" "c \<noteq> NUL"
    using rd_holds_head [OF nl(2)] nl(2) ne by (cases l) (auto simp: holds_def)
  let ?xs = "row_values (length names) l"
  have "NUL \<notin> set '',''" by simp
  from tok_for_holds [OF nl(2) this row_values_def, where f = "row_body (command ex) schema (row_key (row + 1))" and n = "length names"]
  obtain ps b2 where tk: "length ps = length ?xs"
    "\<And>acc. tok_for '','' (row_body (command ex) schema (row_key (row + 1))) (length names) b1 p acc =
      rbind (fold_body (row_body (command ex) schema (row_key (row + 1))) 0 (zip ps ?xs) acc)
        (\<lambda>acc. Inr (acc, length ?xs, b2))"
    "length b2 = length b1" "\<And>j. j < p \<or> p + length l \<le> j \<Longrightarrow> b2 ! j = b1 ! j"
    by auto
  have "0 + length ?xs \<le> length names" by (simp add: row_values_def)
  note body = fold_row_body [OF rep this tk(1), of "command ex" "row + 1" cl, unfolded drop_0 pc_command]
  have "holds b2 p1 r"
    by (rule holds_frame [OF nl(3) tk(3)]) (use nl(4) in \<open>auto intro: tk(4)\<close>)
  moreover have "load_rows ex schema (length names) b p row cl =
    load_rows ex schema (length names) b2 p1 (row + 1)
      (fold (send ex) (row_cmds names (row + 1) ?xs) cl)"
    by (subst load_rows.simps) (simp add: nl(1) c sadd_def row tk(2) body)
  ultimately show ?thesis by blast
qed

lemma load_rows_holds:
  assumes "schema_rep schema names types" and "holds b p s" and "0 \<le> row"
    and "row + int (length (data_rows (length names) (csv_lines s))) < 2 ^ 31"
  shows "load_rows ex schema (length names) b p row cl =
    Inr (row + int (length (data_rows (length names) (csv_lines s))),
         fold (send ex) (rows_cmds names (row + 1) (data_rows (length names) (csv_lines s))) cl)"
  using assms(2-)
proof (induction s arbitrary: b p row cl rule: csv_lines.induct)
  case (1 s)
  show ?case
  proof (cases "split_line s")
    case None
    then show ?thesis
      using next_line_None [OF 1(2) None]
      by (subst load_rows.simps) (simp add: csv_lines_None data_rows_def)
  next
    case (Some lr)
    obtain l r where lr: "lr = (l, r)" by (cases lr)
    note sp = Some [unfolded lr]
    note IH = 1(1) [OF sp refl]
    show ?thesis
    proof (cases "l = []")
      case True
      obtain b1 p1 where nl: "next_line b p = Inr (Some p, b1, p1)" "holds b1 p l" "holds b1 p1 r"
        using next_line_Some [OF 1(2) sp] by blast
      have rows: "data_rows (length names) (csv_lines s) = data_rows (length names) (csv_lines r)"
        using True by (simp add: csv_lines_Some [OF sp] data_rows_def)
      have "rd b1 p = Inr NUL" using rd_holds_head [OF nl(2)] True by simp
      then have "load_rows ex schema (length names) b p row cl =
          load_rows ex schema (length names) b1 p1 row cl"
        by (subst load_rows.simps) (simp add: nl(1))
      then show ?thesis
        using IH [OF nl(3) 1(3)] 1(4) by (simp add: rows)
    next
      case False
      let ?ds = "data_rows (length names) (csv_lines r)"
      have rows: "data_rows (length names) (csv_lines s) = row_values (length names) l # ?ds"
        using False by (simp add: csv_lines_Some [OF sp] data_rows_def)
      have row: "fits 32 (row + 1)" "row + 1 + int (length ?ds) < 2 ^ 31" "0 \<le> row + 1"
        using 1(3,4) by (auto simp: rows fits_def)
      obtain b' p' where step: "holds b' p' r"
        "load_rows ex schema (length names) b p row cl =
          load_rows ex schema (length names) b' p' (row + 1)
            (fold (send ex) (row_cmds names (row + 1) (row_values (length names) l)) cl)"
        using load_rows_line [OF assms(1) 1(2) sp row(1) False] by blast
      show ?thesis
        unfolding step(2) IH [OF step(1) row(3,2)] by (simp add: rows)
    qed
  qed
qed

section \<open>The whole loader\<close>

text \<open>The text of a buffer ends at its first NUL.\<close>

definition csv_text :: "buf \<Rightarrow> string" where
  "csv_text b = takeWhile (\<lambda>c. c \<noteq> NUL) b"

lemma read_file_holds:
  assumes "read_file_into_buffer mal env st = Inr (Some (p, b), st')"
  shows "holds b 0 (csv_text b)"
proof -
  obtain x where b: "b = x @ [NUL]"
    using assms
    by (auto simp: read_file_into_buffer_def rbind_eq_Inr Let_def split: option.splits if_splits)
  have "dropWhile (\<lambda>c. c \<noteq> NUL) b \<noteq> []" by (simp add: b)
  then have "dropWhile (\<lambda>c. c \<noteq> NUL) b = NUL # tl (dropWhile (\<lambda>c. c \<noteq> NUL) b)"
    using hd_dropWhile [of "\<lambda>c. c \<noteq> NUL" b] by (cases "dropWhile (\<lambda>c. c \<noteq> NUL) b") auto
  then have "b = [] @ csv_text b @ NUL # tl (dropWhile (\<lambda>c. c \<noteq> NUL) b)"
    by (metis append_Nil csv_text_def takeWhile_dropWhile_id)
  moreover have "NUL \<notin> set (csv_text b)"
    by (auto simp: csv_text_def dest: set_takeWhileD)
  ultimately show ?thesis by (metis holdsI list.size(3))
qed

lemma csv_lines_ConsD:
  assumes "csv_lines s = l # ls"
  obtains r where "split_line s = Some (l, r)" and "csv_lines r = ls"
  using assms by (cases "split_line s") (auto simp: csv_lines_None csv_lines_Some)

lemma load_header_holds:
  assumes "schema_ok schema" and h: "holds b p h" and d: "NUL \<notin> set d"
    and xs: "xs = take MAX_COLS (tokens d h)"
    and good: "\<And>c t. length (col_name c) = 64 \<Longrightarrow> t \<in> set xs \<Longrightarrow>
      cells_string (col_name (setc c t)) = Inr (nm t) \<and> is_int (setc c t) = 1"
  shows "\<exists>schema' b'. load_header setc d b p schema = Inr (schema', length xs, b') \<and>
    schema_rep schema' (map nm xs) (replicate (length xs) True) \<and>
    length b' = length b \<and> (\<forall>j. j < p \<or> p + length h \<le> j \<longrightarrow> b' ! j = b ! j)"
proof -
  from tok_for_holds [OF h d xs, where f = "header_body setc"]
  obtain ps b' where tk: "length ps = length xs"
    "\<And>acc. tok_for d (header_body setc) MAX_COLS b p acc =
      rbind (fold_body (header_body setc) 0 (zip ps xs) acc) (\<lambda>acc. Inr (acc, length xs, b'))"
    "length b' = length b" "\<forall>j. j < p \<or> p + length h \<le> j \<longrightarrow> b' ! j = b ! j"
    by blast
  have "length xs \<le> MAX_COLS" by (simp add: xs)
  with header_schema_rep [where setc = setc and nm = nm, OF assms(1) _ tk(1)] good
  obtain schema' where
    "fold_body (header_body setc) 0 (zip ps xs) schema = Inr schema'"
    "schema_rep schema' (map nm xs) (replicate (length xs) True)"
    by blast
  with tk(2-4) show ?thesis by (auto simp: load_header_def)
qed

lemma header_loaded:
  assumes "schema_ok schema" and h: "holds b p h"
  shows "\<exists>schema' b'. load_header set_column '','' b p schema = Inr (schema', length (header_names h), b') \<and>
    schema_rep schema' (header_names h) (replicate (length (header_names h)) True) \<and>
    length b' = length b \<and> (\<forall>j. j < p \<or> p + length h \<le> j \<longrightarrow> b' ! j = b ! j)"
proof -
  have "NUL \<notin> set h" using h by (simp add: holds_def)
  then have "\<forall>t \<in> set (take MAX_COLS (tokens '','' h)). NUL \<notin> set t"
    by (auto dest!: in_set_takeD tokens_set)
  then have "cells_string (col_name (set_column c t)) = Inr (take 63 t) \<and> is_int (set_column c t) = 1"
    if "length (col_name c) = 64" "t \<in> set (take MAX_COLS (tokens '','' h))" for c t
    using set_column_name(1) [OF that(1), of t] that(2) by (simp add: set_column_def)
  from load_header_holds [OF assms _ refl this] show ?thesis
    by (simp add: header_names_def)
qed

lemma infer_types_holds:
  assumes rep: "schema_rep schema names (replicate (length names) True)" and h: "holds b p l"
    and d: "NUL \<notin> set d" and ts: "ts = take (length names) (tokens d l)"
  shows "\<exists>ps toks schema' b'.
    infer_types d (length names) b p schema = Inr ((toks, schema'), length ts, b') \<and>
    length toks = MAX_COLS \<and> length ps = length ts \<and>
    (\<forall>i < MAX_COLS. toks ! i = (if i < length ps then Some (ps ! i) else None)) \<and>
    schema_rep schema' names (column_types (length names) ts) \<and>
    list_all2 (holds b') ps ts \<and>
    length b' = length b \<and> (\<forall>j. j < p \<or> p + length l \<le> j \<longrightarrow> b' ! j = b ! j)"
proof -
  from tok_for_holds [OF h d ts, where f = infer_body]
  obtain ps b' where tk: "length ps = length ts"
    "\<And>acc. tok_for d infer_body (length names) b p acc =
      rbind (fold_body infer_body 0 (zip ps ts) acc) (\<lambda>acc. Inr (acc, length ts, b'))"
    "list_all2 (holds b') ps ts"
    "length b' = length b" "\<forall>j. j < p \<or> p + length l \<le> j \<longrightarrow> b' ! j = b ! j"
    by blast
  have "length ts \<le> length names" by (simp add: ts)
  from infer_schema_rep [OF rep this tk(1)] tk show ?thesis
    by (fastforce simp: infer_types_def)
qed

lemma token_array:
  assumes "length toks = MAX_COLS" and "length ps = length ts"
    and "\<forall>i < MAX_COLS. toks ! i = (if i < length ps then Some (ps ! i) else None)"
    and "list_all2 (holds b) ps ts" and "length ts \<le> MAX_COLS"
  shows "\<forall>i < length ts. i < length toks \<and> toks ! i = Some (ps ! i) \<and> holds b (ps ! i) (ts ! i)"
proof (intro allI impI)
  fix i assume i: "i < length ts"
  then have "i < MAX_COLS" using assms(5) by simp
  moreover have "holds b (ps ! i) (ts ! i)" using assms(2,4) i by (simp add: list_all2_nthD2)
  moreover have "i < length ps" using i assms(2) by simp
  ultimately show "i < length toks \<and> toks ! i = Some (ps ! i) \<and> holds b (ps ! i) (ts ! i)"
    using assms(1) assms(3) [rule_format, of i] by simp
qed

lemma token_array_end:
  assumes "length toks = MAX_COLS" and "length ps = length ts"
    and "\<forall>i < MAX_COLS. toks ! i = (if i < length ps then Some (ps ! i) else None)"
    and "length ts < MAX_COLS"
  shows "idx toks (length ts) = Inr None"
  using assms(1,2,4) assms(3) [rule_format, of "length ts"] by (simp add: idx_def)

lemma load_prefix:
  assumes ok: "schema_ok schema"
    and rf: "read_file_into_buffer mal env st = Inr (Some (p, b), st')"
    and ls: "csv_lines (csv_text b) = h # l1 # ls"
    and names: "names = header_names h" and ts: "ts = row_values (length names) l1"
  obtains toks schema' ps b2 p2 r2 where
    "load_dataset_generic mal env ex schema ns cl st =
      rbind (store_first_row (command ex) b2 schema' toks (length names)
          (fold (send ex) (schema_cmds names (column_types (length names) ts)) cl))
        (\<lambda>cl. rbind (load_rows ex schema' (length names) b2 p2 1 cl)
          (\<lambda>(row, cl). Inr (row, schema', int (length names), cl, st')))"
    and "schema_rep schema' names (column_types (length names) ts)"
    and "\<forall>i < length ts. i < length toks \<and> toks ! i = Some (ps ! i) \<and> holds b2 (ps ! i) (ts ! i)"
    and "length ts < length names \<longrightarrow> idx toks (length ts) = Inr None"
    and "holds b2 p2 r2" and "csv_lines r2 = ls"
proof -
  obtain r1 r2 where sp: "split_line (csv_text b) = Some (h, r1)" "split_line r1 = Some (l1, r2)"
    and ls2: "csv_lines r2 = ls"
    using ls by (auto elim!: csv_lines_ConsD)
  obtain b1 p1 where n1: "next_line b 0 = Inr (Some 0, b1, p1)" "holds b1 0 h" "holds b1 p1 r1"
    "0 + length h \<le> p1"
    using next_line_Some [OF read_file_holds [OF rf] sp(1)] by blast
  obtain sch1 b2 where hd: "load_header set_column '','' b1 0 schema = Inr (sch1, length names, b2)"
    "schema_rep sch1 names (replicate (length names) True)" "length b2 = length b1"
    "\<forall>j. j < 0 \<or> 0 + length h \<le> j \<longrightarrow> b2 ! j = b1 ! j"
    using header_loaded [OF ok n1(2)] unfolding names by blast
  have "holds b2 p1 r1"
    by (rule holds_frame [OF n1(3) hd(3)]) (use n1(4) hd(4) in auto)
  from next_line_Some [OF this sp(2)]
  obtain b3 p2 where n2: "next_line b2 p1 = Inr (Some p1, b3, p2)" "holds b3 p1 l1" "holds b3 p2 r2"
    "p1 + length l1 \<le> p2"
    by blast
  have "NUL \<notin> set '',''" by simp
  from infer_types_holds [OF hd(2) n2(2) this ts [unfolded row_values_def]]
  obtain ps toks schema' b4 where inf:
    "infer_types '','' (length names) b3 p1 sch1 = Inr ((toks, schema'), length ts, b4)"
    "length toks = MAX_COLS" "length ps = length ts"
    "\<forall>i < MAX_COLS. toks ! i = (if i < length ps then Some (ps ! i) else None)"
    "schema_rep schema' names (column_types (length names) ts)"
    "list_all2 (holds b4) ps ts" "length b4 = length b3"
    "\<forall>j. j < p1 \<or> p1 + length l1 \<le> j \<longrightarrow> b4 ! j = b3 ! j"
    by blast
  have h4: "holds b4 p2 r2"
    by (rule holds_frame [OF n2(3) inf(7)]) (use n2(4) inf(8) in auto)
  have "load_dataset_generic mal env ex schema ns cl st =
      rbind (store_first_row (command ex) b4 schema' toks (length names)
          (fold (send ex) (schema_cmds names (column_types (length names) ts)) cl))
        (\<lambda>cl. rbind (load_rows ex schema' (length names) b4 p2 1 cl)
          (\<lambda>(row, cl). Inr (row, schema', int (length names), cl, st')))"
    by (simp add: load_dataset_generic_def rf n1(1) hd(1) n2(1) inf(1)
        store_schema_sends [OF inf(5)] pc_command)
  moreover have cap: "length names \<le> MAX_COLS" by (simp add: names header_names_def)
  then have "length ts < length names \<longrightarrow> idx toks (length ts) = Inr None"
    using token_array_end [OF inf(2-4)] by simp
  moreover have "length ts \<le> MAX_COLS" using cap by (simp add: ts row_values_def)
  note token_array [OF inf(2-4,6) this]
  ultimately show thesis
    using inf(5) h4 ls2 by (intro that)
qed

text \<open>Everything the loader sends, from the header, the first row and the other lines.\<close>

definition load_cmds :: "string \<Rightarrow> string \<Rightarrow> string list \<Rightarrow> (string \<times> string list) list" where
  "load_cmds h l1 ls =
     (let names = header_names h; cols = length names; ts = row_values cols l1
      in schema_cmds names (column_types cols ts) @ rows_cmds names 1 (ts # data_rows cols ls))"

lemma load_dataset_run:
  assumes ok: "schema_ok schema"
    and rf: "read_file_into_buffer mal env st = Inr (Some (p, b), st')"
    and ls: "csv_lines (csv_text b) = h # l1 # ls"
    and full: "length (header_names h) \<le> length (tokens '','' l1)"
    and rows: "int (length (data_rows (length (header_names h)) ls)) < 2 ^ 31 - 1"
  shows "\<exists>schema'. load_dataset_generic mal env ex schema ns cl st =
      Inr (1 + int (length (data_rows (length (header_names h)) ls)), schema',
           int (length (header_names h)), fold (send ex) (load_cmds h l1 ls) cl, st') \<and>
    schema_rep schema' (header_names h)
      (column_types (length (header_names h)) (row_values (length (header_names h)) l1))"
proof -
  let ?names = "header_names h"
  let ?ts = "row_values (length ?names) l1"
  obtain toks schema' ps b2 p2 r2 where pre:
    "load_dataset_generic mal env ex schema ns cl st =
      rbind (store_first_row (command ex) b2 schema' toks (length ?names)
          (fold (send ex) (schema_cmds ?names (column_types (length ?names) ?ts)) cl))
        (\<lambda>cl. rbind (load_rows ex schema' (length ?names) b2 p2 1 cl)
          (\<lambda>(row, cl). Inr (row, schema', int (length ?names), cl, st')))"
    "schema_rep schema' ?names (column_types (length ?names) ?ts)"
    "\<forall>i < length ?ts. i < length toks \<and> toks ! i = Some (ps ! i) \<and> holds b2 (ps ! i) (?ts ! i)"
    "holds b2 p2 r2" "csv_lines r2 = ls"
    by (rule load_prefix [OF ok rf ls refl refl])
  have len: "length ?ts = length ?names" using full by (simp add: row_values_def)
  note first = store_first_row_sends [OF pre(2) len pre(3), of "command ex", unfolded pc_command]
  have "(1 :: int) + int (length (data_rows (length ?names) (csv_lines r2))) < 2 ^ 31"
    using rows by (simp add: pre(5))
  note rest = load_rows_holds [OF pre(2,4) _ this, unfolded pre(5), simplified]
  show ?thesis
    by (rule exI [of _ schema'], simp only: pre(1) first rbind_Inr rest)
      (simp add: load_cmds_def Let_def pre(2))
qed

text \<open>
  C3: on a CSV file whose first row has a value for every column, the loader never leaves the
  file buffer, the arrays or the arena, and returns the number of non-empty rows. It sends
  exactly: the deletion of the old schema; one \<open>HSET\<close> per column with the name (cut to 63
  bytes) and type; one \<open>HSET\<close> per field of every row, under the key of the row's number. The
  caller's schema then represents these names and types, and every reply has been freed.
\<close>

theorem load_dataset_refines:
  assumes "schema_ok schema"
    and "read_file_into_buffer mal env st = Inr (Some (p, b), st')"
    and "csv_lines (csv_text b) = h # l1 # ls"
    and "length (header_names h) \<le> length (tokens '','' l1)"
    and "int (length (data_rows (length (header_names h)) ls)) < 2 ^ 31 - 1"
  shows "\<exists>schema' cl'. load_dataset_generic mal env ex schema ns cl st =
      Inr (1 + int (length (data_rows (length (header_names h)) ls)), schema',
           int (length (header_names h)), cl', st') \<and>
    sent cl' = sent cl @ load_cmds h l1 ls \<and> live cl' = live cl \<and>
    schema_rep schema' (header_names h)
      (column_types (length (header_names h)) (row_values (length (header_names h)) l1))"
  using load_dataset_run [OF assms] sent_sends live_sends by metis

text \<open>
  C28: if the first row has fewer values than the header has columns, the loader sends an
  uninitialised pointer: it reads \<open>tokens\<close> past the entries the inference loop has set.
\<close>

theorem load_short_first_row:
  assumes "schema_ok schema"
    and "read_file_into_buffer mal env st = Inr (Some (p, b), st')"
    and "csv_lines (csv_text b) = h # l1 # ls"
    and "length (tokens '','' l1) < length (header_names h)"
  shows "load_dataset_generic mal env ex schema ns cl st = Inl UninitRead"
proof -
  let ?names = "header_names h"
  let ?ts = "row_values (length ?names) l1"
  obtain toks schema' ps b2 p2 r2 where pre:
    "load_dataset_generic mal env ex schema ns cl st =
      rbind (store_first_row (command ex) b2 schema' toks (length ?names)
          (fold (send ex) (schema_cmds ?names (column_types (length ?names) ?ts)) cl))
        (\<lambda>cl. rbind (load_rows ex schema' (length ?names) b2 p2 1 cl)
          (\<lambda>(row, cl). Inr (row, schema', int (length ?names), cl, st')))"
    "schema_rep schema' ?names (column_types (length ?names) ?ts)"
    "\<forall>i < length ?ts. i < length toks \<and> toks ! i = Some (ps ! i) \<and> holds b2 (ps ! i) (?ts ! i)"
    "length ?ts < length ?names \<longrightarrow> idx toks (length ?ts) = Inr None"
    by (rule load_prefix [OF assms(1-3) refl refl])
  have short: "length ?ts < length ?names" using assms(4) by (simp add: row_values_def)
  then have "idx toks (length ?ts) = Inr None" using pre(4) by simp
  note fault = store_first_row_short [OF pre(2) short pre(3) this]
  show ?thesis by (simp only: pre(1) fault rbind_Inl)
qed

text \<open>A dataset to try them on.\<close>

definition sample_csv :: string where
  "sample_csv = ''id,name'' @ [LF] @ ''1,ann'' @ [CR, LF, LF] @ ''2,bob'' @ [LF]"

definition sample_env :: file_env where
  "sample_env = \<lparr>stat_size = Some 22, contents = Some sample_csv\<rparr>"

lemma sample_read:
  "read_file_into_buffer (\<lambda>h _. (0, h)) sample_env sample_arena =
    Inr (Some (0x10000400, sample_csv @ [NUL]), sample_arena\<lparr>gArenaCur := 0x10000417\<rparr>)"
  by (simp add: read_file_into_buffer_def sample_env_def sample_csv_def sample_arena_def
      fpga_alloc_def align_up_def ALIGN_def)

lemma sample_lines:
  "csv_lines (csv_text (sample_csv @ [NUL])) = [''id,name'', ''1,ann'', [], ''2,bob'']"
  by (simp add: csv_lines.simps split_line_def chomp_cr_def csv_text_def sample_csv_def)

lemma sample_tokens:
  "tokens '','' ''id,name'' = [''id'', ''name'']" "tokens '','' ''1,ann'' = [''1'', ''ann'']"
  "tokens '','' ''2,bob'' = [''2'', ''bob'']" "tokens '','' ''1'' = [''1'']"
  by (simp_all add: tokens.simps next_tok_def)

lemma sample_names: "header_names ''id,name'' = [''id'', ''name'']"
  by (simp add: header_names_def sample_tokens MAX_COLS_def)

lemma fresh_schema_ok: "schema_ok fresh_schema"
  by (simp add: schema_ok_def fresh_schema_def fresh_column_def)

theorem load_dataset_refines_witness:
  "\<exists>schema' cl'. load_dataset_generic (\<lambda>h _. (0, h)) sample_env (\<lambda>s _ _. (None, s)) fresh_schema 0
      \<lparr>server = (), live = 0, sent = []\<rparr> sample_arena =
    Inr (2, schema', 2, cl', sample_arena\<lparr>gArenaCur := 0x10000417\<rparr>) \<and>
    sent cl' = [(''DEL schema'', []), (''HSET schema %s %s'', [''id'', ''int'']),
      (''HSET schema %s %s'', [''name'', ''string'']),
      (''HSET %s %s %s'', [''row:1'', ''id'', ''1'']), (''HSET %s %s %s'', [''row:1'', ''name'', ''ann'']),
      (''HSET %s %s %s'', [''row:2'', ''id'', ''2'']), (''HSET %s %s %s'', [''row:2'', ''name'', ''bob''])]"
proof -
  have keys: "row_key 1 = ''row:1''" "row_key 2 = ''row:2''"
    by (code_simp, code_simp)
  have types: "column_types 2 [''1'', ''ann''] = [True, False]"
    by (simp add: column_types_def upt_rec)
  have "load_cmds ''id,name'' ''1,ann'' [[], ''2,bob''] =
    [(''DEL schema'', []), (''HSET schema %s %s'', [''id'', ''int'']),
      (''HSET schema %s %s'', [''name'', ''string'']),
      (''HSET %s %s %s'', [''row:1'', ''id'', ''1'']), (''HSET %s %s %s'', [''row:1'', ''name'', ''ann'']),
      (''HSET %s %s %s'', [''row:2'', ''id'', ''2'']), (''HSET %s %s %s'', [''row:2'', ''name'', ''bob''])]"
    by (simp add: load_cmds_def sample_names row_values_def sample_tokens data_rows_def
        schema_cmds_def types row_cmds_def keys numeral_2_eq_2 [symmetric])
  with load_dataset_refines [OF fresh_schema_ok sample_read sample_lines, of "\<lambda>s _ _. (None, s)" 0
      "\<lparr>server = (), live = 0, sent = []\<rparr>"]
  show ?thesis
    by (simp add: sample_names sample_tokens data_rows_def) metis
qed

theorem load_short_first_row_witness:
  "load_dataset_generic (\<lambda>h _. (0, h)) \<lparr>stat_size = Some 9, contents = Some (''id,name'' @ [LF] @ ''1'')\<rparr>
    (\<lambda>s _ _. (None, s)) fresh_schema 0 \<lparr>server = (), live = 0, sent = []\<rparr> sample_arena = Inl UninitRead"
proof -
  have rd: "read_file_into_buffer (\<lambda>h _. (0, h))
      \<lparr>stat_size = Some 9, contents = Some (''id,name'' @ [LF] @ ''1'')\<rparr> sample_arena =
    Inr (Some (0x10000400, ''id,name'' @ [LF] @ ''1'' @ [NUL]), sample_arena\<lparr>gArenaCur := 0x1000040A\<rparr>)"
    by (simp add: read_file_into_buffer_def sample_arena_def fpga_alloc_def align_up_def ALIGN_def)
  have ls: "csv_lines (csv_text (''id,name'' @ [LF] @ ''1'' @ [NUL])) = [''id,name'', ''1'']"
    by (simp add: csv_lines.simps split_line_def chomp_cr_def csv_text_def)
  show ?thesis
    by (rule load_short_first_row [OF fresh_schema_ok rd ls]) (simp add: sample_names sample_tokens)
qed

text \<open>
  A file without a text returns 0 rows with nothing sent and the caller's schema and
  column count untouched; a file with a header only returns 0 rows with nothing sent, but the
  schema and column count set.
\<close>

lemma load_without_rows:
  assumes "schema_ok schema"
    and "read_file_into_buffer mal env st = Inr (Some (p, b), st')"
  shows "(csv_text b = [] \<longrightarrow>
      load_dataset_generic mal env ex schema ns cl st = Inr (0, schema, ns, cl, st')) \<and>
    (csv_lines (csv_text b) = [h] \<longrightarrow>
      (\<exists>schema'. load_dataset_generic mal env ex schema ns cl st =
         Inr (0, schema', int (length (header_names h)), cl, st') \<and>
       schema_rep schema' (header_names h) (replicate (length (header_names h)) True)))"
proof (intro conjI impI)
  assume "csv_text b = []"
  then show "load_dataset_generic mal env ex schema ns cl st = Inr (0, schema, ns, cl, st')"
    using next_line_None [OF read_file_holds [OF assms(2)]]
    by (simp add: load_dataset_generic_def assms(2) split_line_def)
next
  assume "csv_lines (csv_text b) = [h]"
  then obtain r where sp: "split_line (csv_text b) = Some (h, r)" and "csv_lines r = []"
    by (rule csv_lines_ConsD)
  then have r: "split_line r = None" by (cases "split_line r") (auto simp: csv_lines_Some)
  obtain b1 p1 where n1: "next_line b 0 = Inr (Some 0, b1, p1)" "holds b1 0 h" "holds b1 p1 r"
    "0 + length h \<le> p1"
    using next_line_Some [OF read_file_holds [OF assms(2)] sp] by blast
  obtain schema' b2 where hd: "load_header set_column '','' b1 0 schema = Inr (schema', length (header_names h), b2)"
    "schema_rep schema' (header_names h) (replicate (length (header_names h)) True)"
    "length b2 = length b1" "\<forall>j. j < 0 \<or> 0 + length h \<le> j \<longrightarrow> b2 ! j = b1 ! j"
    using header_loaded [OF assms(1) n1(2)] by blast
  have "holds b2 p1 r"
    by (rule holds_frame [OF n1(3) hd(3)]) (use n1(4) hd(4) in auto)
  from next_line_None [OF this r]
  have "load_dataset_generic mal env ex schema ns cl st =
      Inr (0, schema', int (length (header_names h)), cl, st')"
    by (simp add: load_dataset_generic_def assms(2) n1(1) hd(1))
  with hd(2) show "\<exists>schema'. load_dataset_generic mal env ex schema ns cl st =
         Inr (0, schema', int (length (header_names h)), cl, st') \<and>
       schema_rep schema' (header_names h) (replicate (length (header_names h)) True)"
    by blast
qed

end
