(* ===== verification/RedisQueries.thy ===== *)
theory RedisQueries
  imports RedisFpga Complex_Main
begin

text \<open>
  The queries of \<open>redis_fpga.c\<close>, the persistence switch, the memory report and \<open>main\<close>.
  Floating point is a parameter: \<open>fp\<close> has the operations on \<open>double\<close> the program uses. What
  is proved holds for any of them.
\<close>

section \<open>Selection by a pseudo-random key\<close>

record 'd fp =
  of_i :: "int \<Rightarrow> 'd"
  add_d :: "'d \<Rightarrow> 'd \<Rightarrow> 'd"
  mul_d :: "'d \<Rightarrow> 'd \<Rightarrow> 'd"
  div_d :: "'d \<Rightarrow> 'd \<Rightarrow> 'd"
  sqrt_d :: "'d \<Rightarrow> 'd"
  log_d :: "'d \<Rightarrow> 'd"
  cos_d :: "'d \<Rightarrow> 'd"
  pi_d :: 'd
  trunc_d :: "'d \<Rightarrow> int"

text \<open>The C library's generator: \<open>srand\<close> and \<open>rand\<close> on a state, and \<open>RAND_MAX\<close>.\<close>

record 'g generator =
  srand :: "int \<Rightarrow> 'g"
  rand :: "'g \<Rightarrow> int \<times> 'g"
  RAND_MAX :: int

text \<open>The static \<open>seeded\<close> and the generator's state.\<close>

record 'g gauss =
  seeded :: bool
  gen :: 'g

text \<open>The \<open>double\<close> that is cut to an \<open>int\<close>, from the two numbers drawn.\<close>

definition gauss_value :: "'d fp \<Rightarrow> int \<Rightarrow> int \<Rightarrow> int \<Rightarrow> int \<Rightarrow> 'd" where
  "gauss_value F rmax rows r1 r2 =
     (let one = of_i F 1;
          u1 = div_d F (add_d F (of_i F r1) one) (add_d F (of_i F rmax) one);
          u2 = div_d F (add_d F (of_i F r2) one) (add_d F (of_i F rmax) one);
          z = mul_d F (sqrt_d F (mul_d F (of_i F (- 2)) (log_d F u1)))
                (cos_d F (mul_d F (mul_d F (of_i F 2) (pi_d F)) u2))
      in add_d F (div_d F (of_i F rows) (of_i F 2))
           (mul_d F (div_d F (of_i F rows) (of_i F 6)) z))"

text \<open>The conversion to \<open>int\<close> is undefined out of range.\<close>

definition to_int :: "'d fp \<Rightarrow> 'd \<Rightarrow> int res" where
  "to_int F x = (if fits 32 (trunc_d F x) then Inr (trunc_d F x) else Inl SignedOverflow)"

definition gaussian_key ::
  "'d fp \<Rightarrow> 'g generator \<Rightarrow> int \<Rightarrow> 'g gauss \<Rightarrow> (int \<times> 'g gauss) res" where
  "gaussian_key F R rows st =
     (let st = (if \<not> seeded st then st\<lparr>gen := srand R 42, seeded := True\<rparr> else st);
          (r1, g) = rand R (gen st);
          (r2, g) = rand R g
      in rbind (to_int F (gauss_value F (RAND_MAX R) rows r1 r2)) (\<lambda>key.
           let key = (if key < 1 then 1 else key);
               key = (if rows < key then rows else key)
           in Inr (key, st\<lparr>gen := g\<rparr>)))"

section \<open>Time\<close>

text \<open>\<open>gettimeofday\<close> delivers seconds and microseconds; the sum is a \<open>long long\<close>.\<close>

definition now_us :: "int \<times> int \<Rightarrow> int res" where
  "now_us tv = (let s = fst tv * 1000000 in if fits 64 s then sadd 64 s (snd tv) else Inl SignedOverflow)"

definition timed :: "int \<times> int \<Rightarrow> int \<times> int \<Rightarrow> 'a res \<Rightarrow> (int \<times> 'a) res" where
  "timed tv1 tv2 body =
     rbind (now_us tv1) (\<lambda>t1. rbind body (\<lambda>x. rbind (now_us tv2) (\<lambda>t2.
       rbind (sadd 64 t2 (- t1)) (\<lambda>t. Inr (t, x)))))"

section \<open>The selections\<close>

definition hgetall :: "'s exec \<Rightarrow> int \<Rightarrow> 's client \<Rightarrow> redisReply option \<times> 's client" where
  "hgetall ex row cl = redisCommand ex ''HGETALL %s'' [row_key row] cl"

fun gauss_loop ::
  "'d fp \<Rightarrow> 'g generator \<Rightarrow> 's exec \<Rightarrow> int \<Rightarrow> nat \<Rightarrow> 'g gauss \<Rightarrow> 's client \<Rightarrow> ('g gauss \<times> 's client) res"
where
  "gauss_loop F R ex rows 0 st cl = Inr (st, cl)"
| "gauss_loop F R ex rows (Suc n) st cl =
     rbind (gaussian_key F R rows st) (\<lambda>(id, st).
       let (r, cl) = hgetall ex id cl
       in gauss_loop F R ex rows n st (freeReplyObject r cl))"

definition query_select_gaussian ::
  "'d fp \<Rightarrow> 'g generator \<Rightarrow> 's exec \<Rightarrow> int \<times> int \<Rightarrow> int \<times> int \<Rightarrow> int \<Rightarrow> 'g gauss \<Rightarrow> 's client \<Rightarrow>
   (int \<times> 'g gauss \<times> 's client) res" where
  "query_select_gaussian F R ex tv1 tv2 rows st cl =
     timed tv1 tv2 (gauss_loop F R ex rows (nat rows) st cl)"

text \<open>
  The loop of the other queries over the rows 1 to \<open>rows\<close>; the \<open>int\<close> counter overflows behind
  the last row if that is \<open>INT_MAX\<close>.
\<close>

definition row_ids :: "int \<Rightarrow> int list" where
  "row_ids rows = map (\<lambda>i. 1 + int i) [0..<nat rows]"

definition row_loop :: "(int \<Rightarrow> 'a \<Rightarrow> 'a res) \<Rightarrow> int \<Rightarrow> 'a \<Rightarrow> 'a res" where
  "row_loop f rows acc =
     rbind (fold_res f (row_ids rows) acc)
       (\<lambda>acc. if rows = 2 ^ 31 - 1 then Inl SignedOverflow else Inr acc)"

definition query_select_all ::
  "'s exec \<Rightarrow> int \<times> int \<Rightarrow> int \<times> int \<Rightarrow> int \<Rightarrow> 's client \<Rightarrow> (int \<times> 's client) res" where
  "query_select_all ex tv1 tv2 rows cl =
     timed tv1 tv2
       (row_loop (\<lambda>i cl. let (r, cl) = hgetall ex i cl in Inr (freeReplyObject r cl)) rows cl)"

section \<open>The sums\<close>

text \<open>
  The inner loop over the elements of a reply, two at a time, and the loop over the columns.
  \<open>long long\<close> additions that overflow are undefined.
\<close>

fun pairs_loop :: "Column list \<Rightarrow> nat \<Rightarrow> redisReply option list \<Rightarrow> int \<Rightarrow> int res" where
  "pairs_loop schema s (k # v # es) acc =
     rbind
       (case Option.bind k rstr of
          None \<Rightarrow> Inr acc
        | Some key \<Rightarrow>
            rbind (column_name schema s) (\<lambda>n.
              if n = key then
                (case Option.bind v rstr of None \<Rightarrow> Inr acc | Some t \<Rightarrow> sadd 64 acc (atoll t))
              else Inr acc))
       (\<lambda>acc. pairs_loop schema s es acc)"
| "pairs_loop schema s es acc = Inr acc"

definition columns_loop :: "Column list \<Rightarrow> nat \<Rightarrow> redisReply \<Rightarrow> int \<Rightarrow> int res" where
  "columns_loop schema ns r acc =
     fold_res (\<lambda>s acc. rbind (idx schema s) (\<lambda>c.
         if is_int c = 0 then Inr acc else pairs_loop schema s (element r) acc)) [0..<ns] acc"

definition projection_row ::
  "'s exec \<Rightarrow> Column list \<Rightarrow> nat \<Rightarrow> int \<Rightarrow> int \<times> int \<times> 's client \<Rightarrow> (int \<times> int \<times> 's client) res" where
  "projection_row ex schema ns i = (\<lambda>(total, count, cl).
     let (r, cl) = hgetall ex i cl
     in case r of
          None \<Rightarrow> Inr (total, count, cl)
        | Some rep \<Rightarrow>
            if rtype rep \<noteq> REDIS_REPLY_ARRAY then Inr (total, count, freeReplyObject r cl)
            else rbind (columns_loop schema ns rep 0) (\<lambda>row_sum.
                 rbind (sadd 64 total row_sum) (\<lambda>total.
                 rbind (sadd 32 count 1) (\<lambda>count. Inr (total, count, freeReplyObject r cl)))))"

text \<open>The query returns the time; the average it prints is returned with it.\<close>

definition query_projection_generic ::
  "'d fp \<Rightarrow> 's exec \<Rightarrow> int \<times> int \<Rightarrow> int \<times> int \<Rightarrow> int \<Rightarrow> Column list \<Rightarrow> int \<Rightarrow> 's client \<Rightarrow>
   (int \<times> 'd \<times> 's client) res" where
  "query_projection_generic F ex tv1 tv2 rows schema ns cl =
     timed tv1 tv2
       (rbind (row_loop (projection_row ex schema (nat ns)) rows (0, 0, cl))
         (\<lambda>(total, count, cl).
            Inr (if count \<noteq> 0 then div_d F (of_i F total) (of_i F count) else of_i F 0, cl)))"

definition aggregation_row ::
  "'s exec \<Rightarrow> Column list \<Rightarrow> nat \<Rightarrow> int \<Rightarrow> int \<times> 's client \<Rightarrow> (int \<times> 's client) res" where
  "aggregation_row ex schema ns i = (\<lambda>(sum, cl).
     let (r, cl) = hgetall ex i cl
     in case r of
          None \<Rightarrow> Inr (sum, cl)
        | Some rep \<Rightarrow>
            if rtype rep \<noteq> REDIS_REPLY_ARRAY then Inr (sum, freeReplyObject r cl)
            else rbind (columns_loop schema ns rep sum) (\<lambda>sum. Inr (sum, freeReplyObject r cl)))"

definition query_aggregation_generic ::
  "'s exec \<Rightarrow> int \<times> int \<Rightarrow> int \<times> int \<Rightarrow> int \<Rightarrow> Column list \<Rightarrow> int \<Rightarrow> 's client \<Rightarrow>
   (int \<times> int \<times> 's client) res" where
  "query_aggregation_generic ex tv1 tv2 rows schema ns cl =
     timed tv1 tv2 (row_loop (aggregation_row ex schema (nat ns)) rows (0, cl))"

section \<open>Persistence and the memory report\<close>

definition set_persistence :: "'s exec \<Rightarrow> bool \<Rightarrow> 's client \<Rightarrow> 's client" where
  "set_persistence ex persistent cl =
     (if \<not> persistent then
        (let cl = command ex ''CONFIG SET save \"\"'' [] cl
         in command ex ''CONFIG SET appendonly no'' [] cl)
      else
        (let cl = command ex ''CONFIG SET appendonly yes'' [] cl;
             cl = command ex ''CONFIG SET appendfsync everysec'' [] cl
         in command ex ''CONFIG SET save \"60 1\"'' [] cl))"

text \<open>
  One line of the report, appended to what is printed. The copy \<open>strdup\<close> makes is cut into
  lines in place; \<open>dup_ok\<close> says whether it got memory.
\<close>

definition report_line :: "nat \<Rightarrow> nat \<Rightarrow> string \<Rightarrow> string list \<Rightarrow> string list res" where
  "report_line i p line out =
     (let out = (if take 12 line = ''used_memory:''
                 then out @ [''Raw Bytes Used: '' @ drop 12 line] else out);
          out = (if take 18 line = ''used_memory_human:''
                 then out @ [''Human Readable: '' @ drop 18 line] else out)
      in Inr out)"

definition print_memory :: "'s exec \<Rightarrow> bool \<Rightarrow> 's client \<Rightarrow> (string list \<times> 's client) res" where
  "print_memory ex dup_ok cl =
     (let (reply, cl) = redisCommand ex ''INFO memory'' [] cl
      in case reply of
           None \<Rightarrow> Inr ([], cl)
         | Some rep \<Rightarrow>
             (case rstr rep of
                None \<Rightarrow> Inr ([], freeReplyObject reply cl)
              | Some s \<Rightarrow>
                  (let cl = freeReplyObject reply cl
                   in if \<not> dup_ok then Inr ([], cl)
                      else rbind (tok_for [LF] report_line (length s + 1) (s @ [NUL]) 0 [])
                             (\<lambda>(out, i, b). Inr (out, cl)))))"

section \<open>The program\<close>

text \<open>
  What the program meets: the results of \<open>open\<close> and \<open>mmap\<close> on the device, \<open>malloc\<close>, the data
  file, whether the connection is made, the clock readings around each of the four queries,
  and whether \<open>strdup\<close> succeeds.
\<close>

datatype connection = No_context | Context_error | Connected

record 'h redis_env =
  dev_fd :: int
  dev_map :: "u64 option"
  malloc_of :: "'h \<Rightarrow> u64 \<Rightarrow> u64 \<times> 'h"
  data_file :: file_env
  conn :: connection
  clock :: "nat \<Rightarrow> (int \<times> int) \<times> (int \<times> int)"
  dup_of :: bool

text \<open>A result line: the time, the average over the rows, the cost relative to the first query.\<close>

definition summary_line :: "'d fp \<Rightarrow> int \<Rightarrow> 'd \<Rightarrow> int \<Rightarrow> int \<times> 'd \<times> 'd" where
  "summary_line F rows cost t = (t, div_d F (of_i F t) (of_i F rows), cost)"

definition summary_lines :: "'d fp \<Rightarrow> int \<Rightarrow> int \<Rightarrow> int list \<Rightarrow> (int \<times> 'd \<times> 'd) list" where
  "summary_lines F rows t0 ts =
     summary_line F rows (of_i F 1) t0 #
     map (\<lambda>t. summary_line F rows (div_d F (of_i F t) (of_i F t0)) t) ts"

record ('s, 'h, 'd) outcome =
  status :: int
  device :: string
  client_of :: "'s client option"
  arena_of :: "'h arena"
  row_count :: "int option"
  average :: "'d option"
  total_sum :: "int option"
  summary :: "(int \<times> 'd \<times> 'd) list"
  report :: "string list"

definition redis_main ::
  "'d fp \<Rightarrow> 'g generator \<Rightarrow> 's exec \<Rightarrow> 'h redis_env \<Rightarrow> string list \<Rightarrow> 'g gauss \<Rightarrow> 's \<Rightarrow> 'h arena \<Rightarrow>
   ('s, 'h, 'd) outcome res" where
  "redis_main F R ex env argv g s st =
     (let argc = length argv;
          dev = (if 5 \<le> argc then argv ! 4 else ''/dev/enzian_memory'');
          out = \<lparr>status = 1, device = dev, client_of = None, arena_of = st, row_count = None,
                 average = None, total_sum = None, summary = [], report = []\<rparr>
      in if argc < 4 then Inr out
      else
        (let persistent = (atoi (argv ! 1) = 1);
             load_only = (argv ! 2 = ''load'');
             mapGb = (if 6 \<le> argc then atoi (argv ! 5) else 4);
             st = (if 0 < mapGb
                   then fst (SetupEnzianMemoryMapping (dev_fd env) (dev_map env) (map_bytes mapGb) st)
                   else st);
             out = out\<lparr>arena_of := st\<rparr>
         in if conn env \<noteq> Connected then Inr out
         else
           (let cl = set_persistence ex persistent \<lparr>server = s, live = 0, sent = []\<rparr>
            in rbind (load_dataset_generic (malloc_of env) (data_file env) ex fresh_schema 0 cl st)
                 (\<lambda>(rows, schema, ns, cl, st).
                   if load_only then
                     Inr (out\<lparr>status := 0, client_of := Some cl, arena_of := st, row_count := Some rows\<rparr>)
                   else
                     rbind (query_select_gaussian F R ex (fst (clock env 0)) (snd (clock env 0)) rows g cl)
                       (\<lambda>(t0, g, cl).
                     rbind (query_select_all ex (fst (clock env 1)) (snd (clock env 1)) rows cl)
                       (\<lambda>(t1, cl).
                     rbind (query_projection_generic F ex (fst (clock env 2)) (snd (clock env 2))
                              rows schema ns cl) (\<lambda>(t2, avg, cl).
                     rbind (query_aggregation_generic ex (fst (clock env 3)) (snd (clock env 3))
                              rows schema ns cl) (\<lambda>(t3, sum, cl).
                     rbind (print_memory ex (dup_of env) cl) (\<lambda>(rep, cl).
                       Inr (out\<lparr>status := 0, client_of := Some cl, arena_of := st,
                         row_count := Some rows, average := Some avg, total_sum := Some sum,
                         summary := summary_lines F rows t0 [t1, t2, t3],
                         report := rep\<rparr>))))))))))"

section \<open>Every reply is freed\<close>

lemma hgetall_send:
  assumes "hgetall ex i cl = (r, cl')"
  shows "freeReplyObject r cl' = send ex (''HGETALL %s'', [row_key i]) cl"
    and "r = fst (ex (server cl) ''HGETALL %s'' [row_key i])"
  using assms
  by (auto simp: hgetall_def redisCommand_def freeReplyObject_def send_def
      split: prod.splits option.splits)

lemma live_send [simp]: "live (send ex c cl) = live cl"
  by (simp add: send_def)

text \<open>A reply \<open>NULL\<close> needs no freeing: freeing it changes nothing.\<close>

lemma freeReplyObject_None: "cl = freeReplyObject None cl"
  by (simp add: freeReplyObject_def)

text \<open>The row functions by the command they send and the reply they get.\<close>

lemma aggregation_row_eq:
  "aggregation_row ex schema ns i (tot, cl) =
    (let c = (''HGETALL %s'', [row_key i])
     in case fst (ex (server cl) (fst c) (snd c)) of
          None \<Rightarrow> Inr (tot, send ex c cl)
        | Some rep \<Rightarrow>
            if rtype rep \<noteq> REDIS_REPLY_ARRAY then Inr (tot, send ex c cl)
            else rbind (columns_loop schema ns rep tot) (\<lambda>sum. Inr (sum, send ex c cl)))"
proof -
  obtain r cl' where h: "hgetall ex i cl = (r, cl')" by fastforce
  note s = hgetall_send [OF h]
  show ?thesis
    using s(1) by (cases r) (simp_all add: aggregation_row_def h s(2) [symmetric] Let_def freeReplyObject_def)
qed

lemma projection_row_eq:
  "projection_row ex schema ns i (tot, cnt, cl) =
    (let c = (''HGETALL %s'', [row_key i])
     in case fst (ex (server cl) (fst c) (snd c)) of
          None \<Rightarrow> Inr (tot, cnt, send ex c cl)
        | Some rep \<Rightarrow>
            if rtype rep \<noteq> REDIS_REPLY_ARRAY then Inr (tot, cnt, send ex c cl)
            else rbind (columns_loop schema ns rep 0) (\<lambda>row_sum.
                 rbind (sadd 64 tot row_sum) (\<lambda>tot.
                 rbind (sadd 32 cnt 1) (\<lambda>cnt. Inr (tot, cnt, send ex c cl)))))"
proof -
  obtain r cl' where h: "hgetall ex i cl = (r, cl')" by fastforce
  note s = hgetall_send [OF h]
  show ?thesis
    using s(1) by (cases r) (simp_all add: projection_row_def h s(2) [symmetric] Let_def freeReplyObject_def)
qed

lemma fold_res_inv:
  assumes "fold_res f xs acc = Inr acc'" and "P acc"
    and "\<And>x a a'. f x a = Inr a' \<Longrightarrow> P a \<Longrightarrow> P a'"
  shows "P acc'"
  using assms(1,2)
proof (induction xs arbitrary: acc)
  case (Cons x xs)
  then show ?case using assms(3) by (auto simp: rbind_eq_Inr)
qed simp

lemma tok_loop_inv:
  assumes "tok_loop d f n i tok b save acc = Inr (acc', k, b')" and "P acc"
    and step: "\<And>i p t a a'. f i p t a = Inr a' \<Longrightarrow> P a \<Longrightarrow> P a'"
  shows "P acc'"
  using assms
proof (induction d f n i tok b save acc rule: tok_loop.induct)
  case (1 d f n i tok b save acc)
  note step = "1.prems"(3)
  show ?case
  proof (cases tok)
    case None
    with "1.prems" show ?thesis by simp
  next
    case (Some p)
    show ?thesis
    proof (cases "i < n")
      case False
      with "1.prems" show ?thesis by (simp add: tok_loop_full)
    next
      case True
      with Some "1.prems"(1) obtain t a tok1 b1 s1 where
        t: "c_string b p = Inr t" and a: "f i p t acc = Inr a"
        and n: "strtok_r d b save = Inr (tok1, b1, s1)"
        and l: "tok_loop d f n (Suc i) tok1 b1 s1 a = Inr (acc', k, b')"
        by (auto simp: tok_loop.simps [of d f n i "Some p" b save acc] rbind_eq_Inr)
      show ?thesis
        by (rule "1.IH" [OF Some True t a n refl refl l step [OF a "1.prems"(2)] step])
    qed
  qed
qed

lemma tok_for_inv:
  assumes "tok_for d f n b line acc = Inr (acc', k, b')" and "P acc"
    and "\<And>i p t a a'. f i p t a = Inr a' \<Longrightarrow> P a \<Longrightarrow> P a'"
  shows "P acc'"
proof -
  obtain tok b1 s1 where "tok_loop d f n 0 tok b1 s1 acc = Inr (acc', k, b')"
    using assms(1) by (auto simp: tok_for_def rbind_eq_Inr)
  from tok_loop_inv [OF this, of P] assms(2,3) show ?thesis by blast
qed

lemma live_load_rows:
  "load_rows ex schema cols b cur row cl = Inr (n, cl') \<Longrightarrow> live cl' = live cl"
proof (induction ex schema cols b cur row cl rule: load_rows.induct)
  case (1 ex schema cols b cur row cl)
  obtain line b1 cur1 where nl: "next_line b cur = Inr (line, b1, cur1)"
    using "1.prems" by (auto simp: load_rows.simps [of ex schema cols b cur row cl] rbind_eq_Inr)
  show ?case
  proof (cases line)
    case None
    with "1.prems" nl show ?thesis by (simp add: load_rows.simps [of ex schema cols b cur row cl])
  next
    case (Some p)
    obtain c where c: "rd b1 p = Inr c"
      using "1.prems" nl Some
      by (auto simp: load_rows.simps [of ex schema cols b cur row cl] rbind_eq_Inr)
    show ?thesis
    proof (cases "c = NUL")
      case True
      then show ?thesis
        using "1.IH"(1) [OF nl refl refl Some c] "1.prems" nl Some c
        by (simp add: load_rows.simps [of ex schema cols b cur row cl])
    next
      case False
      obtain row1 cl1 i b2 where r: "sadd 32 row 1 = Inr row1"
        and tk: "tok_for '','' (row_body (command ex) schema (row_key row1)) cols b1 p cl = Inr (cl1, i, b2)"
        and rest: "load_rows ex schema cols b2 cur1 row1 cl1 = Inr (n, cl')"
        using "1.prems" nl Some c False
        by (auto simp: load_rows.simps [of ex schema cols b cur row cl] rbind_eq_Inr)
      have "live cl1 = live cl"
        by (rule tok_for_inv [OF tk, of "\<lambda>a. live a = live cl"])
          (auto simp: row_body_def rbind_eq_Inr command_send)
      then show ?thesis
        using "1.IH"(2) [OF nl refl refl Some c False r tk refl refl rest] by simp
    qed
  qed
qed

lemma live_load_dataset:
  assumes "load_dataset_generic mal env ex schema ns cl st = Inr (n, schema', ns', cl', st')"
  shows "live cl' = live cl"
proof -
  have sch: "live b = live a" if "store_schema (command ex) s k a = Inr b" for s k a b
    by (rule fold_res_inv [OF that [unfolded store_schema_def Let_def command_send],
          where P = "\<lambda>x. live x = live a"]) (auto simp: rbind_eq_Inr)
  have row: "live b = live a" if "store_first_row (command ex) bf s tk k a = Inr b" for bf s tk k a b
    by (rule fold_res_inv [OF that [unfolded store_first_row_def Let_def command_send],
          where P = "\<lambda>x. live x = live a"]) (auto simp: rbind_eq_Inr split: option.splits)
  show ?thesis
    using assms
    by (auto simp: load_dataset_generic_def rbind_eq_Inr dest!: sch row live_load_rows
        split: option.splits prod.splits)
qed

lemma timed_body: "timed tv1 tv2 body = Inr (t, x) \<Longrightarrow> body = Inr x"
  by (auto simp: timed_def rbind_eq_Inr)

lemma row_loop_inv:
  assumes "row_loop f rows acc = Inr acc'" and "P acc"
    and "\<And>x a a'. f x a = Inr a' \<Longrightarrow> P a \<Longrightarrow> P a'"
  shows "P acc'"
  using assms(1) fold_res_inv [of f "row_ids rows" acc, where P = P, OF _ assms(2,3)]
  by (auto simp: row_loop_def rbind_eq_Inr split: if_splits)

lemma live_gauss_loop: "gauss_loop F R ex rows n st cl = Inr (st', cl') \<Longrightarrow> live cl' = live cl"
proof (induction n arbitrary: st cl)
  case (Suc n)
  then obtain id st1 where k: "gaussian_key F R rows st = Inr (id, st1)"
    by (auto simp: rbind_eq_Inr)
  obtain r cl1 where h: "hgetall ex id cl = (r, cl1)" by fastforce
  show ?case
    using Suc.prems Suc.IH [of st1 "freeReplyObject r cl1"]
    by (simp add: k h hgetall_send(1) [OF h])
qed simp

lemma live_projection_row:
  "projection_row ex schema ns i x = Inr y \<Longrightarrow> live (snd (snd y)) = live (snd (snd x))"
  by (cases x) (auto simp: projection_row_eq Let_def rbind_eq_Inr split: option.splits if_splits)

lemma live_aggregation_row:
  "aggregation_row ex schema ns i x = Inr y \<Longrightarrow> live (snd y) = live (snd x)"
  by (cases x) (auto simp: aggregation_row_eq Let_def rbind_eq_Inr split: option.splits if_splits)

lemma live_queries:
  "query_select_gaussian F R ex tv1 tv2 rows g cl = Inr (t, g', cl') \<Longrightarrow> live cl' = live cl"
  "query_select_all ex tv1 tv2 rows cl = Inr (t, cl') \<Longrightarrow> live cl' = live cl"
  "query_projection_generic F ex tv1 tv2 rows schema ns cl = Inr (t, avg, cl') \<Longrightarrow> live cl' = live cl"
  "query_aggregation_generic ex tv1 tv2 rows schema ns cl = Inr (t, tot, cl') \<Longrightarrow> live cl' = live cl"
proof -
  assume "query_select_gaussian F R ex tv1 tv2 rows g cl = Inr (t, g', cl')"
  then show "live cl' = live cl"
    unfolding query_select_gaussian_def by (rule live_gauss_loop [OF timed_body])
next
  assume "query_select_all ex tv1 tv2 rows cl = Inr (t, cl')"
  then have "row_loop (\<lambda>i cl. let (r, cl) = hgetall ex i cl in Inr (freeReplyObject r cl)) rows cl = Inr cl'"
    unfolding query_select_all_def by (rule timed_body)
  then show "live cl' = live cl"
    by (rule row_loop_inv [where P = "\<lambda>c. live c = live cl"])
      (auto split: prod.splits simp: hgetall_send(1))
next
  assume "query_projection_generic F ex tv1 tv2 rows schema ns cl = Inr (t, avg, cl')"
  then obtain tot cnt where
    "row_loop (projection_row ex schema (nat ns)) rows (0, 0, cl) = Inr (tot, cnt, cl')"
    by (auto simp: query_projection_generic_def rbind_eq_Inr dest!: timed_body)
  from row_loop_inv [OF this, where P = "\<lambda>x. live (snd (snd x)) = live cl"] show "live cl' = live cl"
    by (simp add: live_projection_row)
next
  assume "query_aggregation_generic ex tv1 tv2 rows schema ns cl = Inr (t, tot, cl')"
  then have "row_loop (aggregation_row ex schema (nat ns)) rows (0, cl) = Inr (tot, cl')"
    unfolding query_aggregation_generic_def by (rule timed_body)
  from row_loop_inv [OF this, where P = "\<lambda>x. live (snd x) = live cl"] show "live cl' = live cl"
    by (simp add: live_aggregation_row)
qed

lemma live_print_memory: "print_memory ex dup_ok cl = Inr (out, cl') \<Longrightarrow> live cl' = live cl"
  by (auto simp: print_memory_def redisCommand_def freeReplyObject_def Let_def rbind_eq_Inr
      split: option.splits if_splits prod.splits)

lemma live_set_persistence: "live (set_persistence ex b cl) = live cl"
  by (simp add: set_persistence_def command_send)

text \<open>
  C12: whatever the arguments, the server's answers, the file and the devices are, a run of
  \<open>redis_fpga\<close> that ends returns 1 without having sent a command, or returns 0 having freed
  every reply it received.
\<close>

theorem redis_main_frees_replies:
  assumes "redis_main F R ex env argv g s st = Inr out"
  shows "case client_of out of None \<Rightarrow> status out = 1 | Some cl \<Rightarrow> status out = 0 \<and> live cl = 0"
proof -
  have l0: "live (set_persistence ex b \<lparr>server = s, live = 0, sent = []\<rparr>) = 0" for b
    by (simp add: live_set_persistence)
  show ?thesis
    using assms
    by (auto simp: redis_main_def Let_def rbind_eq_Inr l0 simp del: One_nat_def
        dest!: live_load_dataset live_queries live_print_memory split: if_splits prod.splits)
qed

text \<open>An arithmetic to try it on: integers, with the generator counting up.\<close>

definition sample_fp :: "int fp" where
  "sample_fp = \<lparr>of_i = id, add_d = (+), mul_d = (*), div_d = (div), sqrt_d = (\<lambda>_. 1),
     log_d = (\<lambda>_. 1), cos_d = (\<lambda>x. x mod 2), pi_d = 3, trunc_d = id\<rparr>"

definition sample_gen :: "int generator" where
  "sample_gen = \<lparr>srand = id, rand = (\<lambda>g. (g, g + 1)), RAND_MAX = 100\<rparr>"

definition sample_renv :: "unit redis_env" where
  "sample_renv = \<lparr>dev_fd = -1, dev_map = None, malloc_of = (\<lambda>h _. (0x5000, h)),
     data_file = sample_env, conn = Connected, clock = (\<lambda>_. ((0, 0), (0, 7))), dup_of = True\<rparr>"

definition no_arena :: "unit arena" where
  "no_arena = \<lparr>gArenaBase = 0, gArenaCur = 0, gArenaEnd = 0, heap = ()\<rparr>"

lemma sample_read_heap:
  "read_file_into_buffer (\<lambda>h _. (0x5000, h)) sample_env no_arena =
    Inr (Some (0x5000, sample_csv @ [NUL]), no_arena)"
  by (simp add: read_file_into_buffer_def sample_env_def sample_csv_def no_arena_def fpga_alloc_def)

theorem redis_main_frees_replies_witness:
  "\<exists>out. redis_main sample_fp sample_gen (\<lambda>s _ _. (Some (Reply REDIS_REPLY_OTHER None []), s)) sample_renv
      [''redis_fpga'', ''1'', ''load'', ''d.csv''] \<lparr>seeded = False, gen = 0\<rparr> () no_arena = Inr out \<and>
    status out = 0 \<and> map_option live (client_of out) = Some 0"
proof -
  let ?ex = "\<lambda>s _ _. (Some (Reply REDIS_REPLY_OTHER None []), s) :: redisReply option \<times> unit"
  let ?cl = "set_persistence ?ex True \<lparr>server = (), live = 0, sent = []\<rparr>"
  have args: "atoi ''1'' = 1" by code_simp
  obtain schema' where run:
    "load_dataset_generic (\<lambda>h _. (0x5000, h)) sample_env ?ex fresh_schema 0 ?cl no_arena =
      Inr (2, schema', 2, fold (send ?ex) (load_cmds ''id,name'' ''1,ann'' [[], ''2,bob'']) ?cl, no_arena)"
    using load_dataset_run [OF fresh_schema_ok sample_read_heap sample_lines, of ?ex 0 ?cl]
    by (auto simp: sample_names sample_tokens data_rows_def)
  have "fst (SetupEnzianMemoryMapping (- 1) None (map_bytes 4) no_arena) = no_arena"
    by (simp add: SetupEnzianMemoryMapping_def)
  then obtain out where out: "redis_main sample_fp sample_gen ?ex sample_renv
      [''redis_fpga'', ''1'', ''load'', ''d.csv''] \<lparr>seeded = False, gen = 0\<rparr> () no_arena = Inr out"
    "client_of out \<noteq> None"
    using run by (simp add: redis_main_def sample_renv_def Let_def args del: One_nat_def)
  from redis_main_frees_replies [OF out(1)] out show ?thesis
    by (cases "client_of out") auto
qed

section \<open>The keys of the first query\<close>

lemma gaussian_key_range:
  assumes "fits 32 (trunc_d F (gauss_value F (RAND_MAX R) rows r1 r2))"
    and "rand R (if seeded st then gen st else srand R 42) = (r1, g1)" and "rand R g1 = (r2, g2)"
  shows "\<exists>k. gaussian_key F R rows st = Inr (k, \<lparr>seeded = True, gen = g2\<rparr>) \<and>
    (1 \<le> rows \<longrightarrow> 1 \<le> k \<and> k \<le> rows)"
  using assms by (cases "seeded st") (auto simp: gaussian_key_def to_int_def Let_def)

text \<open>
  What the C library promises of \<open>rand\<close>, and what the query needs of the arithmetic on the
  numbers \<open>rand\<close> can draw.
\<close>

definition rand_law :: "'g generator \<Rightarrow> bool" where
  "rand_law R \<longleftrightarrow> (\<forall>g. 0 \<le> fst (rand R g) \<and> fst (rand R g) \<le> RAND_MAX R)"

definition keys_fit :: "'d fp \<Rightarrow> int \<Rightarrow> int \<Rightarrow> bool" where
  "keys_fit F rmax rows \<longleftrightarrow> (\<forall>r1 \<in> {0..rmax}. \<forall>r2 \<in> {0..rmax}.
     fits 32 (trunc_d F (gauss_value F rmax rows r1 r2)))"

lemma drawn_fits:
  "rand_law R \<Longrightarrow> keys_fit F (RAND_MAX R) rows \<Longrightarrow> rand R g = (r1, g1) \<Longrightarrow> rand R h = (r2, g2) \<Longrightarrow>
    fits 32 (trunc_d F (gauss_value F (RAND_MAX R) rows r1 r2))"
  unfolding rand_law_def keys_fit_def by (metis atLeastAtMost_iff fst_conv)

lemma gauss_loop_keys:
  assumes "rand_law R" and "keys_fit F (RAND_MAX R) rows" and "1 \<le> rows"
  shows "\<exists>ks st'. length ks = n \<and> (\<forall>k \<in> set ks. 1 \<le> k \<and> k \<le> rows) \<and>
    (\<forall>cl. gauss_loop F R ex rows n st cl =
       Inr (st', fold (send ex) (map (\<lambda>k. (''HGETALL %s'', [row_key k])) ks) cl))"
proof (induction n arbitrary: st)
  case 0
  then show ?case by simp
next
  case (Suc n)
  obtain r1 g1 where r1: "rand R (if seeded st then gen st else srand R 42) = (r1, g1)" by fastforce
  obtain r2 g2 where r2: "rand R g1 = (r2, g2)" by fastforce
  obtain k where k: "gaussian_key F R rows st = Inr (k, \<lparr>seeded = True, gen = g2\<rparr>)"
    "1 \<le> k \<and> k \<le> rows"
    using gaussian_key_range [OF drawn_fits [OF assms(1,2) r1 r2] r1 r2] assms(3) by blast
  obtain ks st' where IH: "length ks = n" "\<forall>k \<in> set ks. 1 \<le> k \<and> k \<le> rows"
    "\<And>cl. gauss_loop F R ex rows n \<lparr>seeded = True, gen = g2\<rparr> cl =
       Inr (st', fold (send ex) (map (\<lambda>k. (''HGETALL %s'', [row_key k])) ks) cl)"
    using Suc by blast
  have "gauss_loop F R ex rows (Suc n) st cl =
      Inr (st', fold (send ex) (map (\<lambda>k. (''HGETALL %s'', [row_key k])) (k # ks)) cl)" for cl
  proof -
    obtain r cl1 where h: "hgetall ex k cl = (r, cl1)" by fastforce
    show ?thesis by (simp add: k(1) h hgetall_send(1) [OF h] IH(3))
  qed
  then show ?case using IH(1,2) k(2) by (intro exI [of _ "k # ks"] exI [of _ st']) simp
qed

lemma gauss_loop_unseeded:
  "\<not> seeded st \<Longrightarrow> 0 < n \<Longrightarrow>
    gauss_loop F R ex rows n st cl = gauss_loop F R ex rows n \<lparr>seeded = True, gen = srand R 42\<rparr> cl"
  by (cases st; cases n) (simp_all add: gaussian_key_def Let_def split: prod.split)

text \<open>
  C21: the pseudo-random query asks for exactly as many rows as the data set has, each with a
  number between 1 and that count, frees every reply, and returns the time between the two
  clock readings. Its keys do not depend on the state in which an unseeded program finds the
  generator: two runs ask for the same rows. This holds for any generator that draws numbers
  from 0 to \<open>RAND_MAX\<close> and any floating-point arithmetic in which the value computed from
  such numbers fits an \<open>int\<close>.
\<close>

theorem select_gaussian_keys:
  assumes "rand_law R" and "keys_fit F (RAND_MAX R) rows"
    and "now_us tv1 = Inr a" and "now_us tv2 = Inr b" and "fits 64 (b - a)"
  shows "\<exists>ks. length ks = nat rows \<and> (\<forall>k \<in> set ks. 1 \<le> k \<and> k \<le> rows) \<and>
    (\<forall>st cl. \<not> seeded st \<longrightarrow> (\<exists>st' cl'.
       query_select_gaussian F R ex tv1 tv2 rows st cl = Inr (b - a, st', cl') \<and>
       sent cl' = sent cl @ map (\<lambda>k. (''HGETALL %s'', [row_key k])) ks \<and> live cl' = live cl))"
proof (cases "1 \<le> rows")
  case False
  then have "nat rows = 0" by simp
  then show ?thesis
    using assms(3-5) by (simp add: query_select_gaussian_def timed_def sadd_def)
next
  case True
  obtain ks st' where ks: "length ks = nat rows" "\<forall>k \<in> set ks. 1 \<le> k \<and> k \<le> rows"
    "\<And>cl. gauss_loop F R ex rows (nat rows) \<lparr>seeded = True, gen = srand R 42\<rparr> cl =
       Inr (st', fold (send ex) (map (\<lambda>k. (''HGETALL %s'', [row_key k])) ks) cl)"
    using gauss_loop_keys [OF assms(1,2) True] by metis
  have "query_select_gaussian F R ex tv1 tv2 rows st cl =
      Inr (b - a, st', fold (send ex) (map (\<lambda>k. (''HGETALL %s'', [row_key k])) ks) cl)"
    if "\<not> seeded st" for st cl
    using that assms(3-5) True
    by (simp add: query_select_gaussian_def timed_def sadd_def gauss_loop_unseeded ks(3))
  with ks(1,2) show ?thesis
    by (intro exI [of _ ks]) (simp add: sent_sends live_sends)
qed

text \<open>
  Exact arithmetic on the real numbers as an instance of the operations: with
  \<open>RAND_MAX = 2 ^ 31 - 1\<close> the normal variate lies between -8 and 8, and the value fits an \<open>int\<close>
  for all tables of up to \<open>2 ^ 30\<close> rows.
\<close>

definition real_fp :: "real fp" where
  "real_fp = \<lparr>of_i = real_of_int, add_d = (+), mul_d = (*), div_d = (/), sqrt_d = sqrt, log_d = ln,
     cos_d = cos, pi_d = pi, trunc_d = (\<lambda>x. if x < 0 then \<lceil>x\<rceil> else \<lfloor>x\<rfloor>)\<rparr>"

definition lcg_gen :: "int generator" where
  "lcg_gen = \<lparr>srand = (\<lambda>seed. seed), rand = (\<lambda>g. (g mod 2 ^ 31, g * 1103515245 + 12345)),
     RAND_MAX = 2 ^ 31 - 1\<rparr>"

lemma ln_unit_bound:
  fixes u :: real
  assumes "0 < u" and "u \<le> 1" and "1 \<le> u * 2 ^ 31"
  shows "0 \<le> -2 * ln u" and "-2 * ln u \<le> 64"
proof -
  show "0 \<le> -2 * ln u" using assms(1,2) by simp
  have "0 \<le> ln (u * 2 ^ 31)" using assms(3) by (rule ln_ge_zero)
  also have "\<dots> = ln u + ln (2 ^ 31)" using assms(1) by (simp only: ln_mult_pos zero_less_power zero_less_numeral)
  also have "ln (2 ^ 31) = real 31 * ln 2" by (rule ln_realpow)
  finally have "- ln u \<le> 31 * ln 2" by simp
  moreover have "ln (2 :: real) \<le> 1" using ln_le_minus_one [of "2 :: real"] by simp
  ultimately show "-2 * ln u \<le> 64" by simp
qed

lemma variate_bound:
  fixes u c :: real
  assumes "0 < u" and "u \<le> 1" and "1 \<le> u * 2 ^ 31"
  shows "\<bar>sqrt (-2 * ln u) * cos c\<bar> \<le> 8"
proof -
  have "sqrt (-2 * ln u) \<le> sqrt 64"
    using ln_unit_bound(2) [OF assms] by (rule real_sqrt_le_mono)
  then have "\<bar>sqrt (-2 * ln u)\<bar> \<le> 8"
    using ln_unit_bound(1) [OF assms] by simp
  moreover have "\<bar>cos c\<bar> \<le> 1" by simp
  ultimately have "\<bar>sqrt (-2 * ln u)\<bar> * \<bar>cos c\<bar> \<le> 8 * 1"
    by (intro mult_mono) simp_all
  then show ?thesis by (simp only: abs_mult mult_1_right)
qed

lemma trunc_fits:
  fixes x :: real
  assumes "\<bar>x\<bar> < 2 ^ 31"
  shows "fits 32 (if x < 0 then \<lceil>x\<rceil> else \<lfloor>x\<rfloor>)"
proof (cases "x < 0")
  case True
  with assms have "-(2 ^ 31) \<le> \<lceil>x\<rceil>" and "\<lceil>x\<rceil> \<le> 0"
    by (simp_all add: le_ceiling_iff ceiling_le_iff)
  with True show ?thesis by (simp add: fits_def)
next
  case False
  with assms have "\<lfloor>x\<rfloor> < 2 ^ 31" and "0 \<le> \<lfloor>x\<rfloor>"
    by (simp_all add: floor_less_iff)
  with False show ?thesis by (simp add: fits_def)
qed

lemma real_keys_fit:
  assumes "0 \<le> rows" and "rows \<le> 2 ^ 30"
  shows "keys_fit real_fp (2 ^ 31 - 1) rows"
  unfolding keys_fit_def
proof (intro ballI)
  fix r1 r2 :: int assume r: "r1 \<in> {0..2 ^ 31 - 1}" "r2 \<in> {0..2 ^ 31 - 1}"
  define u where "u = (real_of_int r1 + 1) / 2 ^ 31"
  define z where "z = sqrt (-2 * ln u) * cos (2 * pi * ((real_of_int r2 + 1) / 2 ^ 31))"
  have "real_of_int r1 \<le> 2 ^ 31 - 1" and "0 \<le> real_of_int r1" using r(1) by simp_all
  then have "\<bar>z\<bar> \<le> 8"
    unfolding z_def u_def by (intro variate_bound) simp_all
  then have "\<bar>real_of_int rows / 6 * z\<bar> \<le> real_of_int rows / 6 * 8"
    using assms(1) unfolding abs_mult by (intro mult_mono) simp_all
  moreover have "real_of_int rows \<le> 2 ^ 30" using assms(2) by simp
  ultimately have "\<bar>real_of_int rows / 2 + real_of_int rows / 6 * z\<bar> < 2 ^ 31"
    using assms(1) by simp
  note fit = trunc_fits [OF this]
  have "gauss_value real_fp (2 ^ 31 - 1) rows r1 r2 = real_of_int rows / 2 + real_of_int rows / 6 * z"
    by (simp add: gauss_value_def real_fp_def Let_def z_def u_def)
  moreover have "trunc_d real_fp x = (if x < 0 then \<lceil>x\<rceil> else \<lfloor>x\<rfloor>)" for x
    by (simp add: real_fp_def)
  ultimately show "fits 32 (trunc_d real_fp (gauss_value real_fp (2 ^ 31 - 1) rows r1 r2))"
    using fit by (simp only:)
qed

lemma lcg_gen_law: "rand_law lcg_gen"
proof -
  have "g mod 2 ^ 31 \<le> 2 ^ 31 - 1" for g :: int
    using pos_mod_bound [of "2 ^ 31" g] by simp
  then show ?thesis by (simp add: rand_law_def lcg_gen_def)
qed

theorem select_gaussian_keys_witness:
  "\<exists>ks. length ks = 1000 \<and> (\<forall>k \<in> set ks. 1 \<le> k \<and> k \<le> 1000) \<and>
    (\<exists>st' cl'. query_select_gaussian real_fp lcg_gen (\<lambda>s _ _. (None, s)) (1, 2) (1, 9) 1000
       \<lparr>seeded = False, gen = 0\<rparr> \<lparr>server = (), live = 0, sent = []\<rparr> = Inr (7, st', cl') \<and>
     sent cl' = map (\<lambda>k. (''HGETALL %s'', [row_key k])) ks)"
proof -
  have rmax: "RAND_MAX lcg_gen = 2 ^ 31 - 1" by (simp add: lcg_gen_def)
  have "keys_fit real_fp (RAND_MAX lcg_gen) 1000"
    unfolding rmax by (rule real_keys_fit) simp_all
  moreover have "now_us (1, 2) = Inr 1000002" "now_us (1, 9) = Inr 1000009" "fits 64 (1000009 - 1000002)"
    by (simp_all add: now_us_def sadd_def fits_def)
  ultimately obtain ks where ks: "length ks = nat 1000" "\<forall>k \<in> set ks. 1 \<le> k \<and> k \<le> 1000"
    and q: "\<And>st cl. \<not> seeded st \<Longrightarrow> \<exists>st' cl'.
      query_select_gaussian real_fp lcg_gen (\<lambda>s _ _. (None :: redisReply option, s :: unit))
        (1, 2) (1, 9) 1000 st cl = Inr (1000009 - 1000002, st', cl') \<and>
      sent cl' = sent cl @ map (\<lambda>k. (''HGETALL %s'', [row_key k])) ks \<and> live cl' = live cl"
    using select_gaussian_keys [OF lcg_gen_law, of real_fp 1000 "(1, 2)" 1000002 "(1, 9)" 1000009
        "\<lambda>s _ _. (None :: redisReply option, s :: unit)"] by blast
  have len: "length ks = 1000" using ks(1) by simp
  show ?thesis
    using q [of "\<lparr>seeded = False, gen = 0\<rparr>" "\<lparr>server = (), live = 0, sent = []\<rparr>"] len ks(2) by auto
qed

end
