(* ===== verification/RedisSum.thy ===== *)
theory RedisSum
  imports RedisQueries "HOL-Library.AList"
begin

text \<open>
  The loader and the aggregating queries together: against a server that keeps hashes as Redis
  documents them, the sum and the average printed are those of the integer columns of the CSV
  file.
\<close>

section \<open>What the server promises\<close>

text \<open>
  \<open>store s k\<close> is the hash at key \<open>k\<close> as a map. \<open>DEL\<close> empties it, \<open>HSET\<close> sets one field,
  \<open>HGETALL\<close> returns an array of alternating fields and values, every field once, in any order.
\<close>

definition bulk :: "string \<Rightarrow> redisReply option" where
  "bulk s = Some (Reply REDIS_REPLY_OTHER (Some s) [])"

definition hash_elements :: "(string \<times> string) list \<Rightarrow> redisReply option list" where
  "hash_elements kvs = concat (map (\<lambda>(k, v). [bulk k, bulk v]) kvs)"

definition redis_hashes :: "'s exec \<Rightarrow> ('s \<Rightarrow> string \<Rightarrow> string \<rightharpoonup> string) \<Rightarrow> bool" where
  "redis_hashes ex store \<longleftrightarrow>
     (\<forall>s. store (snd (ex s ''DEL schema'' [])) = (store s)(''schema'' := Map.empty)) \<and>
     (\<forall>s f v. store (snd (ex s ''HSET schema %s %s'' [f, v])) =
        (store s)(''schema'' := (store s ''schema'')(f \<mapsto> v))) \<and>
     (\<forall>s k f v. store (snd (ex s ''HSET %s %s %s'' [k, f, v])) = (store s)(k := (store s k)(f \<mapsto> v))) \<and>
     (\<forall>s k. store (snd (ex s ''HGETALL %s'' [k])) = store s \<and>
        (\<exists>kvs. fst (ex s ''HGETALL %s'' [k]) = Some (Reply REDIS_REPLY_ARRAY None (hash_elements kvs)) \<and>
           distinct (map fst kvs) \<and> map_of kvs = store s k))"

section \<open>The sum of a file\<close>

definition cell_value :: "bool list \<Rightarrow> string list \<Rightarrow> nat \<Rightarrow> int" where
  "cell_value types vals i = (if types ! i \<and> i < length vals then atoll (vals ! i) else 0)"

definition row_total :: "bool list \<Rightarrow> string list \<Rightarrow> int" where
  "row_total types vals = (\<Sum>i \<leftarrow> [0..<length types]. cell_value types vals i)"

definition csv_total :: "bool list \<Rightarrow> string list list \<Rightarrow> int" where
  "csv_total types rows = (\<Sum>r \<leftarrow> rows. row_total types r)"

text \<open>A bound for every partial sum.\<close>

definition csv_weight :: "bool list \<Rightarrow> string list list \<Rightarrow> int" where
  "csv_weight types rows =
     (\<Sum>r \<leftarrow> rows. \<Sum>i \<leftarrow> [0..<length types]. \<bar>cell_value types r i\<bar>)"

section \<open>Checked sums\<close>

lemma fold_res_sum:
  assumes "\<And>x acc. x \<in> set xs \<Longrightarrow> \<bar>acc + g x :: int\<bar> < 2 ^ 63 \<Longrightarrow> f x acc = Inr (acc + g x)"
    and "\<bar>acc\<bar> + (\<Sum>x \<leftarrow> xs. \<bar>g x\<bar>) < 2 ^ 63"
  shows "fold_res f xs acc = Inr (acc + (\<Sum>x \<leftarrow> xs. g x))"
  using assms
proof (induction xs arbitrary: acc)
  case (Cons x xs)
  have nn: "0 \<le> (\<Sum>x \<leftarrow> xs. \<bar>g x\<bar>)" by (induction xs) auto
  then have "\<bar>acc + g x\<bar> < 2 ^ 63" and rest: "\<bar>acc + g x\<bar> + (\<Sum>x \<leftarrow> xs. \<bar>g x\<bar>) < 2 ^ 63"
    using Cons.prems(2) by simp_all
  then have "f x acc = Inr (acc + g x)" using Cons.prems(1) by simp
  moreover have "fold_res f xs (acc + g x) = Inr (acc + g x + (\<Sum>x \<leftarrow> xs. g x))"
    by (rule Cons.IH [OF _ rest]) (simp add: Cons.prems(1))
  ultimately show ?case by (simp add: add.assoc)
qed simp

lemma abs_sum_list_le: "\<bar>\<Sum>x \<leftarrow> xs. g x\<bar> \<le> (\<Sum>x \<leftarrow> xs. \<bar>g x :: int\<bar>)"
  by (induction xs) auto

lemma fits64: "\<bar>x\<bar> < 2 ^ 63 \<Longrightarrow> fits 64 x"
  by (auto simp: fits_def)

section \<open>The loops over a reply\<close>

lemma pairs_loop_absent:
  assumes "column_name schema s = Inr n" and "n \<notin> fst ` set kvs"
  shows "pairs_loop schema s (hash_elements kvs) acc = Inr acc"
  using assms(2) by (induction kvs) (auto simp: hash_elements_def bulk_def assms(1))

lemma pairs_loop_hash:
  assumes "column_name schema s = Inr n" and "distinct (map fst kvs)"
  shows "pairs_loop schema s (hash_elements kvs) acc =
    (case map_of kvs n of None \<Rightarrow> Inr acc | Some v \<Rightarrow> sadd 64 acc (atoll v))"
  using assms(2)
proof (induction kvs arbitrary: acc)
  case Nil
  then show ?case by (simp add: hash_elements_def)
next
  case (Cons kv kvs)
  obtain k v where kv: "kv = (k, v)" by (cases kv)
  have hd: "hash_elements (kv # kvs) = bulk k # bulk v # hash_elements kvs"
    by (simp add: hash_elements_def kv)
  show ?case
  proof (cases "n = k")
    case True
    then have "n \<notin> fst ` set kvs" using Cons.prems kv by simp
    from pairs_loop_absent [OF assms(1) this] show ?thesis
      using True by (cases "sadd 64 acc (atoll v)") (simp_all add: hd [unfolded kv] bulk_def assms(1) kv)
  next
    case False
    then show ?thesis using Cons by (simp add: hd [unfolded kv] bulk_def assms(1) kv)
  qed
qed

lemma columns_loop_hash:
  assumes rep: "schema_rep schema names types" and "distinct (map fst kvs)"
    and vals: "\<And>i. i < length names \<Longrightarrow>
      map_of kvs (names ! i) = (if i < length vals then Some (vals ! i) else None)"
    and "\<bar>acc\<bar> + (\<Sum>i \<leftarrow> [0..<length types]. \<bar>cell_value types vals i\<bar>) < 2 ^ 63"
  shows "columns_loop schema (length names) (Reply REDIS_REPLY_ARRAY None (hash_elements kvs)) acc =
    Inr (acc + row_total types vals)"
proof -
  have len: "length types = length names" using rep by (rule schema_rep_lengths)
  show ?thesis
    unfolding columns_loop_def row_total_def len
  proof (rule fold_res_sum)
    fix s acc assume s: "s \<in> set [0..<length names]" and b: "\<bar>acc + cell_value types vals s\<bar> < 2 ^ 63"
    then have i: "s < length names" by simp
    note D = schema_repD [OF rep i]
    have "pairs_loop schema s (hash_elements kvs) acc = Inr (acc + cell_value types vals s)" if "types ! s"
      using that b fits64 [OF b]
      by (cases "s < length vals") (simp_all add: pairs_loop_hash [OF D(1) assms(2)] vals [OF i] cell_value_def sadd_def)
    then show "rbind (idx schema s) (\<lambda>c. if is_int c = 0 then Inr acc
        else pairs_loop schema s (element (Reply REDIS_REPLY_ARRAY None (hash_elements kvs))) acc) =
      Inr (acc + cell_value types vals s)"
      using D(2,3) by (cases "types ! s") (simp_all add: cell_value_def)
  qed (use assms(4) len in simp)
qed

section \<open>What the loader leaves at the server\<close>

lemma server_send: "server (send ex c cl) = snd (ex (server cl) (fst c) (snd c))"
  by (simp add: send_def)

lemma store_row_cmds:
  assumes "redis_hashes ex store"
  shows "store (server (fold (send ex) (row_cmds names row vals) cl)) =
    (store (server cl))(row_key row := (store (server cl) (row_key row))(names [\<mapsto>] vals))"
proof (induction names arbitrary: vals cl)
  case Nil
  then show ?case by (simp add: row_cmds_def)
next
  case (Cons n names)
  have set1: "store (snd (ex s ''HSET %s %s %s'' [k, f, v])) = (store s)(k := (store s k)(f \<mapsto> v))" for s k f v
    using assms by (simp add: redis_hashes_def)
  show ?case
  proof (cases vals)
    case Nil
    then show ?thesis by (simp add: row_cmds_def)
  next
    case (Cons v vs)
    have "row_cmds (n # names) row vals = (''HSET %s %s %s'', [row_key row, n, v]) # row_cmds names row vs"
      by (simp add: row_cmds_def Cons)
    moreover have "store (server (send ex (''HSET %s %s %s'', [row_key row, n, v]) cl)) =
        (store (server cl))(row_key row := (store (server cl) (row_key row))(n \<mapsto> v))"
      by (simp add: server_send set1)
    ultimately show ?thesis
      by (simp only: Cons Cons.IH fold.simps comp_apply fun_upd_same fun_upd_upd map_upds_Cons)
  qed
qed

lemma store_rows_cmds:
  assumes "redis_hashes ex store"
  shows "store (server (fold (send ex) (rows_cmds names row rows) cl)) (row_key i) =
    (if row \<le> i \<and> i < row + int (length rows)
     then (store (server cl) (row_key i))(names [\<mapsto>] (rows ! nat (i - row)))
     else store (server cl) (row_key i))"
proof (induction rows arbitrary: row cl)
  case (Cons r rows)
  have "nat (i - row) = Suc (nat (i - (row + 1)))" if "row + 1 \<le> i" using that by simp
  then show ?case
    using Cons.IH [of "row + 1" "fold (send ex) (row_cmds names row r) cl"]
    by (auto simp: store_row_cmds [OF assms])
qed auto

lemma store_schema_cmds:
  assumes "redis_hashes ex store"
  shows "store (server (fold (send ex) (schema_cmds names types) cl)) (row_key i) =
    store (server cl) (row_key i)"
proof -
  have "store (server (fold (send ex)
      (map (\<lambda>(n, t). (''HSET schema %s %s'', [n, if t then ''int'' else ''string''])) xs) cl)) (row_key i) =
    store (server cl) (row_key i)" for xs cl
  proof (induction xs arbitrary: cl)
    case (Cons x xs)
    obtain n t where x: "x = (n, t)" by (cases x)
    have "store (snd (ex s ''HSET schema %s %s'' [n, v])) =
        (store s)(''schema'' := (store s ''schema'')(n \<mapsto> v))" for s v
      using assms by (simp add: redis_hashes_def)
    then show ?case
      by (simp add: x Cons.IH server_send)
  qed simp
  then show ?thesis
    using assms by (simp add: schema_cmds_def server_send redis_hashes_def)
qed

lemma map_upds_row:
  assumes "distinct names" and "length vals \<le> length names" and "i < length names"
  shows "(Map.empty(names [\<mapsto>] vals)) (names ! i) = (if i < length vals then Some (vals ! i) else None)"
  using assms
proof (induction names arbitrary: vals i)
  case (Cons n names)
  show ?case
  proof (cases vals)
    case Nil
    then show ?thesis by simp
  next
    case (Cons v vs)
    show ?thesis
    proof (cases i)
      case 0
      then show ?thesis
        using Cons.prems by (simp add: Cons map_upds_apply_nontin)
    next
      case (Suc j)
      have "names ! j \<noteq> n" using Cons.prems Suc by (metis distinct.simps(2) length_Cons nth_mem Suc_less_eq)
      then have "([n \<mapsto> v](names [\<mapsto>] vs)) (names ! j) = (Map.empty(names [\<mapsto>] vs)) (names ! j)"
        by (simp add: map_upds_def map_add_def split: option.split)
      then show ?thesis
        using Cons.IH [of vs j] Cons.prems Suc by (simp add: Cons)
    qed
  qed
qed simp

section \<open>The queries over the loaded rows\<close>

definition row_weight :: "bool list \<Rightarrow> string list \<Rightarrow> int" where
  "row_weight types vals = (\<Sum>i \<leftarrow> [0..<length types]. \<bar>cell_value types vals i\<bar>)"

lemma csv_weight_Cons: "csv_weight types (r # rows) = row_weight types r + csv_weight types rows"
  by (simp add: csv_weight_def row_weight_def)

lemma csv_total_Cons: "csv_total types (r # rows) = row_total types r + csv_total types rows"
  by (simp add: csv_total_def)

lemma csv_weight_nonneg: "0 \<le> csv_weight types rows"
  unfolding csv_weight_def by (auto intro!: sum_list_nonneg)

lemma row_total_le: "\<bar>row_total types r\<bar> \<le> row_weight types r"
  unfolding row_total_def row_weight_def by (rule abs_sum_list_le)

text \<open>A server on which the rows from number \<open>row\<close> on are stored.\<close>

definition rows_stored ::
  "('s \<Rightarrow> string \<Rightarrow> string \<rightharpoonup> string) \<Rightarrow> string list \<Rightarrow> int \<Rightarrow> string list list \<Rightarrow> 's \<Rightarrow> bool" where
  "rows_stored store names row rows s \<longleftrightarrow>
     (\<forall>i < length rows. store s (row_key (row + int i)) = Map.empty(names [\<mapsto>] (rows ! i)) \<and>
        length (rows ! i) \<le> length names)"

lemma rows_stored_Cons:
  "rows_stored store names row (r # rows) s \<longleftrightarrow>
    store s (row_key row) = Map.empty(names [\<mapsto>] r) \<and> length r \<le> length names \<and>
    rows_stored store names (row + 1) rows s"
  by (auto simp: rows_stored_def nth_Cons less_Suc_eq_0_disj add.assoc)

lemma rows_stored_hgetall:
  assumes "redis_hashes ex store"
  shows "rows_stored store names row rows (server (send ex (''HGETALL %s'', [k]) cl)) =
    rows_stored store names row rows (server cl)"
  using assms by (simp add: rows_stored_def server_send redis_hashes_def)

lemma hgetall_row:
  assumes "redis_hashes ex store" and "schema_rep schema names types" and "distinct names"
    and "store s key = Map.empty(names [\<mapsto>] r)" and "length r \<le> length names"
  shows "\<exists>rep. fst (ex s ''HGETALL %s'' [key]) = Some rep \<and> rtype rep = REDIS_REPLY_ARRAY \<and>
    (\<forall>acc. \<bar>acc\<bar> + row_weight types r < 2 ^ 63 \<longrightarrow>
       columns_loop schema (length names) rep acc = Inr (acc + row_total types r))"
proof -
  obtain kvs where kvs: "fst (ex s ''HGETALL %s'' [key]) = Some (Reply REDIS_REPLY_ARRAY None (hash_elements kvs))"
    "distinct (map fst kvs)" "map_of kvs = Map.empty(names [\<mapsto>] r)"
    using assms(1,4) unfolding redis_hashes_def by metis
  have "columns_loop schema (length names) (Reply REDIS_REPLY_ARRAY None (hash_elements kvs)) acc =
      Inr (acc + row_total types r)" if "\<bar>acc\<bar> + row_weight types r < 2 ^ 63" for acc
    using that unfolding row_weight_def
    by (intro columns_loop_hash [OF assms(2) kvs(2)])
      (simp_all add: kvs(3) map_upds_row [OF assms(3,5)])
  with kvs(1) show ?thesis by simp
qed

lemma ids_Suc: "map (\<lambda>i. row + int i) [0..<Suc n] = row # map (\<lambda>i. row + 1 + int i) [0..<n]"
  by (simp add: map_upt_Suc add.assoc del: upt_Suc)

lemma aggregation_rows:
  assumes "redis_hashes ex store" and "schema_rep schema names types" and "distinct names"
    and "rows_stored store names row rows (server cl)" and "\<bar>acc\<bar> + csv_weight types rows < 2 ^ 63"
  shows "\<exists>cl'. fold_res (aggregation_row ex schema (length names))
      (map (\<lambda>i. row + int i) [0..<length rows]) (acc, cl) = Inr (acc + csv_total types rows, cl')"
  using assms(4,5)
proof (induction rows arbitrary: row acc cl)
  case Nil
  then show ?case by (simp add: csv_total_def)
next
  case (Cons r rows)
  have r: "store (server cl) (row_key row) = Map.empty(names [\<mapsto>] r)" "length r \<le> length names"
    "rows_stored store names (row + 1) rows (server cl)"
    using Cons.prems(1) by (simp_all add: rows_stored_Cons)
  have w: "\<bar>acc\<bar> + row_weight types r < 2 ^ 63" "\<bar>acc + row_total types r\<bar> + csv_weight types rows < 2 ^ 63"
    using Cons.prems(2) csv_weight_nonneg [of types rows] row_total_le [of types r]
    by (simp_all add: csv_weight_Cons)
  let ?cl = "send ex (''HGETALL %s'', [row_key row]) cl"
  have "aggregation_row ex schema (length names) row (acc, cl) = Inr (acc + row_total types r, ?cl)"
    using hgetall_row [OF assms(1-3) r(1,2)] w(1) by (auto simp: aggregation_row_eq)
  moreover have "rows_stored store names (row + 1) rows (server ?cl)"
    using r(3) by (simp add: rows_stored_hgetall [OF assms(1)])
  note Cons.IH [OF this w(2)]
  ultimately show ?case
    by (simp add: ids_Suc csv_total_Cons add.assoc del: upt_Suc)
qed

lemma projection_rows:
  assumes "redis_hashes ex store" and "schema_rep schema names types" and "distinct names"
    and "rows_stored store names row rows (server cl)" and "\<bar>acc\<bar> + csv_weight types rows < 2 ^ 63"
    and "0 \<le> cnt" and "cnt + int (length rows) < 2 ^ 31"
  shows "\<exists>cl'. fold_res (projection_row ex schema (length names))
      (map (\<lambda>i. row + int i) [0..<length rows]) (acc, cnt, cl) =
    Inr (acc + csv_total types rows, cnt + int (length rows), cl')"
  using assms(4-)
proof (induction rows arbitrary: row acc cnt cl)
  case Nil
  then show ?case by (simp add: csv_total_def)
next
  case (Cons r rows)
  have r: "store (server cl) (row_key row) = Map.empty(names [\<mapsto>] r)" "length r \<le> length names"
    "rows_stored store names (row + 1) rows (server cl)"
    using Cons.prems(1) by (simp_all add: rows_stored_Cons)
  have w: "\<bar>0\<bar> + row_weight types r < 2 ^ 63" "\<bar>acc + row_total types r\<bar> + csv_weight types rows < 2 ^ 63"
    "fits 64 (acc + row_total types r)"
    using Cons.prems(2) csv_weight_nonneg [of types rows] row_total_le [of types r]
    by (simp_all add: csv_weight_Cons fits64)
  have c: "0 \<le> cnt + 1" "cnt + 1 + int (length rows) < 2 ^ 31" "fits 32 (cnt + 1)"
    using Cons.prems(3,4) by (simp_all add: fits_def)
  let ?cl = "send ex (''HGETALL %s'', [row_key row]) cl"
  obtain rep where "fst (ex (server cl) ''HGETALL %s'' [row_key row]) = Some rep"
    "rtype rep = REDIS_REPLY_ARRAY" "columns_loop schema (length names) rep 0 = Inr (0 + row_total types r)"
    using hgetall_row [OF assms(1-3) r(1,2)] w(1) by blast
  then have "projection_row ex schema (length names) row (acc, cnt, cl) =
      Inr (acc + row_total types r, cnt + 1, ?cl)"
    using w(3) c(3) by (simp add: projection_row_eq sadd_def)
  moreover have "rows_stored store names (row + 1) rows (server ?cl)"
    using r(3) by (simp add: rows_stored_hgetall [OF assms(1)])
  note Cons.IH [OF this w(2) c(1,2)]
  ultimately show ?case
    by (simp add: ids_Suc csv_total_Cons add.assoc del: upt_Suc)
qed

lemma aggregation_row_ids:
  "row_ids (int (length rows)) = map (\<lambda>i. 1 + int i) [0..<length rows]"
  by (simp add: row_ids_def)

lemma rows_stored_after_load:
  assumes "redis_hashes ex store" and "\<forall>i. store (server cl) (row_key i) = Map.empty"
    and "length (header_names h) \<le> length (tokens '','' l1)"
  shows "rows_stored store (header_names h) 1
      (row_values (length (header_names h)) l1 # data_rows (length (header_names h)) ls)
      (server (fold (send ex) (load_cmds h l1 ls) cl))"
proof -
  let ?n = "header_names h"
  let ?rows = "row_values (length ?n) l1 # data_rows (length ?n) ls"
  let ?c = "fold (send ex) (schema_cmds ?n (column_types (length ?n) (row_values (length ?n) l1))) cl"
  have srv: "fold (send ex) (load_cmds h l1 ls) cl = fold (send ex) (rows_cmds ?n 1 ?rows) ?c"
    by (simp add: load_cmds_def Let_def del: rows_cmds.simps)
  have "store (server (fold (send ex) (load_cmds h l1 ls) cl)) (row_key (1 + int i)) =
      Map.empty(?n [\<mapsto>] (?rows ! i))" if "i < length ?rows" for i
    unfolding srv store_rows_cmds [OF assms(1)] store_schema_cmds [OF assms(1)]
    using that assms(2) by simp
  moreover have "length r \<le> length ?n" if "r \<in> set ?rows" for r
    using that by (auto simp: data_rows_def row_values_def)
  ultimately show ?thesis
    unfolding rows_stored_def by (meson nth_mem)
qed

text \<open>
  C4: loading a CSV file into a server without rows and then running the two summing queries
  gives the file's figures: the aggregation's sum is the sum of all fields of integer columns,
  and the projection's average divides it by the number of rows. The column names must be
  distinct as sent, the first row complete and the sums of magnitudes below \<open>2 ^ 63\<close>; the
  server may list a hash's fields in any order.
\<close>

theorem queries_compute_csv_sum:
  assumes "redis_hashes ex store" and "\<forall>i. store (server cl) (row_key i) = Map.empty"
    and "schema_ok schema"
    and "read_file_into_buffer mal env st = Inr (Some (p, b), st')"
    and "csv_lines (csv_text b) = h # l1 # ls"
    and "length (header_names h) \<le> length (tokens '','' l1)" and "distinct (header_names h)"
    and "types = column_types (length (header_names h)) (row_values (length (header_names h)) l1)"
    and "rows = row_values (length (header_names h)) l1 # data_rows (length (header_names h)) ls"
    and "int (length rows) < 2 ^ 31 - 1" and "csv_weight types rows < 2 ^ 63"
    and "now_us tv1 = Inr t1" and "now_us tv2 = Inr t2" and "fits 64 (t2 - t1)"
  shows "\<exists>schema' ns' cl'.
    load_dataset_generic mal env ex schema ns cl st = Inr (int (length rows), schema', ns', cl', st') \<and>
    (\<forall>c. store (server c) = store (server cl') \<longrightarrow>
      (\<exists>c' c''. query_aggregation_generic ex tv1 tv2 (int (length rows)) schema' ns' c =
           Inr (t2 - t1, csv_total types rows, c') \<and>
         query_projection_generic F ex tv1 tv2 (int (length rows)) schema' ns' c =
           Inr (t2 - t1, div_d F (of_i F (csv_total types rows)) (of_i F (int (length rows))), c'')))"
proof -
  let ?n = "header_names h"
  let ?cl' = "fold (send ex) (load_cmds h l1 ls) cl"
  have "int (length (data_rows (length ?n) ls)) < 2 ^ 31 - 1"
    using assms(10) by (simp add: assms(9))
  from load_dataset_run [OF assms(3-6) this, of ex ns cl] obtain schema' where
    load: "load_dataset_generic mal env ex schema ns cl st =
      Inr (int (length rows), schema', int (length ?n), ?cl', st')"
    and rep: "schema_rep schema' ?n types"
    unfolding assms(8,9) by auto
  note stored = rows_stored_after_load [OF assms(1,2,6), of ls, folded assms(9)]
  have "\<exists>c' c''. query_aggregation_generic ex tv1 tv2 (int (length rows)) schema' (int (length ?n)) c =
           Inr (t2 - t1, csv_total types rows, c') \<and>
         query_projection_generic F ex tv1 tv2 (int (length rows)) schema' (int (length ?n)) c =
           Inr (t2 - t1, div_d F (of_i F (csv_total types rows)) (of_i F (int (length rows))), c'')"
    if c: "store (server c) = store (server ?cl')" for c
  proof -
    have st: "rows_stored store ?n 1 rows (server c)"
      using stored by (simp add: rows_stored_def c)
    have w: "\<bar>0\<bar> + csv_weight types rows < 2 ^ 63" using assms(11) by simp
    obtain c' where "fold_res (aggregation_row ex schema' (length ?n)) (row_ids (int (length rows))) (0, c) =
        Inr (csv_total types rows, c')"
      using aggregation_rows [OF assms(1) rep assms(7) st w] by (auto simp: aggregation_row_ids)
    moreover obtain c'' where
      "fold_res (projection_row ex schema' (length ?n)) (row_ids (int (length rows))) (0, 0, c) =
        Inr (csv_total types rows, int (length rows), c'')"
      using projection_rows [OF assms(1) rep assms(7) st w, of 0] assms(10)
      by (auto simp: aggregation_row_ids)
    moreover have "int (length rows) \<noteq> 0" by (simp add: assms(9))
    ultimately show ?thesis
      using assms(10,12-14)
      by (simp add: query_aggregation_generic_def query_projection_generic_def row_loop_def
          timed_def sadd_def)
  qed
  with load show ?thesis by blast
qed

section \<open>A server to try it on\<close>

definition sample_exec :: "(string \<Rightarrow> (string \<times> string) list) exec" where
  "sample_exec s fmt args =
     (if fmt = ''DEL schema'' then (None, s(''schema'' := []))
      else if fmt = ''HSET schema %s %s'' then
        (None, s(''schema'' := AList.update (args ! 0) (args ! 1) (s ''schema'')))
      else if fmt = ''HSET %s %s %s'' then
        (None, s(args ! 0 := AList.update (args ! 1) (args ! 2) (s (args ! 0))))
      else (Some (Reply REDIS_REPLY_ARRAY None (hash_elements (AList.clearjunk (s (args ! 0))))), s))"

lemma sample_exec_hashes: "redis_hashes sample_exec (\<lambda>s k. map_of (s k))"
  by (auto simp: redis_hashes_def sample_exec_def update_conv' fun_eq_iff map_of_clearjunk
      distinct_clearjunk)

theorem queries_compute_csv_sum_witness:
  "\<exists>schema' ns' cl' c'. load_dataset_generic (\<lambda>h _. (0, h)) sample_env sample_exec fresh_schema 0
      \<lparr>server = (\<lambda>_. []), live = 0, sent = []\<rparr> sample_arena =
    Inr (2, schema', ns', cl', sample_arena\<lparr>gArenaCur := 0x10000417\<rparr>) \<and>
    query_aggregation_generic sample_exec (1, 2) (1, 9) 2 schema' ns' cl' = Inr (7, 3, c')"
proof -
  have types: "column_types 2 [''1'', ''ann''] = [True, False]"
    by (simp add: column_types_def upt_rec)
  have vals: "atoll ''1'' = 1" "atoll ''2'' = 2" by (code_simp, code_simp)
  let ?rows = "[[''1'', ''ann''], [''2'', ''bob'']]"
  have total: "csv_total [True, False] ?rows = 3" "csv_weight [True, False] ?rows = 3"
    by (simp_all add: csv_total_def csv_weight_def row_total_def cell_value_def vals upt_rec)
  have clk: "now_us (1, 2) = Inr 1000002" "now_us (1, 9) = Inr 1000009" "fits 64 (1000009 - 1000002)"
    by (simp_all add: now_us_def sadd_def fits_def)
  have "\<forall>i. map_of (server \<lparr>server = (\<lambda>_. [] :: (string \<times> string) list), live = 0, sent = []\<rparr> (row_key i)) =
      Map.empty" by simp
  from queries_compute_csv_sum [where store = "\<lambda>s k. map_of (s k)" and ns = 0 and F = sample_fp,
      OF sample_exec_hashes this fresh_schema_ok sample_read sample_lines _ _ refl refl
      _ _ clk]
  show ?thesis
    by (simp add: sample_names sample_tokens types [unfolded numeral_2_eq_2] total
        row_values_def data_rows_def) blast
qed

end
