(* ===== verification/RedisLoader.thy ===== *)
theory RedisLoader
  imports RedisSum
begin

text \<open>
  \<open>redis_loader.c\<close>, the variant of \<open>redis_fpga.c\<close> for an ordinary Redis: no arena, the file
  read line by line with \<open>fgets\<close> into one line buffer, fields cut by \<open>strtok\<close> at commas and
  line feeds. Where the two programs have the same text (\<open>gaussian_key\<close>, \<open>now_us\<close>, the two
  selections, \<open>set_persistence\<close>, the loops of the upload) the definitions of the other
  theories are used; freeing a \<open>NULL\<close> reply, which only this program may do, has no effect.
  As committed the file does not compile: \<open>int id = 0.\<close> in \<open>query_projection_generic\<close> lacks its
  semicolon. It is modelled as if it were there.
\<close>

section \<open>Reading a line\<close>

text \<open>
  \<open>fgets\<close> on the rest of the file and a line buffer, given as the bytes written to it so far
  (always an initial part, as every call writes from the start): the buffer and the rest, or
  \<open>None\<close> at the end of the file, with the buffer left alone.
\<close>

definition LINE_SIZE :: nat where
  "LINE_SIZE = 4096"

definition take_line :: "nat \<Rightarrow> string \<Rightarrow> string" where
  "take_line n text =
     (let s = take n text; l = takeWhile (\<lambda>c. c \<noteq> LF) s in if l = s then s else l @ [LF])"

definition fgets :: "string \<Rightarrow> buf \<Rightarrow> (buf \<times> string) option" where
  "fgets text line =
     (if text = [] then None
      else let l = take_line (LINE_SIZE - 1) text
           in Some (l @ [NUL] @ drop (length l + 1) line, drop (length l) text))"

lemma take_line_pos: "text \<noteq> [] \<Longrightarrow> 0 < n \<Longrightarrow> take_line n text \<noteq> []"
  by (simp add: take_line_def Let_def)

lemma fgets_shorter:
  assumes "fgets text line = Some (line', text')"
  shows "length text' < length text"
proof -
  have "text \<noteq> []" using assms by (auto simp: fgets_def)
  moreover from this have "take_line (LINE_SIZE - 1) text \<noteq> []"
    by (simp add: take_line_pos LINE_SIZE_def)
  ultimately show ?thesis
    using assms by (auto simp: fgets_def Let_def)
qed

section \<open>The loader\<close>

text \<open>The entry of a column: unlike \<open>redis_fpga.c\<close>, nothing terminates a name of 63 bytes or more.\<close>

definition ld_set_column :: "Column \<Rightarrow> string \<Rightarrow> Column" where
  "ld_set_column c tok = c\<lparr>col_name := strncpy (col_name c) tok 63, is_int := 1\<rparr>"

text \<open>\<open>redisCommand(c, ...)\<close> as a statement: the reply is dropped, not freed.\<close>

definition leak :: "'s exec \<Rightarrow> string \<Rightarrow> string list \<Rightarrow> 's client \<Rightarrow> 's client" where
  "leak ex fmt args cl = snd (redisCommand ex fmt args cl)"

abbreviation seps :: string where
  "seps \<equiv> [CHR '','', LF]"

text \<open>
  The rows after the first: every line counts, an empty one too, and a carriage return before
  the line feed stays in the last field.
\<close>

function ld_rows ::
  "'s exec \<Rightarrow> Column list \<Rightarrow> nat \<Rightarrow> string \<Rightarrow> buf \<Rightarrow> int \<Rightarrow> 's client \<Rightarrow> (int \<times> 's client) res" where
  "ld_rows ex schema cols text line row cl =
     (case fgets text line of
        None \<Rightarrow> Inr (row, cl)
      | Some (line, text) \<Rightarrow>
          rbind (sadd 32 row 1) (\<lambda>row.
          rbind (tok_for seps (row_body (leak ex) schema (row_key row)) cols line 0 cl)
            (\<lambda>(cl, i, line). ld_rows ex schema cols text line row cl)))"
  by pat_completeness auto
termination
  by (relation "measure (\<lambda>(ex, schema, cols, text, line, row, cl). length text)")
    (auto intro: fgets_shorter)

declare ld_rows.simps [simp del]

text \<open>
  The whole loader on the file's text (\<open>None\<close> if it cannot be opened). The results of the
  first two \<open>fgets\<close> are not looked at: for an empty file \<open>strtok\<close> runs over the uninitialised
  line buffer, and for a file of one line it runs over what is left of that line.
\<close>

definition ld_load_dataset ::
  "string option \<Rightarrow> 's exec \<Rightarrow> Column list \<Rightarrow> int \<Rightarrow> 's client \<Rightarrow>
   (int \<times> Column list \<times> int \<times> 's client) res" where
  "ld_load_dataset file ex schema ns cl =
     (case file of
        None \<Rightarrow> Inr (0, schema, ns, cl)
      | Some text \<Rightarrow>
          (case fgets text [] of
             None \<Rightarrow> Inl UninitRead
           | Some (line, text) \<Rightarrow>
               rbind (load_header ld_set_column seps line 0 schema) (\<lambda>(schema, cols, line).
               let (line, text) = (case fgets text line of None \<Rightarrow> (line, text) | Some x \<Rightarrow> x)
               in rbind (infer_types seps cols line 0 schema) (\<lambda>((toks, schema), i, line).
                  rbind (store_schema (leak ex) schema cols cl) (\<lambda>cl.
                  rbind (store_first_row (leak ex) line schema toks cols cl) (\<lambda>cl.
                  rbind (ld_rows ex schema cols text line 1 cl) (\<lambda>(row, cl).
                    Inr (row, schema, int cols, cl))))))))"

section \<open>The sums\<close>

text \<open>\<open>element[j]->str\<close> without a test: the index, the element and its string may be missing.\<close>

definition elem_str :: "redisReply option list \<Rightarrow> nat \<Rightarrow> string res" where
  "elem_str es j =
     rbind (idx es j) (\<lambda>e. case e of
         None \<Rightarrow> Inl NullDeref
       | Some r \<Rightarrow> (case rstr r of None \<Rightarrow> Inl NullDeref | Some s \<Rightarrow> Inr s))"

text \<open>
  The loop over the elements with its body \<open>add\<close>, the addition to the sum: \<open>int\<close> in the
  projection, \<open>long long\<close> in the aggregation. \<open>j\<close> runs over 0, 2, 4, ... below the number of
  elements.
\<close>

definition ld_pairs ::
  "(int \<Rightarrow> int \<Rightarrow> int res) \<Rightarrow> Column list \<Rightarrow> nat \<Rightarrow> redisReply option list \<Rightarrow> int \<Rightarrow> int res" where
  "ld_pairs add schema s es acc =
     fold_res (\<lambda>j acc.
         rbind (column_name schema s) (\<lambda>n.
         rbind (elem_str es j) (\<lambda>k.
           if n = k then rbind (elem_str es (j + 1)) (\<lambda>v. add acc (atoi v)) else Inr acc)))
       (map (\<lambda>i. 2 * i) [0..<(length es + 1) div 2]) acc"

definition ld_columns ::
  "(int \<Rightarrow> int \<Rightarrow> int res) \<Rightarrow> Column list \<Rightarrow> nat \<Rightarrow> redisReply \<Rightarrow> int \<Rightarrow> int res" where
  "ld_columns add schema ns r acc =
     fold_res (\<lambda>s acc. rbind (idx schema s) (\<lambda>c.
         if is_int c = 0 then Inr acc else ld_pairs add schema s (element r) acc)) [0..<ns] acc"

text \<open>
  One round of either query. The loop counter is \<open>i\<close>, but the key is made from \<open>id\<close>, which
  stays 0: every round asks for \<open>row:0\<close>, a key the loader never writes.
\<close>

definition ld_projection_round ::
  "'s exec \<Rightarrow> Column list \<Rightarrow> nat \<Rightarrow> nat \<Rightarrow> int \<times> int \<times> 's client \<Rightarrow> (int \<times> int \<times> 's client) res" where
  "ld_projection_round ex schema ns i = (\<lambda>(total, count, cl).
     let id = 0; (r, cl) = hgetall ex id cl
     in case r of
          None \<Rightarrow> Inr (total, count, freeReplyObject r cl)
        | Some rep \<Rightarrow>
            if rtype rep \<noteq> REDIS_REPLY_ARRAY then Inr (total, count, freeReplyObject r cl)
            else rbind (ld_columns (sadd 32) schema ns rep 0) (\<lambda>row_sum.
                 rbind (sadd 64 total row_sum) (\<lambda>total.
                 rbind (sadd 32 count 1) (\<lambda>count. Inr (total, count, freeReplyObject r cl)))))"

definition ld_query_projection ::
  "'d fp \<Rightarrow> 's exec \<Rightarrow> int \<times> int \<Rightarrow> int \<times> int \<Rightarrow> int \<Rightarrow> Column list \<Rightarrow> int \<Rightarrow> 's client \<Rightarrow>
   (int \<times> 'd \<times> 's client) res" where
  "ld_query_projection F ex tv1 tv2 rows schema ns cl =
     timed tv1 tv2
       (rbind (fold_res (ld_projection_round ex schema (nat ns)) [0..<nat rows] (0, 0, cl))
         (\<lambda>(total, count, cl).
            Inr (if count \<noteq> 0 then div_d F (of_i F total) (of_i F count) else of_i F 0, cl)))"

definition ld_aggregation_round ::
  "'s exec \<Rightarrow> Column list \<Rightarrow> nat \<Rightarrow> nat \<Rightarrow> int \<times> 's client \<Rightarrow> (int \<times> 's client) res" where
  "ld_aggregation_round ex schema ns i = (\<lambda>(sum, cl).
     let id = 0; (r, cl) = hgetall ex id cl
     in case r of
          None \<Rightarrow> Inr (sum, freeReplyObject r cl)
        | Some rep \<Rightarrow>
            if rtype rep \<noteq> REDIS_REPLY_ARRAY then Inr (sum, freeReplyObject r cl)
            else rbind (ld_columns (sadd 64) schema ns rep sum) (\<lambda>sum.
                 Inr (sum, freeReplyObject r cl)))"

definition ld_query_aggregation ::
  "'s exec \<Rightarrow> int \<times> int \<Rightarrow> int \<times> int \<Rightarrow> int \<Rightarrow> Column list \<Rightarrow> int \<Rightarrow> 's client \<Rightarrow>
   (int \<times> int \<times> 's client) res" where
  "ld_query_aggregation ex tv1 tv2 rows schema ns cl =
     timed tv1 tv2 (fold_res (ld_aggregation_round ex schema (nat ns)) [0..<nat rows] (0, cl))"

section \<open>The program\<close>

text \<open>The report is cut up in the reply itself; neither the reply nor its string is tested.\<close>

definition ld_print_memory :: "'s exec \<Rightarrow> 's client \<Rightarrow> (string list \<times> 's client) res" where
  "ld_print_memory ex cl =
     (let (reply, cl) = redisCommand ex ''INFO memory'' [] cl
      in case reply of
           None \<Rightarrow> Inl NullDeref
         | Some rep \<Rightarrow>
             (case rstr rep of
                None \<Rightarrow> Inl NullDeref
              | Some s \<Rightarrow>
                  rbind (tok_for [LF] report_line (length s + 1) (s @ [NUL]) 0 [])
                    (\<lambda>(out, i, b). Inr (out, freeReplyObject reply cl))))"

record loader_env =
  ld_file :: "string option"
  ld_conn :: connection
  ld_clock :: "nat \<Rightarrow> (int \<times> int) \<times> (int \<times> int)"

record ('s, 'd) ld_outcome =
  ld_status :: int
  ld_client :: "'s client option"
  ld_rows_of :: "int option"
  ld_average :: "'d option"
  ld_sum :: "int option"
  ld_summary :: "(int \<times> 'd \<times> 'd) list"
  ld_report :: "string list"

definition ld_main ::
  "'d fp \<Rightarrow> 'g generator \<Rightarrow> 's exec \<Rightarrow> loader_env \<Rightarrow> string list \<Rightarrow> 'g gauss \<Rightarrow> 's \<Rightarrow>
   ('s, 'd) ld_outcome res" where
  "ld_main F R ex env argv g s =
     (let argc = length argv;
          out = \<lparr>ld_status = 1, ld_client = None, ld_rows_of = None, ld_average = None,
                 ld_sum = None, ld_summary = [], ld_report = []\<rparr>
      in if argc < 4 then Inr out
      else
        (let persistent = (atoi (argv ! 1) = 1);
             load_only = (argv ! 2 = ''load'')
         in if ld_conn env \<noteq> Connected then Inr out
         else
           (let cl = set_persistence ex persistent \<lparr>server = s, live = 0, sent = []\<rparr>
            in rbind (ld_load_dataset (ld_file env) ex fresh_schema 0 cl)
                 (\<lambda>(rows, schema, ns, cl).
                   let out = out\<lparr>ld_status := 0, ld_rows_of := Some rows\<rparr>
                   in if load_only then Inr (out\<lparr>ld_client := Some cl\<rparr>)
                   else
                     rbind (query_select_gaussian F R ex (fst (ld_clock env 0)) (snd (ld_clock env 0)) rows g cl)
                       (\<lambda>(t0, g, cl).
                     rbind (query_select_all ex (fst (ld_clock env 1)) (snd (ld_clock env 1)) rows cl)
                       (\<lambda>(t1, cl).
                     rbind (ld_query_projection F ex (fst (ld_clock env 2)) (snd (ld_clock env 2))
                              rows schema ns cl) (\<lambda>(t2, avg, cl).
                     rbind (ld_query_aggregation ex (fst (ld_clock env 3)) (snd (ld_clock env 3))
                              rows schema ns cl) (\<lambda>(t3, sum, cl).
                     rbind (ld_print_memory ex cl) (\<lambda>(rep, cl).
                       Inr (out\<lparr>ld_client := Some cl, ld_average := Some avg, ld_sum := Some sum,
                         ld_summary := summary_lines F rows t0 [t1, t2, t3],
                         ld_report := rep\<rparr>))))))))))"

section \<open>Cutting a line with its line end\<close>

lemma next_tok_LF:
  assumes "LF \<notin> set l"
  shows "next_tok seps (l @ [LF]) = (case next_tok '','' l of None \<Rightarrow> None
    | Some (t, r) \<Rightarrow> Some (t, if CHR '','' \<in> set (dropWhile (\<lambda>x. x = CHR '','') l) then r @ [LF] else []))"
proof (cases "\<exists>x \<in> set l. x \<noteq> CHR '',''")
  case False
  then show ?thesis by (auto simp: next_tok_def Let_def dropWhile_eq_Nil_conv dropWhile_append)
next
  case True
  define s1 where "s1 = dropWhile (\<lambda>x. x = CHR '','') l"
  have LF1: "LF \<notin> set s1" using assms by (auto simp: s1_def dest: set_dropWhileD)
  have ne: "s1 \<noteq> []" using True by (auto simp: s1_def dropWhile_eq_Nil_conv)
  have "dropWhile (\<lambda>x. x \<in> set seps) l = s1"
    unfolding s1_def by (rule dropWhile_cong) (use assms in auto)
  moreover obtain x where x: "x \<in> set l" "x \<notin> set seps" using True assms by auto
  ultimately have "dropWhile (\<lambda>x. x \<in> set seps) (l @ [LF]) = s1 @ [LF]"
    using dropWhile_append1 [of x l "\<lambda>x. x \<in> set seps" "[LF]"] by blast
  moreover have "takeWhile (\<lambda>x. x \<notin> set seps) (s1 @ [LF]) = takeWhile (\<lambda>x. x \<noteq> CHR '','') s1"
    using LF1 by (induction s1) auto
  moreover have "tl (dropWhile (\<lambda>x. x \<notin> set seps) (s1 @ [LF])) =
      (if CHR '','' \<in> set s1 then tl (dropWhile (\<lambda>x. x \<noteq> CHR '','') s1) @ [LF] else [])"
    using LF1 by (induction s1) auto
  ultimately have "next_tok seps (l @ [LF]) = Some (takeWhile (\<lambda>x. x \<noteq> CHR '','') s1,
      if CHR '','' \<in> set s1 then tl (dropWhile (\<lambda>x. x \<noteq> CHR '','') s1) @ [LF] else [])"
    unfolding next_tok_def Let_def by simp
  moreover have "next_tok '','' l = Some (takeWhile (\<lambda>x. x \<noteq> CHR '','') s1,
      tl (dropWhile (\<lambda>x. x \<noteq> CHR '','') s1))"
    using ne by (auto simp: next_tok_def s1_def Let_def)
  ultimately show ?thesis by (simp add: s1_def)
qed

lemma tokens_Nil [simp]: "tokens d [] = []"
  by (simp add: tokens.simps [of d "[]"] next_tok_def)

lemma tokens_LF: "LF \<notin> set l \<Longrightarrow> tokens seps (l @ [LF]) = tokens '','' l"
proof (induction "'',''" l rule: tokens.induct)
  case (1 l)
  show ?case
  proof (cases "next_tok '','' l")
    case None
    then show ?thesis
      by (simp add: tokens.simps [of seps "l @ [LF]"] tokens.simps [of "'',''" l] next_tok_LF [OF "1.prems"])
  next
    case (Some tr)
    obtain t r where tr: "tr = (t, r)" by (cases tr)
    let ?s = "dropWhile (\<lambda>x. x = CHR '','') l"
    have r: "r = tl (dropWhile (\<lambda>x. x \<noteq> CHR '','') ?s)"
      using Some tr by (auto simp: next_tok_def Let_def split: if_splits)
    have "LF \<notin> set r"
      using "1.prems" set_tl_subset [of "dropWhile (\<lambda>x. x \<noteq> CHR '','') ?s"]
      by (auto simp: r dest!: set_dropWhileD)
    note IH = "1.hyps" [OF Some [unfolded tr] refl this]
    have last: "r = []" if "CHR '','' \<notin> set ?s"
    proof -
      have "dropWhile (\<lambda>x. x \<noteq> CHR '','') ?s = []" using that by (auto simp: dropWhile_eq_Nil_conv)
      then show ?thesis by (simp only: r list.sel)
    qed
    have "next_tok seps (l @ [LF]) = Some (t, if CHR '','' \<in> set ?s then r @ [LF] else [])"
      by (simp only: next_tok_LF [OF "1.prems"] Some tr option.case prod.case)
    then have "tokens seps (l @ [LF]) = t # tokens seps (if CHR '','' \<in> set ?s then r @ [LF] else [])"
      by (subst tokens.simps) (simp only: option.case prod.case)
    also have "\<dots> = t # tokens '','' r"
    proof (cases "CHR '','' \<in> set ?s")
      case True
      then show ?thesis by (simp only: if_True IH)
    next
      case False
      then show ?thesis using last [OF False] by (simp only: if_False tokens_Nil)
    qed
    also have "\<dots> = tokens '','' l"
      by (subst (2) tokens.simps) (simp only: Some tr option.case prod.case)
    finally show ?thesis .
  qed
qed

section \<open>Lines that fit the buffer\<close>

text \<open>
  A line both programs read alike: not empty, short enough for the line buffer, without NUL
  or line feed, not ending in a carriage return. A text of such lines, each with its line feed.
\<close>

definition plain_line :: "string \<Rightarrow> bool" where
  "plain_line l \<longleftrightarrow> l \<noteq> [] \<and> length l < LINE_SIZE - 1 \<and> NUL \<notin> set l \<and> LF \<notin> set l \<and> last l \<noteq> CR"

definition unlines :: "string list \<Rightarrow> string" where
  "unlines ls = concat (map (\<lambda>l. l @ [LF]) ls)"

lemma unlines_simps [simp]:
  "unlines [] = []" "unlines (l # ls) = l @ LF # unlines ls"
  by (simp_all add: unlines_def)

lemma csv_lines_unlines:
  assumes "\<forall>l \<in> set ls. plain_line l"
  shows "csv_lines (unlines ls) = ls" and "NUL \<notin> set (unlines ls)"
proof -
  have "\<forall>l \<in> set ls. LF \<notin> set l \<and> (l = [] \<or> last l \<noteq> CR)"
    using assms by (auto simp: plain_line_def)
  from csv_lines_roundtrip [OF this, of "[LF]"] show "csv_lines (unlines ls) = ls"
    by (simp add: unlines_def)
  show "NUL \<notin> set (unlines ls)" using assms by (induction ls) (auto simp: plain_line_def)
qed

lemma csv_text_NUL: "NUL \<notin> set s \<Longrightarrow> csv_text (s @ [NUL]) = s"
  unfolding csv_text_def by (induction s) auto

lemma take_line_LF:
  assumes "LF \<notin> set l" and "length l < n"
  shows "take_line n (l @ LF # r) = l @ [LF]"
proof -
  obtain m where m: "n - length l = Suc m" using assms(2) by (cases "n - length l") auto
  have "take n (l @ LF # r) = l @ LF # take m r" using assms(2) by (simp add: m)
  then show ?thesis using assms(1) by (simp add: take_line_def Let_def cut_at_LF)
qed

lemma fgets_plain:
  assumes "plain_line l"
  obtains line' where "fgets (l @ LF # r) line = Some (line', r)" and "holds line' 0 (l @ [LF])"
proof
  let ?line = "(l @ [LF]) @ [NUL] @ drop (length l + 2) line"
  show "fgets (l @ LF # r) line = Some (?line, r)"
    using assms by (simp add: fgets_def plain_line_def take_line_LF Let_def)
  show "holds ?line 0 (l @ [LF])"
    using assms holdsI [of "l @ [LF]" "[]" 0 "drop (length l + 2) line"]
    by (simp add: plain_line_def)
qed

section \<open>What the loader sends\<close>

lemma ld_set_column_name:
  assumes "length (col_name c) = 64" and "length t < 63" and "NUL \<notin> set t"
  shows "cells_string (col_name (ld_set_column c t)) = Inr t \<and> is_int (ld_set_column c t) = 1"
proof -
  obtain k where k: "63 - length t = Suc k" using assms(2) by (cases "63 - length t") auto
  then show ?thesis
    using assms cells_string_terminated [OF assms(3)]
    by (simp add: ld_set_column_def strncpy_def)
qed

text \<open>Every command leaves its reply behind, if there is one.\<close>

fun replies :: "'s exec \<Rightarrow> (string \<times> string list) list \<Rightarrow> 's \<Rightarrow> int" where
  "replies ex [] s = 0"
| "replies ex (c # cs) s =
     (case ex s (fst c) (snd c) of (r, s') \<Rightarrow> (if r = None then 0 else 1) + replies ex cs s')"

interpretation kept: command_sender ex "leak ex" for ex
  by unfold_locales (simp_all add: leak_def redisCommand_def Let_def split: prod.split)

lemma live_leak: "live (fold (pc (leak ex)) cs cl) = live cl + replies ex cs (server cl)"
  by (induction cs arbitrary: cl)
    (simp_all add: pc_def leak_def redisCommand_def Let_def split: prod.split)

lemma ld_rows_run:
  assumes rep: "schema_rep schema names types"
    and "\<forall>l \<in> set ls. plain_line l" and "0 \<le> row" and "row + int (length ls) < 2 ^ 31"
  shows "ld_rows ex schema (length names) (unlines ls) line row cl =
    Inr (row + int (length ls), fold (pc (leak ex))
      (rows_cmds names (row + 1) (map (row_values (length names)) ls)) cl)"
  using assms(2-4)
proof (induction ls arbitrary: line row cl)
  case Nil
  then show ?case by (simp add: ld_rows.simps fgets_def)
next
  case (Cons l ls)
  have l: "plain_line l" and LF: "LF \<notin> set l" using Cons.prems by (simp_all add: plain_line_def)
  obtain line1 where g: "fgets (l @ LF # unlines ls) line = Some (line1, unlines ls)"
    "holds line1 0 (l @ [LF])"
    using fgets_plain [OF l] by blast
  have NUL: "NUL \<notin> set seps" by simp
  have xs: "row_values (length names) l = take (length names) (tokens seps (l @ [LF]))"
    by (simp add: row_values_def tokens_LF [OF LF])
  from tok_for_holds [OF g(2) NUL xs, where f = "row_body (leak ex) schema (row_key (row + 1))"]
  obtain ps line2 where tk: "length ps = length (row_values (length names) l)"
    "\<And>acc. tok_for seps (row_body (leak ex) schema (row_key (row + 1))) (length names) line1 0 acc =
      rbind (fold_body (row_body (leak ex) schema (row_key (row + 1))) 0
          (zip ps (row_values (length names) l)) acc)
        (\<lambda>acc. Inr (acc, length (row_values (length names) l), line2))"
    by auto
  have "0 + length (row_values (length names) l) \<le> length names" by (simp add: row_values_def)
  note body = fold_row_body [OF rep this tk(1), of "leak ex" "row + 1" cl, unfolded drop_0]
  have "fits 32 (row + 1)" using Cons.prems by (auto simp: fits_def)
  then have "ld_rows ex schema (length names) (unlines (l # ls)) line row cl =
      ld_rows ex schema (length names) (unlines ls) line2 (row + 1)
        (fold (pc (leak ex)) (row_cmds names (row + 1) (row_values (length names) l)) cl)"
    by (subst ld_rows.simps) (simp add: g(1) sadd_def tk(2) body)
  with Cons.IH [of "row + 1" line2] Cons.prems show ?case by simp
qed

lemma ld_load_run:
  assumes ok: "schema_ok schema" and plain: "\<forall>l \<in> set (h # l1 # ls). plain_line l"
    and short: "\<forall>t \<in> set (tokens '','' h). length t < 63"
    and full: "length (header_names h) \<le> length (tokens '','' l1)"
    and rows: "int (length ls) < 2 ^ 31 - 1"
  shows "\<exists>schema'. ld_load_dataset (Some (unlines (h # l1 # ls))) ex schema ns cl =
      Inr (1 + int (length ls), schema', int (length (header_names h)),
           fold (pc (leak ex)) (load_cmds h l1 ls) cl) \<and>
    schema_rep schema' (header_names h)
      (column_types (length (header_names h)) (row_values (length (header_names h)) l1))"
proof -
  let ?names = "header_names h"
  let ?ts = "row_values (length ?names) l1"
  have h: "plain_line h" "LF \<notin> set h" "NUL \<notin> set h" and l1: "plain_line l1" "LF \<notin> set l1"
    and ls: "\<forall>l \<in> set ls. plain_line l"
    using plain by (auto simp: plain_line_def)
  have NUL: "NUL \<notin> set seps" by simp
  obtain b1 where g1: "fgets (h @ LF # unlines (l1 # ls)) [] = Some (b1, unlines (l1 # ls))"
    "holds b1 0 (h @ [LF])"
    using fgets_plain [OF h(1)] by blast
  have names: "?names = take MAX_COLS (tokens seps (h @ [LF]))"
    using short by (auto simp: header_names_def tokens_LF [OF h(2)] intro!: map_idI dest!: in_set_takeD)
  have "cells_string (col_name (ld_set_column c t)) = Inr t \<and> is_int (ld_set_column c t) = 1"
    if c: "length (col_name c) = 64" and t: "t \<in> set ?names" for c t
  proof (rule ld_set_column_name [OF c])
    have "t \<in> set (tokens '','' h)"
      using t by (auto simp: names tokens_LF [OF h(2)] dest: in_set_takeD)
    then show "length t < 63" "NUL \<notin> set t" using short h(3) tokens_set by blast+
  qed
  from load_header_holds [where nm = id and setc = ld_set_column, OF ok g1(2) NUL names, unfolded id_apply, OF this]
  obtain sch1 b2 where hd: "load_header ld_set_column seps b1 0 schema = Inr (sch1, length ?names, b2)"
    "schema_rep sch1 ?names (replicate (length ?names) True)"
    by auto
  obtain b3 where g2: "fgets (l1 @ LF # unlines ls) b2 = Some (b3, unlines ls)" "holds b3 0 (l1 @ [LF])"
    using fgets_plain [OF l1(1)] by blast
  have ts: "?ts = take (length ?names) (tokens seps (l1 @ [LF]))"
    by (simp add: row_values_def tokens_LF [OF l1(2)])
  obtain ps toks schema' b4 where inf:
    "infer_types seps (length ?names) b3 0 sch1 = Inr ((toks, schema'), length ?ts, b4)"
    "length toks = MAX_COLS" "length ps = length ?ts"
    "\<forall>i < MAX_COLS. toks ! i = (if i < length ps then Some (ps ! i) else None)"
    "schema_rep schema' ?names (column_types (length ?names) ?ts)"
    "list_all2 (holds b4) ps ?ts"
    using infer_types_holds [OF hd(2) g2(2) NUL ts] by blast
  have len: "length ?ts = length ?names" using full by (simp add: row_values_def)
  have "length ?ts \<le> MAX_COLS" unfolding len by (simp add: header_names_def)
  note first = store_first_row_sends [OF inf(5) len token_array [OF inf(2-4,6) this], of "leak ex"]
  have "(1 :: int) + int (length ls) < 2 ^ 31" using rows by simp
  note rest = ld_rows_run [OF inf(5) ls _ this, simplified]
  have "data_rows (length ?names) ls = map (row_values (length ?names)) ls"
    using ls by (auto simp: data_rows_def plain_line_def filter_id_conv)
  then have cmds: "load_cmds h l1 ls = schema_cmds ?names (column_types (length ?names) ?ts) @
      row_cmds ?names 1 ?ts @ rows_cmds ?names 2 (map (row_values (length ?names)) ls)"
    by (simp add: load_cmds_def Let_def)
  have "ld_load_dataset (Some (unlines (h # l1 # ls))) ex schema ns cl =
      Inr (1 + int (length ls), schema', int (length ?names), fold (pc (leak ex)) (load_cmds h l1 ls) cl)"
    unfolding cmds
    by (simp add: ld_load_dataset_def g1(1) [simplified] hd(1) g2(1) inf(1)
        store_schema_sends [OF inf(5)] first rest)
  with inf(5) show ?thesis by blast
qed

section \<open>The two loaders\<close>

text \<open>
  C8: on a file of plain lines whose header names are shorter than 63 bytes and whose first
  row is complete, the two loaders do the same to Redis: the same commands in the same order,
  leaving the server in the same state, the same row and column counts, and schemas that
  represent the same names and types. The difference is in the replies: \<open>redis_fpga\<close> has
  freed all of them, \<open>redis_loader\<close> holds one for each command that was answered.
\<close>

theorem loaders_agree:
  assumes "schema_ok schema" and "\<forall>l \<in> set (h # l1 # ls). plain_line l"
    and "\<forall>t \<in> set (tokens '','' h). length t < 63"
    and "length (header_names h) \<le> length (tokens '','' l1)" and "int (length ls) < 2 ^ 31 - 1"
    and "read_file_into_buffer mal env st = Inr (Some (p, unlines (h # l1 # ls) @ [NUL]), st')"
  shows "\<exists>sch1 sch2 cl1 cl2.
    load_dataset_generic mal env ex schema ns cl st =
      Inr (1 + int (length ls), sch1, int (length (header_names h)), cl1, st') \<and>
    ld_load_dataset (Some (unlines (h # l1 # ls))) ex schema ns cl =
      Inr (1 + int (length ls), sch2, int (length (header_names h)), cl2) \<and>
    sent cl2 = sent cl1 \<and> server cl2 = server cl1 \<and>
    (let types = column_types (length (header_names h)) (row_values (length (header_names h)) l1)
     in schema_rep sch1 (header_names h) types \<and> schema_rep sch2 (header_names h) types) \<and>
    live cl1 = live cl \<and> live cl2 = live cl + replies ex (load_cmds h l1 ls) (server cl)"
proof -
  let ?text = "unlines (h # l1 # ls)"
  have "csv_text (?text @ [NUL]) = ?text"
    by (rule csv_text_NUL [OF csv_lines_unlines(2) [OF assms(2)]])
  then have lines: "csv_lines (csv_text (?text @ [NUL])) = h # l1 # ls"
    using csv_lines_unlines(1) [OF assms(2)] by simp
  have rows: "length (data_rows (length (header_names h)) ls) = length ls"
    using assms(2) by (auto simp: data_rows_def plain_line_def filter_id_conv)
  from load_dataset_run [OF assms(1,6) lines assms(4), unfolded rows, OF assms(5), of ex ns cl]
    ld_load_run [OF assms(1-5), of ex ns cl]
  show ?thesis by (auto simp: Let_def kept.fold_sent kept.fold_server sent_sends server_sends live_sends live_leak)
qed

text \<open>Two plain lines and a server that answers every command with a status.\<close>

lemma sample_plain:
  "\<forall>l \<in> set [''id,name'', ''1,ann'', ''2,bob'']. plain_line l"
  by (simp add: plain_line_def LINE_SIZE_def)

theorem loaders_agree_witness:
  "\<exists>sch1 sch2 cl1 cl2.
    load_dataset_generic (\<lambda>h _. (0x5000, h))
        \<lparr>stat_size = Some 20, contents = Some (unlines [''id,name'', ''1,ann'', ''2,bob''])\<rparr>
        (\<lambda>s _ _. (Some (Reply REDIS_REPLY_OTHER None []), s)) fresh_schema 0
        \<lparr>server = (), live = 0, sent = []\<rparr> no_arena = Inr (2, sch1, 2, cl1, no_arena) \<and>
    ld_load_dataset (Some (unlines [''id,name'', ''1,ann'', ''2,bob'']))
        (\<lambda>s _ _. (Some (Reply REDIS_REPLY_OTHER None []), s)) fresh_schema 0
        \<lparr>server = (), live = 0, sent = []\<rparr> = Inr (2, sch2, 2, cl2) \<and>
    live cl1 = 0 \<and> live cl2 = 7"
proof -
  let ?ex = "\<lambda>s _ _. (Some (Reply REDIS_REPLY_OTHER None []), s) :: redisReply option \<times> unit"
  let ?env = "\<lparr>stat_size = Some 20, contents = Some (unlines [''id,name'', ''1,ann'', ''2,bob''])\<rparr>"
  have rd: "read_file_into_buffer (\<lambda>h _. (0x5000, h)) ?env no_arena =
      Inr (Some (0x5000, unlines [''id,name'', ''1,ann'', ''2,bob''] @ [NUL]), no_arena)"
    by (simp add: read_file_into_buffer_def no_arena_def fpga_alloc_def)
  have "replies ?ex (load_cmds ''id,name'' ''1,ann'' [''2,bob'']) () = 7"
    by (simp add: load_cmds_def sample_names row_values_def sample_tokens data_rows_def
        schema_cmds_def column_types_def row_cmds_def upt_rec)
  with loaders_agree [OF fresh_schema_ok sample_plain _ _ _ rd, of ?ex 0 "\<lparr>server = (), live = 0, sent = []\<rparr>"]
  show ?thesis
    by (simp add: sample_names sample_tokens) blast
qed

section \<open>What its sums see\<close>

lemma ld_columns_empty:
  assumes "schema_rep schema names types"
  shows "ld_columns add schema (length names) (Reply t s []) acc = Inr acc"
proof -
  have "ld_columns add schema (length names) (Reply t s []) acc =
      Inr (fold (\<lambda>s. id) [0..<length names] acc)"
    unfolding ld_columns_def
    by (rule fold_res_Inr) (simp add: schema_repD(2) [OF assms] ld_pairs_def)
  then show ?thesis by (simp add: fold_id)
qed

lemma hgetall_empty:
  assumes "redis_hashes ex store" and "store (server cl) (row_key 0) = Map.empty"
  obtains cl' where "hgetall ex 0 cl = (Some (Reply REDIS_REPLY_ARRAY None []), cl')"
    and "freeReplyObject (Some (Reply REDIS_REPLY_ARRAY None [])) cl' = send ex (''HGETALL %s'', [row_key 0]) cl"
proof -
  obtain kvs where kvs: "fst (ex (server cl) ''HGETALL %s'' [row_key 0]) =
      Some (Reply REDIS_REPLY_ARRAY None (hash_elements kvs))" "map_of kvs = Map.empty"
    using assms unfolding redis_hashes_def by metis
  then have "kvs = []" by (cases kvs) (auto simp: fun_eq_iff split: if_splits)
  moreover obtain r cl' where h: "hgetall ex 0 cl = (r, cl')" by fastforce
  ultimately show thesis
    using hgetall_send [OF h] kvs(1) by (intro that) (simp_all add: h hash_elements_def)
qed

lemma ld_rounds_empty:
  assumes "redis_hashes ex store" and "schema_rep schema names types"
    and "store (server cl) (row_key 0) = Map.empty" and "0 \<le> n" and "n + int k < 2 ^ 31"
  shows "fold_res (ld_aggregation_round ex schema (length names)) [m..<m + k] (0, cl) =
      Inr (0, fold (send ex) (replicate k (''HGETALL %s'', [row_key 0])) cl)"
    and "fold_res (ld_projection_round ex schema (length names)) [m..<m + k] (0, n, cl) =
      Inr (0, n + int k, fold (send ex) (replicate k (''HGETALL %s'', [row_key 0])) cl)"
proof -
  have "fold_res (ld_aggregation_round ex schema (length names)) [m..<m + k] (0, cl) =
      Inr (0, fold (send ex) (replicate k (''HGETALL %s'', [row_key 0])) cl) \<and>
    fold_res (ld_projection_round ex schema (length names)) [m..<m + k] (0, n, cl) =
      Inr (0, n + int k, fold (send ex) (replicate k (''HGETALL %s'', [row_key 0])) cl)"
    using assms(3-5)
  proof (induction k arbitrary: m n cl)
    case 0
    then show ?case by simp
  next
    case (Suc k)
    let ?c = "send ex (''HGETALL %s'', [row_key 0]) cl"
    obtain cl' where h: "hgetall ex 0 cl = (Some (Reply REDIS_REPLY_ARRAY None []), cl')"
      "freeReplyObject (Some (Reply REDIS_REPLY_ARRAY None [])) cl' = ?c"
      by (rule hgetall_empty [OF assms(1) Suc.prems(1)])
    have "store (server ?c) (row_key 0) = Map.empty"
      using assms(1) Suc.prems(1) by (simp add: server_send redis_hashes_def)
    moreover have n: "0 \<le> n + 1" "n + 1 + int k < 2 ^ 31" "fits 32 (n + 1)" "fits 64 0"
      using Suc.prems by (auto simp: fits_def)
    moreover have "[m..<m + Suc k] = m # [Suc m..<Suc m + k]" by (simp add: upt_rec)
    moreover have "ld_aggregation_round ex schema (length names) m (0, cl) = Inr (0, ?c)"
      "ld_projection_round ex schema (length names) m (0, n, cl) = Inr (0, n + 1, ?c)"
      using n by (simp_all add: ld_aggregation_round_def ld_projection_round_def h
          ld_columns_empty [OF assms(2)] sadd_def)
    ultimately show ?case using Suc.IH [of ?c "n + 1" "Suc m"] by simp
  qed
  then show "fold_res (ld_aggregation_round ex schema (length names)) [m..<m + k] (0, cl) =
      Inr (0, fold (send ex) (replicate k (''HGETALL %s'', [row_key 0])) cl)"
    and "fold_res (ld_projection_round ex schema (length names)) [m..<m + k] (0, n, cl) =
      Inr (0, n + int k, fold (send ex) (replicate k (''HGETALL %s'', [row_key 0])) cl)"
    by blast+
qed

lemma row_0_not_loaded:
  assumes "redis_hashes ex store"
  shows "store (server (fold (pc (leak ex)) (load_cmds h l1 ls) cl)) (row_key 0) = store (server cl) (row_key 0)"
  by (simp add: kept.fold_server flip: server_sends)
    (simp add: load_cmds_def Let_def store_rows_cmds [OF assms] store_schema_cmds [OF assms]
      del: rows_cmds.simps)

text \<open>
  C27: the two summing queries of \<open>redis_loader\<close> do not depend on the data set. After it has
  loaded a file into a server without a hash at \<open>row:0\<close>, they ask for \<open>row:0\<close> once per row;
  the aggregation prints 0 and the projection prints 0 divided by the number of rows, whatever
  the file's numbers are.
\<close>

theorem loader_sums_nothing:
  assumes "redis_hashes ex store" and "store (server cl) (row_key 0) = Map.empty"
    and "schema_ok schema" and "\<forall>l \<in> set (h # l1 # ls). plain_line l"
    and "\<forall>t \<in> set (tokens '','' h). length t < 63"
    and "length (header_names h) \<le> length (tokens '','' l1)" and "int (length ls) < 2 ^ 31 - 1"
    and "now_us tv1 = Inr t1" and "now_us tv2 = Inr t2" and "fits 64 (t2 - t1)"
  shows "\<exists>rows schema' ns' cl'.
    ld_load_dataset (Some (unlines (h # l1 # ls))) ex schema ns cl = Inr (rows, schema', ns', cl') \<and>
    rows = 1 + int (length ls) \<and>
    (\<exists>c. ld_query_aggregation ex tv1 tv2 rows schema' ns' cl' = Inr (t2 - t1, 0, c) \<and>
       ld_query_projection F ex tv1 tv2 rows schema' ns' cl' =
         Inr (t2 - t1, div_d F (of_i F 0) (of_i F rows), c) \<and>
       sent c = sent cl' @ replicate (nat rows) (''HGETALL %s'', [row_key 0]))"
proof -
  let ?n = "header_names h" and ?rows = "1 + int (length ls)"
  let ?cl' = "fold (pc (leak ex)) (load_cmds h l1 ls) cl"
  obtain schema' where load: "ld_load_dataset (Some (unlines (h # l1 # ls))) ex schema ns cl =
      Inr (?rows, schema', int (length ?n), ?cl')"
    and rep: "schema_rep schema' ?n (column_types (length ?n) (row_values (length ?n) l1))"
    using ld_load_run [OF assms(3-7), of ex ns cl] by blast
  have "store (server ?cl') (row_key 0) = Map.empty"
    using row_0_not_loaded [OF assms(1)] assms(2) by metis
  note rounds = ld_rounds_empty [OF assms(1) rep this, of 0 "nat ?rows" 0]
  have "?rows < 2 ^ 31" using assms(7) by simp
  then show ?thesis
    using rounds assms(8-10) load
    by (simp add: ld_query_aggregation_def ld_query_projection_def timed_def sadd_def sent_sends
        del: One_nat_def fold_replicate)
qed


theorem loader_sums_nothing_witness:
  "\<exists>schema' ns' cl' c.
    ld_load_dataset (Some (unlines [''id,name'', ''1,ann'', ''2,bob''])) sample_exec fresh_schema 0
      \<lparr>server = (\<lambda>_. []), live = 0, sent = []\<rparr> = Inr (2, schema', ns', cl') \<and>
    ld_query_aggregation sample_exec (1, 2) (1, 9) 2 schema' ns' cl' = Inr (7, 0, c)"
proof -
  have clk: "now_us (1, 2) = Inr 1000002" "now_us (1, 9) = Inr 1000009" "fits 64 (1000009 - 1000002)"
    by (simp_all add: now_us_def sadd_def fits_def)
  have "map_of (server \<lparr>server = (\<lambda>_. [] :: (string \<times> string) list), live = 0, sent = []\<rparr> (row_key 0)) =
      Map.empty" by simp
  from loader_sums_nothing [where store = "\<lambda>s k. map_of (s k)" and ns = 0 and F = sample_fp,
      OF sample_exec_hashes this fresh_schema_ok sample_plain _ _ _ clk]
  show ?thesis by (simp add: sample_names sample_tokens) blast
qed

end
