(* ===== verification/RedisSafety.thy ===== *)
theory RedisSafety
  imports RedisLoader
begin

text \<open>
  Memory safety of the two Redis programs: whatever the file holds and whatever the server
  answers, the loaders access no byte outside a buffer, no column outside the array and follow
  no null pointer; nor do the queries and the memory report of \<open>redis_fpga\<close>.
\<close>

section \<open>Loops over the fields of a line\<close>






section \<open>The column array\<close>











section \<open>The parts of the upload\<close>









section \<open>The loaders\<close>















section \<open>The queries and the program\<close>













end
