(* ===== verification/Spec2Isabelle.thy ===== *)
theory Spec2Isabelle
  imports EnzianMemory EnzianFpi MemTool FpiTools MbMain RedisSafety
begin

text \<open>
  A verification development for the Enzian FPGA memory repository: two Linux kernel modules,
  the small programs that use them, a memory benchmark, and two programs that load a CSV file
  into Redis and query it, one of them with its buffers in FPGA memory.

  The parts and how they interact. \<open>enzian_memory.c\<close> is the character device
  \<open>/dev/fpgamem\<close>: mapping it gives the FPGA's terabyte, at fault time, and its ioctls execute
  L2-cache instructions. \<open>mem.c\<close>, \<open>mb_enzian.c\<close> and \<open>redis_fpga.c\<close> map it; \<open>mem.c\<close> also uses the
  ioctls. \<open>enzian_fpi.c\<close> is the device \<open>/dev/fpi\<close>: an ioctl sends a software-generated
  interrupt (\<open>send_fpi.c\<close>), a read waits for one (\<open>receive_fpi.c\<close>). \<open>redis_loader.c\<close> is
  \<open>redis_fpga.c\<close> without the device.

  The theories:

  \<^item> \<open>Prelude\<close>: words, faults, the result type \<open>'a res\<close> (a fault or a value) and its rewriting,
    checked array access and signed addition, transition systems with the locale
    \<open>transition_system\<close> of an initial condition, a step relation and an invariant, and \<open>sat\<close>,
    the judgement that a computation is memory-safe and what holds of its value.
  \<^item> \<open>DeviceModel\<close>: the calls of a module on the kernel as trace events with the kernel's
    answers, the ledger of what a trace has taken and not given back, and the locale
    \<open>ioctl_device\<close>. In the ledger a call that failed takes nothing, a range of device numbers is
    given back by its exact count only, and an interrupt handler stays while a CPU has the
    interrupt enabled, as Linux documents it.
  \<^item> \<open>CLib\<close>: number parsing and printing, C strings in checked byte buffers, \<open>strtok_r\<close> and the
    tokenising loops; \<open>Csv\<close>: \<open>next_line\<close> and the lines of a text. Both show that the destructive
    routine computes a list function (\<open>tokens\<close>, \<open>csv_lines\<close>).
  \<^item> \<open>EnzianMemory\<close> (\<open>enzian_memory.c\<close>): the ioctl switch, the fault handlers as functions and,
    for several CPUs, as the steps \<open>fault_step\<close> between lock, test, insertion and unlock; module
    load and removal. The lemmas show mutual exclusion, that no gigabyte is installed twice, that
    the handler is atomic (whatever the other CPUs do meanwhile, it does what the sequential
    function does in one piece), the physical addresses with their limits, and what cycles of
    loading and removing the module leave behind.
  \<^item> \<open>EnzianFpi\<close> (\<open>enzian_fpi.c\<close>): the wait queue as events of readers and handlers
    (\<open>fpi_next\<close>). Signals are part of the state, so that only a signal that was sent can wake a
    reader. No wake-up is lost: with the flag set every run of a reader and the wake-ups under
    way ends the read; with one reader and no signal no read returns without an interrupt; and
    for \<open>k\<close> readers the exact bounds between returns, interrupts and signals. Module load and
    removal as for the other driver, with the CPUs on which the interrupt stays enabled.
  \<^item> \<open>MemTool\<close> (\<open>mem.c\<close>) and \<open>FpiTools\<close> (\<open>send_fpi.c\<close>, \<open>receive_fpi.c\<close>): the programs as
    traces of their system calls and accesses.
  \<^item> \<open>MbLatency\<close>, \<open>MbThreads\<close>, \<open>MbC2C\<close>, \<open>MbMain\<close> (\<open>mb_enzian.c\<close>): the pointer chase, whose
    generator has full period, and the sequential reads; the barrier and the workers of the
    throughput test; the core-to-core handshake of two threads; options, mapping and order of
    the tests in \<open>main\<close>, as a trace with the way it ends. A thread that \<open>pthread_create\<close> refuses
    to start leaves the others, and the program, waiting at the barrier.
  \<^item> \<open>Arena\<close> (\<open>fpga_alloc\<close>, \<open>SetupEnzianMemoryMapping\<close>, \<open>read_file_into_buffer\<close> of
    \<open>redis_fpga.c\<close>): the bump allocator, an interpretation of the locale \<open>region_allocator\<close>.
  \<^item> \<open>RedisModel\<close>: columns, replies and the connection, and the locale \<open>command_sender\<close> for the
    two ways of sending a command, freeing the reply or not. \<open>RedisFpga\<close>: the loader of
    \<open>redis_fpga.c\<close>, shown to send what a list-level reading of the CSV text prescribes.
    \<open>RedisQueries\<close>: its queries, reports and \<open>main\<close>, which frees every reply. \<open>RedisSum\<close>: loader
    and queries together on a server that keeps hashes: they compute the file's sums.
  \<^item> \<open>RedisLoader\<close> (\<open>redis_loader.c\<close>): the other loader on the same definitions, shown to agree
    with the first on clean files but to keep its replies, and its sums, which read no data.
  \<^item> \<open>RedisSafety\<close>: both loaders, and the whole of \<open>redis_fpga\<close>, stay inside their buffers and
    arrays and follow no null pointer, for every file and every server.

  This theory adds what holds of a tool and the driver together.

  Correspondence. A C function is the definition of the same name, with a prefix \<open>ld_\<close> for the
  functions of \<open>redis_loader.c\<close> that differ from their namesakes; a \<open>main\<close> carries its
  program's name. A function that can run into undefined behaviour, a failed \<open>assert\<close> or
  \<open>exit\<close> returns a \<open>res\<close>. \<open>uint64_t\<close> and \<open>unsigned\<close> are words; signed types are integers with
  their range tested where they are added to (\<open>sadd\<close>). Buffers are lists of bytes, read and
  written only inside their bounds; bytes, names and pointers never written are \<open>None\<close>, and
  reading one is a fault. Threads are interleaved on sequentially consistent memory; the program
  points between which a switch matters are the states of the step relations.

  Termination and bounds. There is no fuel: the loops over buffers and files are functions whose
  cursor or remaining text shrinks. The one loop that need not end, the sequential latency test
  with size 0, is a partial function with \<open>None\<close> for not returning, and shown not to return. The
  latency tests are treated for sizes up to \<open>2 ^ 30\<close> (the program uses up to \<open>2 ^ 26\<close>), CPU ranges
  up to the 128 entries of the table of thread identifiers (an identifier stored behind it is
  out of bounds), sums of columns below \<open>2 ^ 63\<close>, requests to the arena below \<open>2 ^ 62\<close> bytes where
  blocks are to be disjoint, and what happens beyond.

  Parameters, with what is assumed of them: the kernel's page-table helpers (an insertion that
  reports success leaves its entry valid, none invalidates another: \<open>pud_laws\<close>), the
  device-number macros and the interrupt calls with their results (\<open>smp_call_on_cpu\<close> runs its
  function or fails); the creation of threads; system calls and their results; hiredis and the
  server (\<open>redis_hashes\<close> states what \<open>DEL\<close>, \<open>HSET\<close> and \<open>HGETALL\<close> do to hashes); \<open>malloc\<close>, the
  file system, the clock and counter readings, the C random generator (it draws from 0 to
  \<open>RAND_MAX\<close>), and floating point (\<open>fp\<close>: where a key is computed, the value has to fit an \<open>int\<close>;
  exact real arithmetic is the instance). Every hypothesis has a concrete instance in a witness.

  Not modelled: the cycle counters and cache instructions below the level of the events that
  stand for them; the calibration of the counter, \<open>nice_time\<close> and the figures printed from
  floating point in \<open>mb_enzian.c\<close>; the layout of the printed tables in the Redis programs (their
  numbers are results); the FPGA as partner of the core-to-core test; read errors of a file that
  was opened; weak memory ordering; what the kernel does with an error pointer in place of a
  class; the build files and the udev rule, which hold no logic.
  \<open>dc zva\<close> is taken to clear 128 bytes, the cache line of the processor the benchmark is for.
\<close>

section \<open>The tool and the driver together\<close>

lemma store_event:
  assumes "good_env env" and "length argv = 3" and "unat (offset_arg argv) < 2 ^ 40"
    and "mem_main env argv = Inr (r, evs, ws)"
  shows "MemStore a v \<in> set evs \<longleftrightarrow> a = word_addr (offset_arg argv) \<and> v = strtoull 16 (argv ! 2)"
    and "ioctls evs = [(5, phys_addr + offset_arg argv)]"
  using assms word_at_ok [OF assms(3)]
  by (auto simp: mem_main_def good_env_def mem_access_def offset_arg_def word_addr_def Let_def ioctls_def)

lemma identity_mapped:
  assumes "PAGE_SHIFT K = 12" and "pgoff vmf = drop_bit 12 (a - phys_addr)"
  shows "fault_phys K vmf + take_bit 12 a = a"
proof -
  define w where "w = a - phys_addr"
  have a: "a = phys_addr + w" by (simp add: w_def)
  have "unat a mod 2 ^ 12 = (2 ^ 40 + unat w) mod 2 ^ 64 mod 2 ^ 12"
    by (simp add: a phys_addr_def unat_word_ariths)
  also have "\<dots> = (2 ^ 40 + unat w) mod 2 ^ 12" by (rule mod_mod_cancel) simp
  also have "\<dots> = unat w mod 2 ^ 12" by (simp add: mod_add_left_eq [symmetric])
  finally have "unat (take_bit 12 a) = unat (take_bit 12 w)"
    unfolding unsigned_take_bit_eq by (simp only: take_bit_eq_mod)
  then have "take_bit 12 a = take_bit 12 w" by (rule unsigned_word_eqI)
  moreover have "fault_phys K vmf = phys_addr + push_bit 12 (drop_bit 12 w)"
    by (simp only: fault_phys_def FPGA_MEMORY_ADDRESS_def phys_addr_def assms w_def)
  moreover have "push_bit 12 (drop_bit 12 w) + take_bit 12 w = w" by (rule bits_ident)
  ultimately show ?thesis by (simp only: add.assoc flip: a)
qed

text \<open>
  C10: for a store through the tool inside the window, take the fault the kernel reports for the
  stored word, at the page of the word in the mapping: the driver computes the page's physical
  address so that the word's own physical address is its virtual one, and the one ioctl the
  tool issues makes the driver write back and invalidate the L2 line with exactly that word.
\<close>

theorem stored_word_is_flushed:
  assumes "good_env env" and "length argv = 3" and "unat (offset_arg argv) < 2 ^ 40"
    and "mem_main env argv = Inr (r, evs, ws)" and "MemStore a v \<in> set evs"
    and "PAGE_SHIFT K = 12" and "pgoff vmf = drop_bit 12 (a - phys_addr)"
  shows "\<exists>line. snd (ioctl_all enzian_memory_ioctl (ioctls evs) []) = [SYS 0 11 1 2 line] \<and>
    drop_bit 7 (fault_phys K vmf + take_bit 12 a) = drop_bit 7 line \<and> ws a = v"
proof -
  note ev = store_event [OF assms(1-4)]
  have a: "a = word_addr (offset_arg argv)" "v = strtoull 16 (argv ! 2)"
    using assms(5) unfolding ev(1) by blast+
  have "snd (ioctl_all enzian_memory_ioctl (ioctls evs) []) = [SYS 0 11 1 2 (phys_addr + offset_arg argv)]"
    by (simp add: ev(2) enzian_memory_ioctl_def)
  moreover have "drop_bit 7 (fault_phys K vmf + take_bit 12 a) = drop_bit 7 (phys_addr + offset_arg argv)"
    unfolding identity_mapped [OF assms(6,7)] using same_line [OF assms(3)] by (simp add: a(1))
  moreover have "ws a = v"
    using mem_write_effect [OF assms(1-4)] by (simp add: a)
  ultimately show ?thesis by blast
qed

theorem stored_word_is_flushed_witness:
  "\<exists>evs ws line. mem_main sample_mem_env [''mem'', ''0x8C'', ''-1''] = Inr (0, evs, ws) \<and>
    snd (ioctl_all enzian_memory_ioctl (ioctls evs) []) = [SYS 0 11 1 2 line] \<and> ws 0x10000000088 = - 1"
proof -
  let ?argv = "[''mem'', ''0x8C'', ''-1'']"
  have small: "unat (offset_arg ?argv) < 2 ^ 40" by (simp add: sample_offset)
  obtain evs ws where run: "mem_main sample_mem_env ?argv = Inr (0, evs, ws)"
    using mem_main_write_returns [OF sample_good _ small] by auto
  have a: "word_addr (offset_arg ?argv) = 0x10000000088"
    by (simp add: sample_offset word_addr_def phys_addr_def)
  have "MemStore 0x10000000088 (- 1) \<in> set evs"
    using store_event(1) [OF sample_good _ small run] by (simp add: a sample_value)
  from stored_word_is_flushed [OF sample_good _ small run this, of reference_mm "\<lparr>pgoff = 0, address = 0x10000000088\<rparr>"]
  show ?thesis using run by (auto simp: reference_mm_def phys_addr_def)
qed

end
